theory Spec2Isabelle
  imports Complex_Main "HOL-Library.Word" "HOL-Library.Signed_Division" "HOL-Library.Numeral_Type"
begin

unbundle bit_operations_syntax

section \<open>Model of the two cores (FTMA and GW-DE)\<close>


subsection \<open>Field: arithmetic modulo \<open>2^61 - 1\<close> (src/ftma/core/field.h)\<close>

text \<open>
  \<open>std::uint64_t\<close> is a 64-bit word, \<open>unsigned __int128\<close> a 128-bit word; every cast of the
  source is a \<open>ucast\<close>. \<open>int64_t\<close> values are 64-bit words read with \<open>sint\<close>.
\<close>

type_synonym u8 = "8 word"

type_synonym u32 = "32 word"

type_synonym u64 = "64 word"

type_synonym u128 = "128 word"

definition kModulus :: u64 where
  "kModulus = 2305843009213693951"

definition Add :: "u64 \<Rightarrow> u64 \<Rightarrow> u64" where
  "Add a b = ucast (((ucast a :: u128) + ucast b) mod ucast kModulus)"

definition Sub :: "u64 \<Rightarrow> u64 \<Rightarrow> u64" where
  "Sub a b =
     ucast ((((ucast kModulus :: u128) + ucast a) - ucast (b mod kModulus)) mod ucast kModulus)"

definition Mul :: "u64 \<Rightarrow> u64 \<Rightarrow> u64" where
  "Mul a b = ucast (((ucast a :: u128) * ucast b) mod ucast kModulus)"

text \<open>The \<open>while (exp > 0)\<close> loop of \<open>Field::Pow\<close>, on the loop state (result, cur, exp).\<close>

function Pow_loop :: "u64 \<Rightarrow> u64 \<Rightarrow> u64 \<Rightarrow> u64" where
  "Pow_loop result cur e =
     (if e > 0
      then Pow_loop (if e AND 1 \<noteq> 0 then Mul result cur else result) (Mul cur cur) (drop_bit 1 e)
      else result)"
  by pat_completeness auto

termination
proof (relation "measure (\<lambda>(r, c, e). unat e)")
  show "wf (measure (\<lambda>(r, c, e). unat e))" by simp
next
  fix result cur e :: u64
  assume "0 < e"
  then have "0 < unat e" by (simp add: word_greater_zero_iff unat_gt_0)
  then have "unat e div 2 < unat e" by simp
  moreover have "unat (drop_bit 1 e) = drop_bit 1 (unat e)"
    by (rule unat_drop_bit_eq)
  moreover have "drop_bit 1 (unat e) = unat e div 2"
    by (simp add: drop_bit_eq_div)
  ultimately have "unat (drop_bit 1 e) < unat e"
    by (simp only:)
  then show "((if e AND 1 \<noteq> 0 then Mul result cur else result, Mul cur cur, drop_bit 1 e), result, cur, e)
       \<in> measure (\<lambda>(r, c, e). unat e)"
    by simp
qed

definition Pow :: "u64 \<Rightarrow> u64 \<Rightarrow> u64" where
  "Pow base e = Pow_loop 1 (base mod kModulus) e"

definition Inverse :: "u64 \<Rightarrow> u64" where
  "Inverse v = (if v = 0 then 0 else Pow v (kModulus - 2))"

text \<open>
  \<open>ToSigned\<close> returns an \<open>int64_t\<close>: the word whose \<open>sint\<close> is the signed value.
  \<open>FromSigned\<close> takes an \<open>int64_t\<close>; C++'s \<open>%\<close> truncates towards zero (\<open>smod\<close> on \<open>int\<close>),
  and neither intermediate leaves the \<open>int64_t\<close> range.
\<close>

definition ToSigned :: "u64 \<Rightarrow> u64" where
  "ToSigned v = (if v > kModulus div 2 then v - kModulus else v)"

definition FromSigned :: "u64 \<Rightarrow> u64" where
  "FromSigned v =
     word_of_int (((sint v smod sint kModulus) + sint kModulus) smod sint kModulus)"

subsection \<open>Shamir secret sharing (src/ftma/core/shamir.cpp)\<close>

text \<open>
  Exceptions are values: \<open>std::invalid_argument\<close>, \<open>std::out_of_range\<close> and
  \<open>std::runtime_error\<close>; an out-of-bounds read of a \<open>std::vector\<close> (undefined behaviour
  in C++) is the error \<open>UndefinedBehaviour\<close>.
\<close>

datatype error = InvalidArgument | OutOfRange | RuntimeError | UndefinedBehaviour

text \<open>
  \<open>std::mt19937_64\<close> and \<open>std::uniform_int_distribution\<close> belong to the C++ standard
  library, not to the repository. The generator state is a type parameter \<open>'g\<close>; one draw
  \<open>dist(prng)\<close> of \<open>uniform_int_distribution<uint64_t>(0, kModulus - 1)\<close> is a parameter
  \<open>draw\<close> that returns the value and the advanced generator.
\<close>

type_synonym 'g uniform = "'g \<Rightarrow> u64 \<times> 'g"

fun draws :: "'g uniform \<Rightarrow> nat \<Rightarrow> 'g \<Rightarrow> u64 list \<times> 'g" where
  "draws draw 0 g = ([], g)"
| "draws draw (Suc n) g =
     (let (v, g') = draw g; (vs, g'') = draws draw n g' in (v # vs, g''))"

definition BuildPolynomial :: "'g uniform \<Rightarrow> u64 \<Rightarrow> nat \<Rightarrow> 'g \<Rightarrow> u64 list \<times> 'g" where
  "BuildPolynomial draw constant degree g =
     (let (cs, g') = draws draw degree g in (constant # cs, g'))"

fun Evaluate_loop :: "u64 list \<Rightarrow> u64 \<Rightarrow> u64 \<Rightarrow> u64 \<Rightarrow> u64" where
  "Evaluate_loop [] x result pw = result"
| "Evaluate_loop (c # cs) x result pw =
     Evaluate_loop cs x (Add result (Mul c pw)) (Mul pw (x mod kModulus))"

definition Evaluate :: "u64 list \<Rightarrow> u64 \<Rightarrow> u64" where
  "Evaluate coeffs x = Evaluate_loop coeffs x 0 1"

text \<open>The outer loop of \<open>ShareVector\<close>: one polynomial per component, drawn in order.\<close>

fun BuildPolynomials :: "'g uniform \<Rightarrow> u64 list \<Rightarrow> nat \<Rightarrow> 'g \<Rightarrow> u64 list list \<times> 'g" where
  "BuildPolynomials draw [] degree g = ([], g)"
| "BuildPolynomials draw (s # ss) degree g =
     (let (coeffs, g') = BuildPolynomial draw s degree g;
          (rest, g'') = BuildPolynomials draw ss degree g'
      in (coeffs # rest, g''))"

text \<open>
  \<open>shares[participant][component] = Evaluate(coeffs of component, participant + 1)\<close>: every
  cell of the grid is assigned exactly once, so the grid is written as a comprehension.
  Sizes (\<open>std::size_t\<close>) are natural numbers.
\<close>

definition ShareVector ::
  "'g uniform \<Rightarrow> nat \<Rightarrow> nat \<Rightarrow> u64 list \<Rightarrow> 'g \<Rightarrow> error + (u64 list list \<times> 'g)" where
  "ShareVector draw threshold num_participants secret g =
     (if threshold = 0 \<or> threshold > num_participants then Inl InvalidArgument
      else
        let (polys, g') = BuildPolynomials draw secret (threshold - 1) g
        in Inr (map (\<lambda>participant.
                  map (\<lambda>coeffs. Evaluate coeffs (of_nat (participant + 1))) polys)
                [0..<num_participants], g'))"

text \<open>The innermost loop of \<open>Reconstruct\<close> over \<open>j\<close>, on the pair (numerator, denominator).\<close>

definition lagrange_step :: "u64 list \<Rightarrow> nat \<Rightarrow> nat \<Rightarrow> u64 \<times> u64 \<Rightarrow> u64 \<times> u64" where
  "lagrange_step x_coords i j acc =
     (if i = j then acc
      else
        let xi = (x_coords ! i) mod kModulus;
            xj = (x_coords ! j) mod kModulus
        in (Mul (fst acc) (Sub 0 xj), Mul (snd acc) (Sub xi xj)))"

definition lagrange_at :: "u64 list \<Rightarrow> nat \<Rightarrow> nat \<Rightarrow> u64" where
  "lagrange_at x_coords n i =
     (let (numerator, denominator) = fold (lagrange_step x_coords i) [0..<n] (1, 1)
      in Mul numerator (Inverse denominator))"

definition reconstruct_component :: "u64 list \<Rightarrow> u64 list list \<Rightarrow> nat \<Rightarrow> u64" where
  "reconstruct_component x_coords shares component =
     fold (\<lambda>i v. Add v (Mul (shares ! i ! component) (lagrange_at x_coords (length shares) i)))
       [0..<length shares] 0"

text \<open>
  \<open>shares[0]\<close> of an empty grid and \<open>shares[i][comp]\<close> past the end of a row are
  out-of-bounds reads; the loops read every \<open>shares[i][comp]\<close> with
  \<open>comp < shares[0].size()\<close>, so the reads are in bounds exactly when no row is shorter
  than the first.
\<close>

definition Reconstruct :: "nat \<Rightarrow> u64 list \<Rightarrow> u64 list list \<Rightarrow> error + u64 list" where
  "Reconstruct threshold x_coords shares =
     (if length shares \<noteq> length x_coords then Inl InvalidArgument
      else if length shares < threshold then Inl InvalidArgument
      else if shares = [] then Inl UndefinedBehaviour
      else if \<exists>row\<in>set shares. length row < length (shares ! 0) then Inl UndefinedBehaviour
      else Inr (map (reconstruct_component x_coords shares) [0..<length (shares ! 0)]))"

subsection \<open>GW-DE watermark: bit codec, hashing, metadata (src/gwde/src/watermark.cpp)\<close>

text \<open>
  A \<open>std::string\<close> and a \<open>std::vector<uint8_t>\<close> are lists of bytes; \<open>char32_t\<close> is a
  32-bit word. A \<open>double\<close> is kept as the expression the source computes it by, over exact
  literals and integers (\<open>DOfInt k\<close> is \<open>static_cast<double>(k)\<close>), so that no rounding is
  modelled.
\<close>

datatype dexpr =
    DConst rat
  | DOfInt int
  | DAdd dexpr dexpr
  | DSub dexpr dexpr
  | DMul dexpr dexpr
  | DDiv dexpr dexpr
  | DMax dexpr dexpr
  | DSqrt dexpr
  | DErfc dexpr

definition kZeroWidthZero :: u32 where "kZeroWidthZero = 0x200B"

definition kZeroWidthOne :: u32 where "kZeroWidthOne = 0x200C"

definition kZeroWidthMetaStart :: u32 where "kZeroWidthMetaStart = 0x2063"

definition kZeroWidthMetaEnd :: u32 where "kZeroWidthMetaEnd = 0x2064"

definition kMetadataBytes :: nat where "kMetadataBytes = 24"

definition kMetadataRepeat :: nat where "kMetadataRepeat = 4"

definition kMetadataBits :: nat where "kMetadataBits = kMetadataBytes * 8"

definition kMetadataPayloadBits :: nat where "kMetadataPayloadBits = kMetadataBits * kMetadataRepeat"

text \<open>The UTF-8 encoding branch of \<open>EncodeZeroWidthBits\<close> for one code point.\<close>

definition utf8_encode :: "u32 \<Rightarrow> u8 list" where
  "utf8_encode code_point =
     (if code_point \<le> 0x7F then [ucast code_point]
      else if code_point \<le> 0x7FF then
        [ucast (0xC0 OR (drop_bit 6 code_point AND 0x1F)),
         ucast (0x80 OR (code_point AND 0x3F))]
      else
        [ucast (0xE0 OR (drop_bit 12 code_point AND 0x0F)),
         ucast (0x80 OR (drop_bit 6 code_point AND 0x3F)),
         ucast (0x80 OR (code_point AND 0x3F))])"

definition EncodeZeroWidthBits :: "u8 list \<Rightarrow> bool \<Rightarrow> u8 list" where
  "EncodeZeroWidthBits bits include_sentinels =
     concat (map utf8_encode
       ((if include_sentinels then [kZeroWidthMetaStart] else []) @
        map (\<lambda>bit. if bit \<noteq> 0 then kZeroWidthOne else kZeroWidthZero) bits @
        (if include_sentinels then [kZeroWidthMetaEnd] else [])))"

text \<open>
  The three-way UTF-8 branch that every decoder of the file repeats, at the suffix
  \<open>payload[i..]\<close>: the code point and the number of bytes consumed, or \<open>None\<close> when none of
  the three forms applies (each caller has its own fallback). \<open>i + 1 < payload.size()\<close>
  says that the suffix after the first byte is not empty.
\<close>

fun decode_cp :: "u8 list \<Rightarrow> (u32 \<times> nat) option" where
  "decode_cp [] = None"
| "decode_cp (first # rest) =
     (if first < 0x80 then Some (ucast first, 1)
      else if first AND 0xE0 = 0xC0 \<and> 1 \<le> length rest then
        Some (push_bit 6 (ucast (first AND 0x1F)) OR ucast (rest ! 0 AND 0x3F), 2)
      else if first AND 0xF0 = 0xE0 \<and> 2 \<le> length rest then
        Some (push_bit 12 (ucast (first AND 0x0F)) OR push_bit 6 (ucast (rest ! 0 AND 0x3F))
                OR ucast (rest ! 1 AND 0x3F), 3)
      else None)"

text \<open>The \<open>while\<close> loop of \<open>DecodeZeroWidthBits\<close>: the bits read and the unread suffix.\<close>

function decode_loop :: "bool \<Rightarrow> u8 list \<Rightarrow> u8 list \<Rightarrow> u8 list \<times> u8 list" where
  "decode_loop with_sentinels [] bits = (bits, [])"
| "decode_loop with_sentinels (b # bs) bits =
     (case decode_cp (b # bs) of
        None \<Rightarrow> (bits, b # bs)
      | Some (cp, consumed) \<Rightarrow>
          if with_sentinels \<and> cp = kZeroWidthMetaEnd then (bits, drop consumed (b # bs))
          else if cp = kZeroWidthZero then
            decode_loop with_sentinels (drop consumed (b # bs)) (bits @ [0])
          else if cp = kZeroWidthOne then
            decode_loop with_sentinels (drop consumed (b # bs)) (bits @ [1])
          else if \<not> with_sentinels then (bits, b # bs)
          else decode_loop with_sentinels (drop consumed (b # bs)) bits)"
  by pat_completeness auto

termination
  by (relation "measure (\<lambda>(w, bs, bits). length bs)") (auto split: if_splits)

text \<open>
  \<open>offset\<close> is passed by reference: the second component is its value on return (unchanged
  on the early returns, and when the loop is not entered because \<open>offset\<close> is at or past
  the end of the payload).
\<close>

definition DecodeZeroWidthBits :: "u8 list \<Rightarrow> nat \<Rightarrow> bool \<Rightarrow> u8 list \<times> nat" where
  "DecodeZeroWidthBits payload offset with_sentinels =
     (let bs = drop offset payload in
      if with_sentinels then
        (if bs = [] then ([], offset)
         else
           let (cp, consumed) = (case decode_cp bs of None \<Rightarrow> (0, 0) | Some r \<Rightarrow> r) in
           if cp \<noteq> kZeroWidthMetaStart then ([], offset)
           else
             let (bits, rest) = decode_loop True (drop consumed bs) []
             in (bits, length payload - length rest))
      else if length payload \<le> offset then ([], offset)
      else
        let (bits, rest) = decode_loop False bs []
        in (bits, length payload - length rest))"

function StripZeroWidth :: "u8 list \<Rightarrow> u8 list" where
  "StripZeroWidth [] = []"
| "StripZeroWidth (first # rest) =
     (case (case decode_cp (first # rest) of None \<Rightarrow> (ucast first, 1) | Some r \<Rightarrow> r) of
        (cp, consumed) \<Rightarrow>
          (if cp \<noteq> kZeroWidthZero \<and> cp \<noteq> kZeroWidthOne \<and>
              cp \<noteq> kZeroWidthMetaStart \<and> cp \<noteq> kZeroWidthMetaEnd
           then take consumed (first # rest) else [])
          @ StripZeroWidth (drop consumed (first # rest)))"
  by pat_completeness auto

termination
  by (relation "measure length") (auto split: if_splits option.splits)

text \<open>\<open>std::isspace\<close> in the default "C" locale: space and the controls 0x09 to 0x0D.\<close>

definition isspace :: "u8 \<Rightarrow> bool" where
  "isspace c \<longleftrightarrow> c = 0x20 \<or> (0x09 \<le> c \<and> c \<le> 0x0D)"

definition Tokenize :: "u8 list \<Rightarrow> u8 list list" where
  "Tokenize payload =
     (case fold (\<lambda>c (tokens, current).
                   if isspace c
                   then (if current \<noteq> [] then (tokens @ [current], []) else (tokens, current))
                   else (tokens, current @ [c]))
                payload ([], [])
      of (tokens, current) \<Rightarrow> if current \<noteq> [] then tokens @ [current] else tokens)"

record Metadata =
  version :: u32
  state_seed :: u64
  key_hash :: u64
  fingerprint_length :: u32

text \<open>\<open>Metadata{}\<close>: the default member initialisers of the struct.\<close>

definition Metadata_default :: Metadata where
  "Metadata_default = \<lparr>version = 1, state_seed = 0, key_hash = 0, fingerprint_length = 0\<rparr>"

definition write_u32 :: "u32 \<Rightarrow> u8 list" where
  "write_u32 v =
     [ucast (drop_bit 24 v AND 0xFF), ucast (drop_bit 16 v AND 0xFF),
      ucast (drop_bit 8 v AND 0xFF), ucast (v AND 0xFF)]"

definition write_u64 :: "u64 \<Rightarrow> u8 list" where
  "write_u64 v = map (\<lambda>i. ucast (drop_bit (56 - i * 8) v AND 0xFF)) [0..<8]"

definition PackMetadata :: "Metadata \<Rightarrow> u8 list" where
  "PackMetadata meta =
     write_u32 (version meta) @ write_u64 (state_seed meta) @ write_u64 (key_hash meta)
       @ write_u32 (fingerprint_length meta)"

definition read_u32 :: "u8 list \<Rightarrow> u32" where
  "read_u32 src =
     push_bit 24 (ucast (src ! 0)) OR push_bit 16 (ucast (src ! 1)) OR push_bit 8 (ucast (src ! 2))
       OR ucast (src ! 3)"

definition read_u64 :: "u8 list \<Rightarrow> u64" where
  "read_u64 src = fold (\<lambda>i v. push_bit 8 v OR ucast (src ! i)) [0..<8] 0"

definition UnpackMetadata :: "u8 list \<Rightarrow> Metadata option" where
  "UnpackMetadata bs =
     (if length bs \<noteq> 24 then None
      else Some \<lparr>version = read_u32 bs, state_seed = read_u64 (drop 4 bs),
                 key_hash = read_u64 (drop 12 bs), fingerprint_length = read_u32 (drop 20 bs)\<rparr>)"

definition HashString64 :: "u8 list \<Rightarrow> u64" where
  "HashString64 s = fold (\<lambda>c h. (h XOR ucast c) * 1099511628211) s 1469598103934665603"

definition StableHash :: "u8 list \<Rightarrow> u64" where
  "StableHash s = HashString64 s"

definition StableHash64 :: "u64 \<Rightarrow> u64" where
  "StableHash64 v0 =
     (let v1 = v0 XOR drop_bit 33 v0;
          v2 = v1 * 0xff51afd7ed558ccd;
          v3 = v2 XOR drop_bit 33 v2;
          v4 = v3 * 0xc4ceb9fe1a85ec53
      in v4 XOR drop_bit 33 v4)"

text \<open>The metadata bits, most significant bit of each byte first (\<open>bit = 7 .. 0\<close>).\<close>

definition bytes_to_bits :: "u8 list \<Rightarrow> u8 list" where
  "bytes_to_bits bs = concat (map (\<lambda>byte. map (\<lambda>bit. drop_bit bit byte AND 1) (rev [0..<8])) bs)"

text \<open>
  The packing loop of \<open>DecodeMetadata\<close> and \<open>ExtractMetadata\<close>:
  \<open>bytes[i / 8] <<= 1; bytes[i / 8] |= bits[i] & 1\<close> on 24 zero bytes.
\<close>

definition bits_to_bytes :: "u8 list \<Rightarrow> u8 list" where
  "bits_to_bytes bits =
     fold (\<lambda>i bs. bs[i div 8 := push_bit 1 (bs ! (i div 8)) OR (bits ! i AND 1)])
       [0..<length bits] (replicate 24 0)"

subsection \<open>GW-DE text watermark\<close>

text \<open>
  \<open>std::mt19937_64 rng(seed)\<close> is \<open>mt_seed seed\<close>, and one call \<open>rng()\<close> is \<open>mt_next\<close>: both
  are parameters, as the generator is the standard library's.
\<close>

type_synonym 'g seeder = "u64 \<Rightarrow> 'g"

function to_string :: "nat \<Rightarrow> u8 list" where
  "to_string n =
     (if n < 10 then [of_nat (48 + n)] else to_string (n div 10) @ [of_nat (48 + n mod 10)])"
  by pat_completeness auto

termination
  by (relation "measure id") auto

fun text_bits_loop :: "'g uniform \<Rightarrow> u8 list list \<Rightarrow> nat \<Rightarrow> 'g \<Rightarrow> u8 list" where
  "text_bits_loop mt_next [] idx g = []"
| "text_bits_loop mt_next (token # tokens) idx g =
     (let content = StableHash (token @ to_string idx);
          content_bit = (ucast (content AND 1) :: u8);
          (r, g') = mt_next g;
          state_bit = (ucast (r AND 1) :: u8)
      in ((content_bit XOR state_bit) AND 1) # text_bits_loop mt_next tokens (idx + 1) g')"

definition TextComputeCombinedBits ::
  "'g seeder \<Rightarrow> 'g uniform \<Rightarrow> u8 list list \<Rightarrow> u64 \<Rightarrow> u64 \<Rightarrow> u8 list" where
  "TextComputeCombinedBits mt_seed mt_next tokens seed khash =
     text_bits_loop mt_next tokens 0 (mt_seed (seed XOR khash))"

definition EncodeMetadata :: "Metadata \<Rightarrow> u8 list" where
  "EncodeMetadata meta = EncodeZeroWidthBits (bytes_to_bits (PackMetadata meta)) True"

text \<open>\<open>DecodeMetadata\<close> returns the metadata, the offset and the flag \<open>ok\<close>.\<close>

definition DecodeMetadata :: "u8 list \<Rightarrow> Metadata \<times> nat \<times> bool" where
  "DecodeMetadata payload =
     (case DecodeZeroWidthBits payload 0 True of
        (bits, local_offset) \<Rightarrow>
          if length bits \<noteq> 24 * 8 then (Metadata_default, 0, False)
          else case UnpackMetadata (bits_to_bytes bits) of
                 None \<Rightarrow> (Metadata_default, 0, False)
               | Some meta \<Rightarrow> (meta, local_offset, True))"

record TextEmbedResult =
  watermarked_text :: "u8 list"
  text_metadata :: Metadata
  text_fingerprint_bits :: "u8 list"

text \<open>
  The loop of \<open>Embed\<close> over \<open>cleaned\<close>, on the state (builder, current token, token index).
\<close>

definition embed_step :: "u8 list \<Rightarrow> u8 \<Rightarrow> u8 list \<times> u8 list \<times> nat \<Rightarrow> u8 list \<times> u8 list \<times> nat" where
  "embed_step fbits c st =
     (case st of (builder, current_token, token_index) \<Rightarrow>
        if isspace c then
          (if current_token \<noteq> [] then
             (builder @ current_token
                @ (if token_index < length fbits
                   then EncodeZeroWidthBits [fbits ! token_index] False else [])
                @ [c],
              [], token_index + 1)
           else (builder @ [c], current_token, token_index))
        else (builder, current_token @ [c], token_index))"

definition TextEmbed :: "'g seeder \<Rightarrow> 'g uniform \<Rightarrow> u8 list \<Rightarrow> u8 list \<Rightarrow> u64 \<Rightarrow> TextEmbedResult" where
  "TextEmbed mt_seed mt_next payload key seed =
     (let cleaned = StripZeroWidth payload;
          tokens = Tokenize cleaned;
          meta = \<lparr>version = 1, state_seed = seed, key_hash = StableHash key,
                  fingerprint_length = of_nat (length tokens)\<rparr>;
          fbits = TextComputeCombinedBits mt_seed mt_next tokens seed (key_hash meta)
      in case fold (embed_step fbits) cleaned (EncodeMetadata meta, [], 0) of
           (builder, current_token, token_index) \<Rightarrow>
             \<lparr>watermarked_text =
                 (if current_token \<noteq> []
                  then builder @ current_token
                         @ (if token_index < length fbits
                            then EncodeZeroWidthBits [fbits ! token_index] False else [])
                  else builder),
               text_metadata = meta,
               text_fingerprint_bits = fbits\<rparr>)"

record DetectionResult =
  score :: dexpr
  false_positive_rate :: dexpr
  total_bits :: nat
  matching_bits :: nat
  metadata_valid :: bool

definition DetectionResult_default :: DetectionResult where
  "DetectionResult_default =
     \<lparr>score = DConst 0, false_positive_rate = DConst 1, total_bits = 0, matching_bits = 0,
      metadata_valid = False\<rparr>"

text \<open>
  The scanning loop of the text \<open>Detect\<close> on the suffix \<open>payload[i..]\<close>, with the state
  (extracted, token index, current); \<open>n_tokens\<close> is \<open>tokens.size()\<close>.
\<close>

function detect_scan :: "nat \<Rightarrow> u8 list \<Rightarrow> u8 list \<Rightarrow> nat \<Rightarrow> u8 list \<Rightarrow> u8 list" where
  "detect_scan n_tokens [] extracted token_index current = extracted"
| "detect_scan n_tokens (first # rest) extracted token_index current =
     (case (case decode_cp (first # rest) of None \<Rightarrow> (ucast first, 1) | Some r \<Rightarrow> r) of
        (cp, consumed) \<Rightarrow>
          if isspace first then
            detect_scan n_tokens (drop consumed (first # rest)) extracted token_index []
          else if cp = kZeroWidthZero \<or> cp = kZeroWidthOne then
            (if token_index < n_tokens
             then detect_scan n_tokens (drop consumed (first # rest))
                    (extracted @ [if cp = kZeroWidthOne then 1 else 0]) (token_index + 1) current
             else detect_scan n_tokens (drop consumed (first # rest)) extracted token_index current)
          else if isspace (ucast cp) then
            detect_scan n_tokens (drop consumed (first # rest)) extracted token_index current
          else
            detect_scan n_tokens (drop consumed (first # rest)) extracted token_index
              (current @ [ucast cp]))"
  by pat_completeness auto

termination
  by (relation "measure (\<lambda>(n, bs, ex, ti, cur). length bs)") (auto split: if_splits option.splits)

text \<open>The comparison and scoring tail shared by both detectors.\<close>

definition score_bits :: "u8 list \<Rightarrow> u8 list \<Rightarrow> DetectionResult" where
  "score_bits expected extracted =
     (let total = min (length expected) (length extracted);
          matching = length (filter (\<lambda>idx. expected ! idx = extracted ! idx) [0..<total])
      in if total = 0 then
           \<lparr>score = DConst 0, false_positive_rate = DConst 1, total_bits = total,
            matching_bits = matching, metadata_valid = True\<rparr>
         else
           let mean = DMul (DConst (1/2)) (DOfInt (int total));
               variance = DMul (DConst (1/4)) (DOfInt (int total));
               z = DDiv (DSub (DOfInt (int matching)) mean)
                        (DSqrt (DAdd variance (DConst (1 / 10 ^ 9))))
           in \<lparr>score = DDiv (DOfInt (int matching)) (DOfInt (int total)),
                false_positive_rate = DMul (DConst (1/2)) (DErfc (DDiv z (DSqrt (DConst 2)))),
                total_bits = total, matching_bits = matching, metadata_valid = True\<rparr>)"

definition TextDetect :: "'g seeder \<Rightarrow> 'g uniform \<Rightarrow> u8 list \<Rightarrow> DetectionResult" where
  "TextDetect mt_seed mt_next payload =
     (case DecodeMetadata payload of
        (meta, offset, meta_ok) \<Rightarrow>
          if \<not> meta_ok \<or> version meta \<noteq> 1 then
            DetectionResult_default\<lparr>metadata_valid := False, false_positive_rate := DConst 1\<rparr>
          else
            let stripped = StripZeroWidth (drop offset payload);
                tokens = Tokenize stripped;
                expected = TextComputeCombinedBits mt_seed mt_next tokens (state_seed meta) (key_hash meta);
                extracted = detect_scan (length tokens) (drop offset payload) [] 0 []
            in score_bits expected extracted)"

subsection \<open>GW-DE image watermark\<close>

text \<open>
  \<open>height\<close>, \<open>width\<close> and \<open>channels\<close> are \<open>std::size_t\<close>: their product wraps modulo
  \<open>2^64\<close>. Reading or writing \<open>bytes[i]\<close> past the end of the buffer is undefined behaviour
  in C++ and the error \<open>UndefinedBehaviour\<close> here.
\<close>

record ImagePayload =
  bytes :: "u8 list"
  height :: u64
  width :: u64
  channels :: u64

record ImageEmbedResult =
  payload :: ImagePayload
  metadata :: Metadata
  fingerprint_bits :: "u8 list"

fun image_bits_loop :: "'g uniform \<Rightarrow> u8 list \<Rightarrow> nat list \<Rightarrow> 'g \<Rightarrow> u8 list" where
  "image_bits_loop mt_next bs [] g = []"
| "image_bits_loop mt_next bs (idx # idxs) g =
     (let mix = push_bit 32 (ucast (bs ! idx) :: u64) XOR of_nat idx;
          content_bit = (ucast (StableHash64 mix AND 1) :: u8);
          (r, g') = mt_next g;
          state_bit = (ucast (r AND 1) :: u8)
      in ((content_bit XOR state_bit) AND 1) # image_bits_loop mt_next bs idxs g')"

definition ImageComputeCombinedBits ::
  "'g seeder \<Rightarrow> 'g uniform \<Rightarrow> ImagePayload \<Rightarrow> nat \<Rightarrow> u64 \<Rightarrow> u64 \<Rightarrow> error + u8 list" where
  "ImageComputeCombinedBits mt_seed mt_next p skip_bits seed khash =
     (let total_pixels = unat (height p * width p * channels p) in
      if total_pixels \<le> skip_bits then Inr []
      else if length (bytes p) < total_pixels then Inl UndefinedBehaviour
      else Inr (image_bits_loop mt_next (bytes p) [skip_bits..<total_pixels]
                  (mt_seed (seed XOR khash))))"

text \<open>
  \<open>InjectMetadata\<close>: the slots are visited in increasing order, so the early \<open>return\<close> at
  the first slot past the buffer skips exactly the slots that are past the buffer.
\<close>

definition InjectMetadata :: "ImagePayload \<Rightarrow> Metadata \<Rightarrow> ImagePayload" where
  "InjectMetadata p meta =
     (let bits = bytes_to_bits (PackMetadata meta) in
      p\<lparr>bytes :=
          fold (\<lambda>slot bs.
                  if slot \<ge> length bs then bs
                  else bs[slot := (bs ! slot AND 0xFE) OR bits ! (slot div kMetadataRepeat)])
            [0..<kMetadataBits * kMetadataRepeat] (bytes p)\<rparr>)"

definition ImageEmbed ::
  "'g seeder \<Rightarrow> 'g uniform \<Rightarrow> ImagePayload \<Rightarrow> u8 list \<Rightarrow> u64 \<Rightarrow> error + ImageEmbedResult" where
  "ImageEmbed mt_seed mt_next p key seed =
     (if bytes p = [] \<or> width p * height p * channels p = 0 then Inl InvalidArgument
      else
        let total_pixels = height p * width p * channels p;
            metadata_bits = kMetadataPayloadBits
        in if total_pixels \<le> of_nat metadata_bits then Inl InvalidArgument
           else
             let n_fingerprint = unat total_pixels - metadata_bits;
                 meta = \<lparr>version = 1, state_seed = seed, key_hash = StableHash key,
                         fingerprint_length = of_nat n_fingerprint\<rparr>
             in case ImageComputeCombinedBits mt_seed mt_next p metadata_bits seed (key_hash meta) of
                  Inl e \<Rightarrow> Inl e
                | Inr fbits \<Rightarrow>
                    let watermarked = InjectMetadata p meta;
                        marked =
                          fold (\<lambda>i bs. bs[i + metadata_bits :=
                                   (bs ! (i + metadata_bits) AND 0xFE) OR fbits ! i])
                            [0..<n_fingerprint] (bytes watermarked)
                    in Inr \<lparr>payload = watermarked\<lparr>bytes := marked\<rparr>, metadata = meta,
                            fingerprint_bits = fbits\<rparr>)"

definition ExtractMetadata :: "ImagePayload \<Rightarrow> Metadata \<times> bool" where
  "ExtractMetadata p =
     (let metadata_bits = kMetadataPayloadBits in
      if length (bytes p) < metadata_bits then (Metadata_default, False)
      else
        let bits = map (\<lambda>i. bytes p ! i AND 1) [0..<metadata_bits];
            majority_bits =
              map (\<lambda>bit.
                     let ones = fold (\<lambda>rep ones.
                                  let slot = bit * kMetadataRepeat + rep
                                  in if slot < length bits then ones + unat (bits ! slot AND 1)
                                     else ones)
                                [0..<kMetadataRepeat] 0
                     in if ones > kMetadataRepeat div 2 then 1 else 0)
                [0..<kMetadataBits]
        in case UnpackMetadata (bits_to_bytes majority_bits) of
             Some meta \<Rightarrow> (meta, True)
           | None \<Rightarrow> (Metadata_default, False))"

definition ImageDetect :: "'g seeder \<Rightarrow> 'g uniform \<Rightarrow> ImagePayload \<Rightarrow> error + DetectionResult" where
  "ImageDetect mt_seed mt_next p =
     (if bytes p = [] \<or> width p * height p * channels p = 0 then
        Inr (DetectionResult_default\<lparr>metadata_valid := False\<rparr>)
      else
        case ExtractMetadata p of
          (meta, ok) \<Rightarrow>
            if \<not> ok \<or> version meta \<noteq> 1 then
              Inr (DetectionResult_default\<lparr>metadata_valid := False,
                                           false_positive_rate := DConst 1\<rparr>)
            else
              let total_pixels = height p * width p * channels p;
                  metadata_bits = kMetadataPayloadBits
              in if total_pixels \<le> of_nat metadata_bits
                    \<or> (ucast (fingerprint_length meta) :: u64) > total_pixels - of_nat metadata_bits
                 then Inr (DetectionResult_default\<lparr>metadata_valid := True,
                                                   false_positive_rate := DConst 1\<rparr>)
                 else
                   case ImageComputeCombinedBits mt_seed mt_next p metadata_bits
                          (state_seed meta) (key_hash meta) of
                     Inl e \<Rightarrow> Inl e
                   | Inr expected \<Rightarrow>
                       let extracted = map (\<lambda>i. bytes p ! (i + metadata_bits) AND 1)
                                         [0..<unat (fingerprint_length meta)]
                       in Inr (score_bits extracted expected))"

subsection \<open>FTMA coordinator (src/ftma/core/protocol.cpp)\<close>

text \<open>
  A \<open>std::unordered_map\<close> is a partial map. The metrics are \<open>double\<close>s of an abstract
  type \<open>'d\<close>; the conversion \<open>static_cast<int64_t>(std::round(value * scale))\<close> is the
  parameter \<open>quantize\<close>, which returns the \<open>int64_t\<close> as a 64-bit word. Sizes and client
  ids (\<open>std::size_t\<close>) are natural numbers.
\<close>

record 'd ClientState =
  registered :: bool
  masked_payload :: "u64 list"
  personal_mask :: "u64 list"
  incoming_shares :: "nat \<rightharpoonup> u64 list"
  pairwise_seeds :: "nat \<rightharpoonup> u64"
  original_metrics :: "'d list"

definition ClientState_default :: "'d ClientState" where
  "ClientState_default =
     \<lparr>registered = False, masked_payload = [], personal_mask = [],
      incoming_shares = Map.empty, pairwise_seeds = Map.empty, original_metrics = []\<rparr>"

text \<open>
  A member \<open>x_\<close> of the class is the field \<open>m_x\<close>. The member \<open>shamir_\<close> holds copies
  of the threshold and the number of clients, which are used in its place.
\<close>

record ('d, 'g) FtmaCoordinator =
  m_num_clients :: nat
  m_threshold :: nat
  m_metric_dimension :: nat
  m_vector_dimension :: nat
  m_scale :: u64
  m_prng :: 'g
  m_clients :: "'d ClientState list"

record AggregationResult =
  result_sum :: "dexpr list"
  result_mean :: "dexpr list"
  result_variance :: "dexpr list"
  participants :: nat
  survivors :: nat
  threshold :: nat

definition MixSeed :: "u64 \<Rightarrow> u64 \<Rightarrow> u64 \<Rightarrow> u64" where
  "MixSeed a0 b0 c =
     (let (a, b) = (if a0 > b0 then (b0, a0) else (a0, b0));
          seed1 = a XOR (b + 0x9e3779b97f4a7c15 + push_bit 6 a + drop_bit 2 a);
          seed2 = seed1 XOR (c + 0x9e3779b97f4a7c15 + push_bit 6 seed1 + drop_bit 2 seed1)
      in seed2)"

text \<open>
  The constructor; \<open>g\<close> is the generator \<open>std::mt19937_64(std::random_device{}())\<close>.
\<close>

definition FtmaCoordinator_new ::
  "nat \<Rightarrow> nat \<Rightarrow> nat \<Rightarrow> u64 \<Rightarrow> 'g \<Rightarrow> error + ('d, 'g) FtmaCoordinator" where
  "FtmaCoordinator_new num_clients thresh metric_dimension scale g =
     (if thresh = 0 \<or> thresh > num_clients then Inl InvalidArgument
      else if metric_dimension = 0 then Inl InvalidArgument
      else if scale = 0 then Inl InvalidArgument
      else Inr \<lparr>m_num_clients = num_clients, m_threshold = thresh,
                m_metric_dimension = metric_dimension, m_vector_dimension = metric_dimension * 2,
                m_scale = scale, m_prng = g,
                m_clients = replicate num_clients ClientState_default\<rparr>)"

definition GeneratePersonalMask :: "'g uniform \<Rightarrow> ('d, 'g) FtmaCoordinator \<Rightarrow> u64 list \<times> 'g" where
  "GeneratePersonalMask draw c = draws draw (m_vector_dimension c) (m_prng c)"

definition GeneratePairwiseMask ::
  "'g seeder \<Rightarrow> 'g uniform \<Rightarrow> ('d, 'g) FtmaCoordinator \<Rightarrow> u64 \<Rightarrow> u64 list" where
  "GeneratePairwiseMask mt_seed draw c seed = fst (draws draw (m_vector_dimension c) (mt_seed seed))"

text \<open>
  The square of the scaled value in \<open>__int128\<close> (no overflow: the factors are \<open>int64_t\<close>),
  reduced with C++'s truncating \<open>%\<close> and made non-negative.
\<close>

definition square_mod :: "u64 \<Rightarrow> u64" where
  "square_mod scaled_int =
     (let square_int = (sint scaled_int * sint scaled_int) smod uint kModulus
      in word_of_int (if square_int < 0 then square_int + uint kModulus else square_int))"

definition scale_metrics :: "('d \<Rightarrow> u64 \<Rightarrow> u64) \<Rightarrow> ('d, 'g) FtmaCoordinator \<Rightarrow> 'd list \<Rightarrow> u64 list" where
  "scale_metrics quantize c metrics =
     map (\<lambda>i. FromSigned (quantize (metrics ! i) (m_scale c))) [0..<m_metric_dimension c]
     @ map (\<lambda>i. square_mod (quantize (metrics ! i) (m_scale c))) [0..<m_metric_dimension c]"

text \<open>
  A loop \<open>for i < m_vector_dimension: acc[i] = f(acc[i], v[i])\<close>; reading past the end of
  either vector is undefined behaviour.
\<close>

definition vec_op :: "(u64 \<Rightarrow> u64 \<Rightarrow> u64) \<Rightarrow> nat \<Rightarrow> u64 list \<Rightarrow> u64 list \<Rightarrow> error + u64 list" where
  "vec_op f n acc v =
     (if length acc < n \<or> length v < n then Inl UndefinedBehaviour
      else Inr (map (\<lambda>i. f (acc ! i) (v ! i)) [0..<n] @ drop n acc))"

definition ebind :: "error + 'a \<Rightarrow> ('a \<Rightarrow> error + 'b) \<Rightarrow> error + 'b" where
  "ebind m f = (case m of Inl e \<Rightarrow> Inl e | Inr x \<Rightarrow> f x)"

fun efold :: "('a \<Rightarrow> 's \<Rightarrow> error + 's) \<Rightarrow> 'a list \<Rightarrow> 's \<Rightarrow> error + 's" where
  "efold f [] s = Inr s"
| "efold f (x # xs) s = ebind (f x s) (efold f xs)"

text \<open>
  One iteration of the loop over \<open>other\<close> in \<open>BuildPayload\<close>, on the pair (payload,
  pairwise seeds of the registering client).
\<close>

definition pairwise_step ::
  "'g seeder \<Rightarrow> 'g uniform \<Rightarrow> ('d, 'g) FtmaCoordinator \<Rightarrow> nat \<Rightarrow> nat
    \<Rightarrow> u64 list \<times> (nat \<rightharpoonup> u64) \<Rightarrow> error + (u64 list \<times> (nat \<rightharpoonup> u64))" where
  "pairwise_step mt_seed draw c client_id other st =
     (if other = client_id then Inr st
      else
        let seed = MixSeed (of_nat (client_id + 1)) (of_nat (other + 1)) (m_scale c);
            mask = GeneratePairwiseMask mt_seed draw c seed
        in ebind (vec_op (if client_id < other then Add else Sub) (m_vector_dimension c) (fst st) mask)
             (\<lambda>pl. Inr (pl, (snd st)(other \<mapsto> seed))))"

text \<open>
  \<open>BuildPayload\<close> writes the personal mask and the pairwise seeds of the registering
  client through references into \<open>m_clients\<close>, stores one share with every other client and
  advances \<open>m_prng\<close>: it returns the payload and the updated coordinator.
\<close>

definition BuildPayload ::
  "'g seeder \<Rightarrow> 'g uniform \<Rightarrow> ('d \<Rightarrow> u64 \<Rightarrow> u64) \<Rightarrow> ('d, 'g) FtmaCoordinator \<Rightarrow> 'd list \<Rightarrow> nat
    \<Rightarrow> error + (u64 list \<times> ('d, 'g) FtmaCoordinator)" where
  "BuildPayload mt_seed draw quantize c metrics client_id =
     (if length metrics \<noteq> m_metric_dimension c then Inl InvalidArgument
      else if m_vector_dimension c < m_metric_dimension c + m_metric_dimension c
      then Inl UndefinedBehaviour
      else
        let scaled = scale_metrics quantize c metrics
                       @ replicate (m_vector_dimension c - 2 * m_metric_dimension c) 0;
            (pmask, g1) = GeneratePersonalMask draw c
        in ebind (ShareVector draw (m_threshold c) (m_num_clients c) pmask g1)
             (\<lambda>(mask_shares, g2).
                let cl = map (\<lambda>recipient.
                           if recipient = client_id
                           then (m_clients c ! recipient)\<lparr>personal_mask := pmask\<rparr>
                           else (m_clients c ! recipient)\<lparr>incoming_shares :=
                                  (incoming_shares (m_clients c ! recipient))
                                    (client_id \<mapsto> mask_shares ! recipient)\<rparr>)
                         [0..<m_num_clients c]
                in ebind (vec_op Add (m_vector_dimension c) scaled pmask)
                     (\<lambda>pl0.
                        ebind (efold (pairwise_step mt_seed draw c client_id) [0..<m_num_clients c]
                                 (pl0, pairwise_seeds (cl ! client_id)))
                          (\<lambda>(pl, seeds).
                             Inr (pl, c\<lparr>m_prng := g2,
                                       m_clients := cl[client_id :=
                                         (cl ! client_id)\<lparr>pairwise_seeds := seeds\<rparr>]\<rparr>)))))"

text \<open>
  The class keeps \<open>m_clients.size() = m_num_clients\<close>; a coordinator value that breaks this
  has no counterpart in the source and is answered with \<open>UndefinedBehaviour\<close>.
\<close>

definition RegisterClient ::
  "'g seeder \<Rightarrow> 'g uniform \<Rightarrow> ('d \<Rightarrow> u64 \<Rightarrow> u64) \<Rightarrow> ('d, 'g) FtmaCoordinator \<Rightarrow> nat \<Rightarrow> 'd list
    \<Rightarrow> error + (u64 list \<times> ('d, 'g) FtmaCoordinator)" where
  "RegisterClient mt_seed draw quantize c client_id metrics =
     (if length (m_clients c) \<noteq> m_num_clients c then Inl UndefinedBehaviour
      else if client_id \<ge> m_num_clients c then Inl OutOfRange
      else if registered (m_clients c ! client_id) then Inl RuntimeError
      else
        let c1 = c\<lparr>m_clients := (m_clients c)[client_id :=
                     (m_clients c ! client_id)\<lparr>original_metrics := metrics\<rparr>]\<rparr>
        in ebind (BuildPayload mt_seed draw quantize c1 metrics client_id)
             (\<lambda>(pl, c2).
                Inr (pl, c2\<lparr>m_clients := (m_clients c2)[client_id :=
                               (m_clients c2 ! client_id)\<lparr>masked_payload := pl,
                                                          registered := True\<rparr>]\<rparr>)))"

text \<open>The shares of \<open>dropout\<close>'s mask held by the active clients, with their coordinates.\<close>

definition collect_shares ::
  "('d, 'g) FtmaCoordinator \<Rightarrow> nat list \<Rightarrow> nat \<Rightarrow> u64 list list \<times> u64 list" where
  "collect_shares c active_clients dropout =
     fold (\<lambda>id (collected, coords).
             case incoming_shares (m_clients c ! id) dropout of
               None \<Rightarrow> (collected, coords)
             | Some share \<Rightarrow> (collected @ [share], coords @ [of_nat (id + 1)]))
       active_clients ([], [])"

definition dropout_step ::
  "('d, 'g) FtmaCoordinator \<Rightarrow> nat list \<Rightarrow> bool list \<Rightarrow> nat \<Rightarrow> u64 list \<Rightarrow> error + u64 list" where
  "dropout_step c active_clients is_active dropout aggregate =
     (if is_active ! dropout \<or> \<not> registered (m_clients c ! dropout) then Inr aggregate
      else
        let (collected, coords) = collect_shares c active_clients dropout
        in if length collected < m_threshold c then Inl RuntimeError
           else ebind (Reconstruct (m_threshold c) (take (m_threshold c) coords)
                         (take (m_threshold c) collected))
                  (\<lambda>mask. vec_op Sub (m_vector_dimension c) aggregate mask))"

definition missing_step ::
  "'g seeder \<Rightarrow> 'g uniform \<Rightarrow> ('d, 'g) FtmaCoordinator \<Rightarrow> nat list \<Rightarrow> bool list \<Rightarrow> nat
    \<Rightarrow> u64 list \<Rightarrow> error + u64 list" where
  "missing_step mt_seed draw c active_clients is_active missing aggregate =
     (if registered (m_clients c ! missing) \<or> is_active ! missing then Inr aggregate
      else
        efold (\<lambda>id agg.
                 case pairwise_seeds (m_clients c ! id) missing of
                   None \<Rightarrow> Inr agg
                 | Some seed \<Rightarrow>
                     vec_op (if id < missing then Sub else Add) (m_vector_dimension c) agg
                       (GeneratePairwiseMask mt_seed draw c seed))
          active_clients aggregate)"

definition decode_result ::
  "('d, 'g) FtmaCoordinator \<Rightarrow> nat \<Rightarrow> nat \<Rightarrow> u64 list \<Rightarrow> error + AggregationResult" where
  "decode_result c n_participants n_survivors aggregate =
     (if length aggregate < m_metric_dimension c + m_metric_dimension c \<and> 0 < m_metric_dimension c
      then Inl UndefinedBehaviour
      else
        let sum_value = (\<lambda>i. DDiv (DOfInt (sint (ToSigned (aggregate ! i))))
                                  (DOfInt (uint (m_scale c))));
            sumsq_value = (\<lambda>i. DDiv (DOfInt (sint (ToSigned (aggregate ! (i + m_metric_dimension c)))))
                                    (DMul (DOfInt (uint (m_scale c))) (DOfInt (uint (m_scale c)))));
            mean = (\<lambda>i. DDiv (sum_value i) (DOfInt (int n_participants)))
        in Inr \<lparr>result_sum = map sum_value [0..<m_metric_dimension c],
                result_mean = map mean [0..<m_metric_dimension c],
                result_variance =
                  map (\<lambda>i. DMax (DConst 0)
                             (DSub (DDiv (sumsq_value i) (DOfInt (int n_participants)))
                                   (DMul (mean i) (mean i))))
                    [0..<m_metric_dimension c],
                participants = n_participants, survivors = n_survivors,
                threshold = m_threshold c\<rparr>)"

definition Finalize ::
  "'g seeder \<Rightarrow> 'g uniform \<Rightarrow> ('d, 'g) FtmaCoordinator \<Rightarrow> nat list \<Rightarrow> error + AggregationResult" where
  "Finalize mt_seed draw c active_clients =
     (if length (m_clients c) \<noteq> m_num_clients c then Inl UndefinedBehaviour
      else if length active_clients < m_threshold c then Inl RuntimeError
      else if \<exists>id\<in>set active_clients. id \<ge> m_num_clients c \<or> \<not> registered (m_clients c ! id)
      then Inl RuntimeError
      else
        let ids = [0..<m_num_clients c];
            n_participants = length (filter (\<lambda>id. registered (m_clients c ! id)) ids);
            is_active = map (\<lambda>id. id \<in> set active_clients) ids
        in ebind (efold (\<lambda>id agg. if \<not> registered (m_clients c ! id) then Inr agg
                                   else vec_op Add (m_vector_dimension c) agg
                                          (masked_payload (m_clients c ! id)))
                    ids (replicate (m_vector_dimension c) 0))
          (\<lambda>agg1. ebind (efold (\<lambda>id agg. vec_op Sub (m_vector_dimension c) agg
                                           (personal_mask (m_clients c ! id)))
                            active_clients agg1)
          (\<lambda>agg2. ebind (efold (dropout_step c active_clients is_active) ids agg2)
          (\<lambda>agg3. ebind (efold (missing_step mt_seed draw c active_clients is_active) ids agg3)
          (\<lambda>agg4. if n_participants = 0 then Inl RuntimeError
                   else decode_result c n_participants (length active_clients) agg4)))))"

definition trial_prime :: "nat \<Rightarrow> bool" where
  "trial_prime q \<longleftrightarrow> 1 < q \<and> q < 1369 \<and> (\<forall>d\<in>set [2..<37]. d < q \<longrightarrow> \<not> d dvd q)"

definition PM :: nat where "PM = 2305843009213693951"

primrec powm :: "int \<Rightarrow> num \<Rightarrow> int \<Rightarrow> int" where
  "powm b Num.One m = b mod m"
| "powm b (Num.Bit0 w) m = (let r = powm b w m in r * r mod m)"
| "powm b (Num.Bit1 w) m = (let r = powm b w m in (r * r mod m) * b mod m)"

definition pmodi :: "int \<Rightarrow> nat \<Rightarrow> int \<Rightarrow> int" where
  "pmodi b e m = b ^ e mod m"

definition gpow :: "nat \<Rightarrow> nat" where
  "gpow k = 37 ^ k mod PM"

definition small_primes :: "nat list" where
  "small_primes = [2, 3, 5, 7, 11, 13, 31, 41, 61, 151, 331, 1321]"

type_synonym fp = "2305843009213693951"

definition fp_of :: "u64 \<Rightarrow> fp" where "fp_of w = of_nat (unat w)"

fun peval :: "fp list \<Rightarrow> fp \<Rightarrow> fp" where
  "peval [] z = 0"
| "peval (c # cs) z = c + z * peval cs z"

definition is_poly :: "nat \<Rightarrow> (fp \<Rightarrow> fp) \<Rightarrow> bool" where
  "is_poly n f \<longleftrightarrow> (\<exists>cs. length cs \<le> n \<and> (\<forall>z. peval cs z = f z))"

text \<open>Lagrange interpolation over the field: the basis polynomial of node i.\<close>

definition lbasis :: "(nat \<Rightarrow> fp) \<Rightarrow> (nat \<Rightarrow> fp) \<Rightarrow> nat \<Rightarrow> nat \<Rightarrow> fp \<Rightarrow> fp" where
  "lbasis X d n i z = (\<Prod>j\<in>{0..<n} - {i}. (z - X j)) * d i"

definition lag_num :: "(nat \<Rightarrow> fp) \<Rightarrow> nat \<Rightarrow> nat \<Rightarrow> fp" where
  "lag_num X m i = (\<Prod>j\<in>{0..<m} - {i}. (0 - X j))"

definition lag_den :: "(nat \<Rightarrow> fp) \<Rightarrow> nat \<Rightarrow> nat \<Rightarrow> fp" where
  "lag_den X m i = (\<Prod>j\<in>{0..<m} - {i}. (X i - X j))"

definition lag_inv :: "u64 list \<Rightarrow> nat \<Rightarrow> nat \<Rightarrow> fp" where
  "lag_inv xs n i = fp_of (Inverse (snd (fold (lagrange_step xs i) [0..<n] (1, 1))))"

definition is_bit :: "u8 \<Rightarrow> bool" where
  "is_bit v \<longleftrightarrow> v AND 1 = v"

definition meta_bits :: "Metadata \<Rightarrow> u8 list" where
  "meta_bits m = bytes_to_bits (PackMetadata m)"

definition embed_meta :: "u8 list \<Rightarrow> u64 \<Rightarrow> ImagePayload \<Rightarrow> Metadata" where
  "embed_meta key seed p =
     \<lparr>version = 1, state_seed = seed, key_hash = StableHash key,
      fingerprint_length = of_nat (unat (height p * width p * channels p) - 768)\<rparr>"

definition embed_fbits :: "'g seeder \<Rightarrow> 'g uniform \<Rightarrow> u8 list \<Rightarrow> u64 \<Rightarrow> ImagePayload \<Rightarrow> u8 list" where
  "embed_fbits mt_seed mt_next key seed p =
     image_bits_loop mt_next (bytes p) [768..<unat (height p * width p * channels p)]
       (mt_seed (seed XOR StableHash key))"

definition pack_range :: "u8 list \<Rightarrow> nat \<Rightarrow> nat \<Rightarrow> u8" where
  "pack_range bits lo hi = fold (\<lambda>i acc. push_bit 1 acc OR (bits ! i AND 1)) [lo..<hi] 0"

definition majority_of :: "(nat \<Rightarrow> u8) \<Rightarrow> nat \<Rightarrow> u8" where
  "majority_of B b = (if unat (B (4 * b)) + unat (B (4 * b + 1)) + unat (B (4 * b + 2))
                          + unat (B (4 * b + 3)) > 2 then 1 else 0)"

text \<open>Flipping the least significant bit of sample \<open>k\<close> of an image.\<close>

definition flip_lsb :: "ImagePayload \<Rightarrow> nat \<Rightarrow> ImagePayload" where
  "flip_lsb q k = q\<lparr>bytes := (bytes q)[k := bytes q ! k XOR 1]\<rparr>"

text \<open>
  Concrete inputs for the closed theorems: a stand-in generator (the identity as seeding,
  a counter as state), an all-zero image of 769 samples, and the 768 header samples whose
  least significant bits spell the default metadata (version 1, everything else 0) four
  times over, once with the shape 1 x 1 x 1 and once with the shape 0 x 0 x 1.
\<close>

definition seed_id :: "u64 seeder" where
  "seed_id s = s"

definition next_counter :: "u64 uniform" where
  "next_counter g = (g, g + 1)"

definition zero_image :: ImagePayload where
  "zero_image = \<lparr>bytes = replicate 769 0, height = 1, width = 769, channels = 1\<rparr>"

definition header_bytes :: "u8 list" where
  "header_bytes = replicate 124 0 @ replicate 4 1 @ replicate 640 0"

definition header_image_1x1 :: ImagePayload where
  "header_image_1x1 = \<lparr>bytes = header_bytes, height = 1, width = 1, channels = 1\<rparr>"

definition header_image_0x0 :: ImagePayload where
  "header_image_0x0 = \<lparr>bytes = header_bytes, height = 0, width = 0, channels = 1\<rparr>"

text \<open>The code point that the sentinel test of \<open>DecodeZeroWidthBits\<close> looks at.\<close>

definition first_cp :: "u8 list \<Rightarrow> u32" where
  "first_cp bs = fst (case decode_cp bs of None \<Rightarrow> (0, 0) | Some r \<Rightarrow> r)"

text \<open>
  The content bit of sample \<open>idx\<close> with value \<open>b\<close>, as the loop of the image
  \<open>ComputeCombinedBits\<close> computes it.
\<close>

definition content_bit :: "u8 \<Rightarrow> nat \<Rightarrow> u8" where
  "content_bit b idx = ucast (StableHash64 (push_bit 32 (ucast b :: u64) XOR of_nat idx) AND 1)"

text \<open>An image of 769 samples: 768 zero header samples and one fingerprint sample \<open>b\<close>.\<close>

definition one_sample_image :: "u8 \<Rightarrow> ImagePayload" where
  "one_sample_image b = \<lparr>bytes = replicate 768 0 @ [b], height = 1, width = 769, channels = 1\<rparr>"

text \<open>
  The pairwise mask of the clients \<open>i\<close> and \<open>j\<close>, and the sign with which client \<open>i\<close>
  applies it.
\<close>

definition pair_mask :: "'g seeder \<Rightarrow> 'g uniform \<Rightarrow> nat \<Rightarrow> u64 \<Rightarrow> nat \<Rightarrow> nat \<Rightarrow> u64 list" where
  "pair_mask mt_seed draw vd scale i j =
     fst (draws draw vd (mt_seed (MixSeed (of_nat (i + 1)) (of_nat (j + 1)) scale)))"

definition sg :: "nat \<Rightarrow> nat \<Rightarrow> fp" where
  "sg i j = (if i < j then 1 else - 1)"

text \<open>The vector of scaled values and scaled squares that \<open>BuildPayload\<close> starts from.\<close>

definition scaled_vec :: "('d \<Rightarrow> u64 \<Rightarrow> u64) \<Rightarrow> nat \<Rightarrow> u64 \<Rightarrow> 'd list \<Rightarrow> u64 list" where
  "scaled_vec quantize md scale metrics =
     map (\<lambda>i. FromSigned (quantize (metrics ! i) scale)) [0..<md]
     @ map (\<lambda>i. square_mod (quantize (metrics ! i) scale)) [0..<md]"

text \<open>The parameters of a coordinator and the class invariant on \<open>clients_\<close>.\<close>

definition coord_ok :: "('d, 'g) FtmaCoordinator \<Rightarrow> nat \<Rightarrow> nat \<Rightarrow> nat \<Rightarrow> u64 \<Rightarrow> bool" where
  "coord_ok c N t D scale \<longleftrightarrow>
     m_num_clients c = N \<and> m_threshold c = t \<and> m_metric_dimension c = D
     \<and> m_vector_dimension c = 2 * D \<and> m_scale c = scale \<and> length (m_clients c) = N
     \<and> 1 \<le> t \<and> t \<le> N"

text \<open>A sequence of \<open>RegisterClient\<close> calls, the returned payloads being discarded.\<close>

definition register_clients ::
  "'g seeder \<Rightarrow> 'g uniform \<Rightarrow> ('d \<Rightarrow> u64 \<Rightarrow> u64) \<Rightarrow> ('d, 'g) FtmaCoordinator
    \<Rightarrow> (nat \<times> 'd list) list \<Rightarrow> error + ('d, 'g) FtmaCoordinator" where
  "register_clients mt_seed draw quantize c regs =
     efold (\<lambda>(ident, metrics) c'.
              ebind (RegisterClient mt_seed draw quantize c' ident metrics) (\<lambda>(pl, c''). Inr c''))
       regs c"

text \<open>
  What holds of the coordinator once the clients in \<open>R\<close> have registered with the metrics
  \<open>ms\<close>: the payload of each of them, in the field, and the shares of its personal mask.
\<close>

definition reg_inv ::
  "'g seeder \<Rightarrow> 'g uniform \<Rightarrow> ('d \<Rightarrow> u64 \<Rightarrow> u64) \<Rightarrow> nat \<Rightarrow> nat \<Rightarrow> nat \<Rightarrow> u64 \<Rightarrow> (nat \<Rightarrow> 'd list)
    \<Rightarrow> ('d, 'g) FtmaCoordinator \<Rightarrow> nat set \<Rightarrow> bool" where
  "reg_inv mt_seed draw quantize N t D scale ms c R \<longleftrightarrow>
     coord_ok c N t D scale
     \<and> (\<forall>h<N. registered (m_clients c ! h) \<longleftrightarrow> h \<in> R)
     \<and> (\<forall>i\<in>R. i < N
           \<and> length (masked_payload (m_clients c ! i)) = 2 * D
           \<and> (\<forall>k<2 * D. fp_of (masked_payload (m_clients c ! i) ! k)
                 = fp_of (scaled_vec quantize D scale (ms i) ! k)
                   + fp_of (personal_mask (m_clients c ! i) ! k)
                   + (\<Sum>other\<leftarrow>[0..<N]. if other = i then 0
                        else sg i other * fp_of (pair_mask mt_seed draw (2 * D) scale i other ! k)))
           \<and> (\<exists>g0. personal_mask (m_clients c ! i) = fst (draws draw (2 * D) g0))
           \<and> (\<exists>shares g g'. ShareVector draw t N (personal_mask (m_clients c ! i)) g = Inr (shares, g')
                 \<and> (\<forall>h<N. h \<noteq> i \<longrightarrow> incoming_shares (m_clients c ! h) i = Some (shares ! h))))"

text \<open>
  Stand-ins for the closed theorems: a distribution that returns the low byte of a counter,
  and the conversion of integral metrics (for an integral \<open>double\<close> \<open>v\<close> the source computes
  \<open>round(v * scale) = v * scale\<close>).
\<close>

definition small_draw :: "u64 uniform" where
  "small_draw g = (g AND 0xFF, g + 1)"

definition quantize_int :: "int \<Rightarrow> u64 \<Rightarrow> u64" where
  "quantize_int v s = word_of_int v * s"

text \<open>
  A run of the coordinator with \<open>N = 3\<close>, \<open>t = 1\<close>, \<open>D = 1\<close>, \<open>scale = 1\<close>: the clients 0 and 1
  register with the metrics 5 and 6, client 2 never registers, and \<open>Finalize\<close> is called
  with the given active clients. The run reports whether client 1 and client 2 are
  registered, whether client 0 holds a share of client 1's mask, and the result of
  \<open>Finalize\<close>.
\<close>

definition dropout_scenario ::
  "nat list \<Rightarrow> error + (bool \<times> bool \<times> bool \<times> dexpr list \<times> nat \<times> nat)" where
  "dropout_scenario active_clients =
     ebind (FtmaCoordinator_new 3 1 1 1 (0::u64))
       (\<lambda>c0. ebind (register_clients seed_id small_draw quantize_int c0 [(0, [5]), (1, [6])])
       (\<lambda>c. ebind (Finalize seed_id small_draw c active_clients)
       (\<lambda>res. Inr (registered (m_clients c ! 1), registered (m_clients c ! 2),
                     incoming_shares (m_clients c ! 0) 1 \<noteq> None,
                     result_sum res, participants res, survivors res))))"

text \<open>The three bytes of a zero-width bit character.\<close>

definition zw_bit :: "u8 \<Rightarrow> u8 list" where
  "zw_bit b = [0xE2, 0x80, if b \<noteq> 0 then 0x8C else 0x8B]"

text \<open>
  The output of the embedding loop, written directly: the bytes of the cleaned text in
  order, with the bit character of token \<open>ti\<close> put after the last byte of the token.
  \<open>intok\<close> says that the current token is not empty.
\<close>

fun ins :: "u8 list \<Rightarrow> u8 list \<Rightarrow> bool \<Rightarrow> nat \<Rightarrow> u8 list" where
  "ins fb [] intok ti = (if intok \<and> ti < length fb then zw_bit (fb ! ti) else [])"
| "ins fb (c # cs) intok ti =
     (if isspace c then
        (if intok then (if ti < length fb then zw_bit (fb ! ti) else []) @ c # ins fb cs False (ti + 1)
         else c # ins fb cs False ti)
      else c # ins fb cs True ti)"

text \<open>The number of tokens that \<open>Tokenize\<close> finds, \<open>intok\<close> as above.\<close>

fun ntok :: "u8 list \<Rightarrow> bool \<Rightarrow> nat" where
  "ntok [] intok = (if intok then 1 else 0)"
| "ntok (c # cs) intok =
     (if isspace c then (if intok then 1 else 0) + ntok cs False else ntok cs True)"

text \<open>The four zero-width code points that \<open>StripZeroWidth\<close> removes.\<close>

definition is_zw :: "u32 \<Rightarrow> bool" where
  "is_zw cp \<longleftrightarrow> cp = kZeroWidthZero \<or> cp = kZeroWidthOne
                \<or> cp = kZeroWidthMetaStart \<or> cp = kZeroWidthMetaEnd"

text \<open>
  A payload that the lenient decoder of the file reads in complete characters: a byte that
  starts a two- or three-byte form (\<open>0xC0\<close> to \<open>0xEF\<close>) is followed by the one or two bytes
  the form takes, and none of these is a whitespace byte. Every well-formed UTF-8 string
  is of this kind (its continuation bytes are \<open>0x80\<close> to \<open>0xBF\<close>, and the decoder reads the
  bytes of a four-byte character one by one).
\<close>

function aligned :: "u8 list \<Rightarrow> bool" where
  "aligned [] = True"
| "aligned (first # rest) =
     (case decode_cp (first # rest) of
        None \<Rightarrow> first AND 0xE0 \<noteq> 0xC0 \<and> first AND 0xF0 \<noteq> 0xE0 \<and> aligned rest
      | Some (cp, consumed) \<Rightarrow>
          (\<forall>b\<in>set (take (consumed - 1) rest). \<not> isspace b)
          \<and> aligned (drop consumed (first # rest)))"
  by pat_completeness auto

termination
  by (relation "measure length") (auto split: if_splits)

text \<open>An aligned payload none of whose characters is one of the four zero-width ones.\<close>

function clean :: "u8 list \<Rightarrow> bool" where
  "clean [] = True"
| "clean (first # rest) =
     (case decode_cp (first # rest) of
        None \<Rightarrow> first AND 0xE0 \<noteq> 0xC0 \<and> first AND 0xF0 \<noteq> 0xE0 \<and> clean rest
      | Some (cp, consumed) \<Rightarrow>
          \<not> is_zw cp \<and> (\<forall>b\<in>set (take (consumed - 1) rest). \<not> isspace b)
          \<and> clean (drop consumed (first # rest)))"
  by pat_completeness auto

termination
  by (relation "measure length") (auto split: if_splits)

text \<open>
  Well-formed UTF-8 by shape: one byte below \<open>0x80\<close>, or a lead byte \<open>110xxxxx\<close>,
  \<open>1110xxxx\<close> or \<open>11110xxx\<close> followed by one, two or three continuation bytes \<open>10xxxxxx\<close>.
\<close>

definition utf8_cont :: "u8 \<Rightarrow> bool" where
  "utf8_cont c \<longleftrightarrow> c AND 0xC0 = 0x80"

fun utf8 :: "u8 list \<Rightarrow> bool" where
  "utf8 [] = True"
| "utf8 [b] = (b < 0x80)"
| "utf8 [b, c1] = (if b < 0x80 then utf8 [c1] else b AND 0xE0 = 0xC0 \<and> utf8_cont c1)"
| "utf8 [b, c1, c2] =
     (if b < 0x80 then utf8 [c1, c2]
      else if b AND 0xE0 = 0xC0 then utf8_cont c1 \<and> utf8 [c2]
      else b AND 0xF0 = 0xE0 \<and> utf8_cont c1 \<and> utf8_cont c2)"
| "utf8 (b # c1 # c2 # c3 # bs) =
     (if b < 0x80 then utf8 (c1 # c2 # c3 # bs)
      else if b AND 0xE0 = 0xC0 then utf8_cont c1 \<and> utf8 (c2 # c3 # bs)
      else if b AND 0xF0 = 0xE0 then utf8_cont c1 \<and> utf8_cont c2 \<and> utf8 (c3 # bs)
      else b AND 0xF8 = 0xF0 \<and> utf8_cont c1 \<and> utf8_cont c2 \<and> utf8_cont c3 \<and> utf8 bs)"

section \<open>Verification\<close>


lemma trial_prime_divisor:
  assumes "trial_prime q" "c dvd q"
  shows "c = 1 \<or> c = q"
proof (rule ccontr)
  assume neg: "\<not> (c = 1 \<or> c = q)"
  from assms(2) obtain k where k: "q = c * k" by (auto simp: dvd_def)
  have q: "1 < q" "q < 1369" using assms(1) by (auto simp: trial_prime_def)
  have "0 < c * k" using k q(1) by linarith
  then have c0: "c \<noteq> 0" "k \<noteq> 0" by simp_all
  have c2: "2 \<le> c" using neg c0 by auto
  have k2: "2 \<le> k" using neg k c0 by (cases "k = 1") auto
  define d where "d = min c k"
  have "d * d \<le> c * k" unfolding d_def by (simp add: min_def mult_le_mono)
  then have "d * d < 37 * 37" using k q by simp
  then have "d < 37" by (metis mult_le_mono not_less)
  moreover have "2 \<le> d" using c2 k2 by (simp add: d_def)
  ultimately have "d \<in> set [2..<37]" by (simp del: upt_rec_numeral)
  moreover have "d dvd q" using k by (auto simp: d_def min_def)
  moreover have "d < q" using k c2 k2 by (auto simp: d_def min_def)
  moreover have "\<forall>d\<in>set [2..<37]. d < q \<longrightarrow> \<not> d dvd q"
    using assms(1) unfolding trial_prime_def by blast
  ultimately show False by blast
qed

lemma trial_prime_coprime:
  assumes "trial_prime q" "\<not> q dvd m"
  shows "coprime q m"
proof (rule coprimeI)
  fix c assume c: "c dvd q" "c dvd m"
  then show "is_unit c" using trial_prime_divisor[OF assms(1) c(1)] assms(2) by auto
qed

lemma trial_primes: "\<forall>q\<in>set [2, 3, 5, 7, 11, 13, 31, 41, 61, 151, 331, 1321]. trial_prime q"
  by (simp add: trial_prime_def)

lemma powm_eq: "powm b w m = b ^ numeral w mod m"
proof (induction w)
  case One
  then show ?case by simp
next
  case (Bit0 w)
  have "b ^ numeral (Num.Bit0 w) = b ^ numeral w * b ^ numeral w"
    by (simp only: numeral.simps(2) power_add)
  then have "b ^ numeral (Num.Bit0 w) mod m = (b ^ numeral w mod m) * (b ^ numeral w mod m) mod m"
    by (simp only: mod_mult_eq)
  then show ?case by (simp only: powm.simps Let_def Bit0)
next
  case (Bit1 w)
  have "b ^ numeral (Num.Bit1 w) = (b ^ numeral w * b ^ numeral w) * b"
    by (simp only: numeral.simps(3) power_add power_one_right)
  then have "b ^ numeral (Num.Bit1 w) mod m = ((b ^ numeral w mod m) * (b ^ numeral w mod m) mod m) * b mod m"
    by (metis mod_mult_eq mod_mult_left_eq)
  then show ?case by (simp only: powm.simps Let_def Bit1)
qed

lemma pmodi_numeral: "pmodi b (numeral w) m = powm b w m"
  by (simp add: pmodi_def powm_eq)

lemma gpow_int: "int (gpow k) = pmodi 37 k (int PM)"
  by (simp add: gpow_def pmodi_def of_nat_mod)

lemma PM_int: "int PM = 2305843009213693951"
  by (simp add: PM_def)

lemma PM_gt_1: "1 < PM"
  by (simp add: PM_def)

lemma gpow_add: "gpow (a + b) = gpow a * gpow b mod PM"
  by (simp add: gpow_def power_add mod_mult_eq)

lemma gpow_mult: "gpow (a * b) = gpow a ^ b mod PM"
  by (simp add: gpow_def power_mult power_mod)

lemma gpow_less: "gpow k < PM"
  using PM_gt_1 by (simp add: gpow_def)

lemma gen_full: "pmodi 37 2305843009213693950 2305843009213693951 = 1"
  apply (simp only: pmodi_numeral)
  apply code_simp
  done

lemma gpow_full: "gpow (PM - 1) = 1"
proof -
  have e: "PM - 1 = 2305843009213693950" by (simp add: PM_def)
  have "int (gpow 2305843009213693950) = 1"
    unfolding gpow_int PM_int by (rule gen_full)
  then show ?thesis unfolding e by simp
qed

lemma gen_cofactor_2: "pmodi 37 1152921504606846975 2305843009213693951 \<noteq> 1"
  apply (simp only: pmodi_numeral)
  apply code_simp
  done

lemma gpow_cofactor_2: "gpow ((PM - 1) div 2) \<noteq> 1"
proof -
  have e: "(PM - 1) div 2 = 1152921504606846975" by (simp add: PM_def)
  have "int (gpow 1152921504606846975) \<noteq> 1"
    unfolding gpow_int PM_int by (rule gen_cofactor_2)
  then show ?thesis unfolding e by simp
qed

lemma gen_cofactor_3: "pmodi 37 768614336404564650 2305843009213693951 \<noteq> 1"
  apply (simp only: pmodi_numeral)
  apply code_simp
  done

lemma gpow_cofactor_3: "gpow ((PM - 1) div 3) \<noteq> 1"
proof -
  have e: "(PM - 1) div 3 = 768614336404564650" by (simp add: PM_def)
  have "int (gpow 768614336404564650) \<noteq> 1"
    unfolding gpow_int PM_int by (rule gen_cofactor_3)
  then show ?thesis unfolding e by simp
qed

lemma gen_cofactor_5: "pmodi 37 461168601842738790 2305843009213693951 \<noteq> 1"
  apply (simp only: pmodi_numeral)
  apply code_simp
  done

lemma gpow_cofactor_5: "gpow ((PM - 1) div 5) \<noteq> 1"
proof -
  have e: "(PM - 1) div 5 = 461168601842738790" by (simp add: PM_def)
  have "int (gpow 461168601842738790) \<noteq> 1"
    unfolding gpow_int PM_int by (rule gen_cofactor_5)
  then show ?thesis unfolding e by simp
qed

lemma gen_cofactor_7: "pmodi 37 329406144173384850 2305843009213693951 \<noteq> 1"
  apply (simp only: pmodi_numeral)
  apply code_simp
  done

lemma gpow_cofactor_7: "gpow ((PM - 1) div 7) \<noteq> 1"
proof -
  have e: "(PM - 1) div 7 = 329406144173384850" by (simp add: PM_def)
  have "int (gpow 329406144173384850) \<noteq> 1"
    unfolding gpow_int PM_int by (rule gen_cofactor_7)
  then show ?thesis unfolding e by simp
qed

lemma gen_cofactor_11: "pmodi 37 209622091746699450 2305843009213693951 \<noteq> 1"
  apply (simp only: pmodi_numeral)
  apply code_simp
  done

lemma gpow_cofactor_11: "gpow ((PM - 1) div 11) \<noteq> 1"
proof -
  have e: "(PM - 1) div 11 = 209622091746699450" by (simp add: PM_def)
  have "int (gpow 209622091746699450) \<noteq> 1"
    unfolding gpow_int PM_int by (rule gen_cofactor_11)
  then show ?thesis unfolding e by simp
qed

lemma gen_cofactor_13: "pmodi 37 177372539170284150 2305843009213693951 \<noteq> 1"
  apply (simp only: pmodi_numeral)
  apply code_simp
  done

lemma gpow_cofactor_13: "gpow ((PM - 1) div 13) \<noteq> 1"
proof -
  have e: "(PM - 1) div 13 = 177372539170284150" by (simp add: PM_def)
  have "int (gpow 177372539170284150) \<noteq> 1"
    unfolding gpow_int PM_int by (rule gen_cofactor_13)
  then show ?thesis unfolding e by simp
qed

lemma gen_cofactor_31: "pmodi 37 74382032555280450 2305843009213693951 \<noteq> 1"
  apply (simp only: pmodi_numeral)
  apply code_simp
  done

lemma gpow_cofactor_31: "gpow ((PM - 1) div 31) \<noteq> 1"
proof -
  have e: "(PM - 1) div 31 = 74382032555280450" by (simp add: PM_def)
  have "int (gpow 74382032555280450) \<noteq> 1"
    unfolding gpow_int PM_int by (rule gen_cofactor_31)
  then show ?thesis unfolding e by simp
qed

lemma gen_cofactor_41: "pmodi 37 56240073395455950 2305843009213693951 \<noteq> 1"
  apply (simp only: pmodi_numeral)
  apply code_simp
  done

lemma gpow_cofactor_41: "gpow ((PM - 1) div 41) \<noteq> 1"
proof -
  have e: "(PM - 1) div 41 = 56240073395455950" by (simp add: PM_def)
  have "int (gpow 56240073395455950) \<noteq> 1"
    unfolding gpow_int PM_int by (rule gen_cofactor_41)
  then show ?thesis unfolding e by simp
qed

lemma gen_cofactor_61: "pmodi 37 37800705069076950 2305843009213693951 \<noteq> 1"
  apply (simp only: pmodi_numeral)
  apply code_simp
  done

lemma gpow_cofactor_61: "gpow ((PM - 1) div 61) \<noteq> 1"
proof -
  have e: "(PM - 1) div 61 = 37800705069076950" by (simp add: PM_def)
  have "int (gpow 37800705069076950) \<noteq> 1"
    unfolding gpow_int PM_int by (rule gen_cofactor_61)
  then show ?thesis unfolding e by simp
qed

lemma gen_cofactor_151: "pmodi 37 15270483504726450 2305843009213693951 \<noteq> 1"
  apply (simp only: pmodi_numeral)
  apply code_simp
  done

lemma gpow_cofactor_151: "gpow ((PM - 1) div 151) \<noteq> 1"
proof -
  have e: "(PM - 1) div 151 = 15270483504726450" by (simp add: PM_def)
  have "int (gpow 15270483504726450) \<noteq> 1"
    unfolding gpow_int PM_int by (rule gen_cofactor_151)
  then show ?thesis unfolding e by simp
qed

lemma gen_cofactor_331: "pmodi 37 6966293079195450 2305843009213693951 \<noteq> 1"
  apply (simp only: pmodi_numeral)
  apply code_simp
  done

lemma gpow_cofactor_331: "gpow ((PM - 1) div 331) \<noteq> 1"
proof -
  have e: "(PM - 1) div 331 = 6966293079195450" by (simp add: PM_def)
  have "int (gpow 6966293079195450) \<noteq> 1"
    unfolding gpow_int PM_int by (rule gen_cofactor_331)
  then show ?thesis unfolding e by simp
qed

lemma gen_cofactor_1321: "pmodi 37 1745528394559950 2305843009213693951 \<noteq> 1"
  apply (simp only: pmodi_numeral)
  apply code_simp
  done

lemma gpow_cofactor_1321: "gpow ((PM - 1) div 1321) \<noteq> 1"
proof -
  have e: "(PM - 1) div 1321 = 1745528394559950" by (simp add: PM_def)
  have "int (gpow 1745528394559950) \<noteq> 1"
    unfolding gpow_int PM_int by (rule gen_cofactor_1321)
  then show ?thesis unfolding e by simp
qed

lemma gpow_cofactors:
  assumes "q \<in> set small_primes"
  shows "gpow ((PM - 1) div q) \<noteq> 1"
proof -
  from assms consider "q = 2" | "q = 3" | "q = 5" | "q = 7" | "q = 11" | "q = 13"
    | "q = 31" | "q = 41" | "q = 61" | "q = 151" | "q = 331" | "q = 1321"
    by (auto simp: small_primes_def)
  then show ?thesis
    by cases (simp_all only: gpow_cofactor_2 gpow_cofactor_3 gpow_cofactor_5 gpow_cofactor_7 gpow_cofactor_11 gpow_cofactor_13 gpow_cofactor_31 gpow_cofactor_41 gpow_cofactor_61 gpow_cofactor_151 gpow_cofactor_331 gpow_cofactor_1321 not_False_eq_True)
qed

lemma small_primes_trial: "q \<in> set small_primes \<Longrightarrow> trial_prime q"
  using trial_primes by (auto simp: small_primes_def)

lemma PM_pred_factors:
  "PM - 1 = prod_list [2, 3, 3, 5, 5, 7, 11, 13, 31, 41, 61, 151, 331, 1321]"
  by (simp add: PM_def)

lemma coprime_prod_list:
  fixes m :: nat
  shows "\<forall>q\<in>set qs. coprime q m \<Longrightarrow> coprime (prod_list qs) m"
  by (induction qs) simp_all

lemma cofactor_has_small_prime:
  assumes "m dvd PM - 1" "m \<noteq> 1"
  shows "\<exists>q\<in>set small_primes. q dvd m"
proof (rule ccontr)
  assume "\<not> (\<exists>q\<in>set small_primes. q dvd m)"
  then have "\<forall>q\<in>set small_primes. coprime q m"
    using small_primes_trial trial_prime_coprime by blast
  then have "\<forall>q\<in>set [2, 3, 3, 5, 5, 7, 11, 13, 31, 41, 61, 151, 331, 1321]. coprime q m"
    by (simp add: small_primes_def)
  then have "coprime (PM - 1) m"
    unfolding PM_pred_factors by (rule coprime_prod_list)
  moreover have "gcd (PM - 1) m = m" using assms(1) by (rule gcd_nat.absorb2)
  ultimately show False using assms(2) by (simp add: coprime_iff_gcd_eq_1)
qed

lemma gen_order:
  assumes "0 < d" "d < PM - 1" "gpow d = 1"
  shows False
proof -
  define n where "n = PM - 1"
  define e where "e = gcd d n"
  obtain x y where xy: "d * x = n * y + e"
    using bezout_nat[of d n] assms(1) unfolding e_def by auto
  have l: "gpow (d * x) = 1" using assms(3) PM_gt_1 by (simp add: gpow_mult)
  have "gpow (n * y) = 1" using gpow_full PM_gt_1 by (simp add: gpow_mult n_def)
  then have "gpow (n * y + e) = gpow e" using gpow_less[of e] by (simp add: gpow_add)
  then have e1: "gpow e = 1" using l xy by simp
  have "e dvd n" by (simp add: e_def)
  then obtain m where m: "n = e * m" by (auto simp: dvd_def)
  have "e \<le> d" using assms(1) by (simp add: e_def gcd_le1_nat)
  then have "m \<noteq> 1" using m assms(2) by (auto simp: n_def)
  moreover have "m dvd PM - 1" using m by (simp add: n_def)
  ultimately obtain q where q: "q \<in> set small_primes" "q dvd m"
    using cofactor_has_small_prime by blast
  then obtain m' where m': "m = q * m'" by (auto simp: dvd_def)
  have "0 < q" using q(1) by (auto simp: small_primes_def)
  have "n div q = e * m'" using m m' \<open>0 < q\<close> by simp
  then have "gpow (n div q) = 1" using e1 PM_gt_1 by (simp add: gpow_mult)
  then show False using gpow_cofactors[OF q(1)] by (simp add: n_def)
qed

lemma gpow_nonzero:
  assumes "k \<le> PM - 1"
  shows "gpow k \<noteq> 0"
proof
  assume z: "gpow k = 0"
  have "gpow (k + (PM - 1 - k)) = 0" unfolding gpow_add z by simp
  moreover have "k + (PM - 1 - k) = PM - 1" using assms by simp
  ultimately show False using gpow_full by simp
qed

lemma gpow_inj:
  assumes "i < j" "j < PM - 1"
  shows "gpow i \<noteq> gpow j"
proof
  assume eq: "gpow i = gpow j"
  define n where "n = PM - 1"
  have "gpow ((n - i) + j) = gpow ((n - i) + i)"
    by (simp only: gpow_add eq)
  moreover have "(n - i) + j = n + (j - i)" using assms by (simp add: n_def)
  moreover have "(n - i) + i = n" using assms by (simp add: n_def)
  ultimately have "gpow (n + (j - i)) = gpow n" by metis
  then have "gpow n * gpow (j - i) mod PM = gpow n" by (simp only: gpow_add)
  then have "gpow (j - i) = 1"
    using gpow_full gpow_less[of "j - i"] by (simp add: n_def)
  moreover have "0 < j - i" "j - i < PM - 1" using assms by simp_all
  ultimately show False using gen_order[of "j - i"] by blast
qed

lemma gpow_surj:
  assumes "0 < a" "a < PM"
  shows "\<exists>k. a = gpow k"
proof -
  have inj: "inj_on gpow {0..<PM - 1}"
  proof (rule inj_onI)
    fix x y assume "x \<in> {0..<PM - 1}" "y \<in> {0..<PM - 1}" "gpow x = gpow y"
    then show "x = y"
      using gpow_inj[of x y] gpow_inj[of y x] by (cases x y rule: linorder_cases) auto
  qed
  have sub: "gpow ` {0..<PM - 1} \<subseteq> {1..<PM}"
  proof
    fix v assume "v \<in> gpow ` {0..<PM - 1}"
    then obtain k where k: "k < PM - 1" "v = gpow k" by auto
    have "v \<noteq> 0" using gpow_nonzero[of k] k by simp
    moreover have "v < PM" using k gpow_less by simp
    ultimately show "v \<in> {1..<PM}" by simp
  qed
  have "card (gpow ` {0..<PM - 1}) = card {1..<PM}"
    using inj by (simp add: card_image)
  then have "gpow ` {0..<PM - 1} = {1..<PM}"
    using sub by (simp add: card_subset_eq)
  moreover have "a \<in> {1..<PM}" using assms by simp
  ultimately show ?thesis by blast
qed

lemma fermat_PM:
  assumes "0 < a" "a < PM"
  shows "a ^ (PM - 1) mod PM = 1"
proof -
  obtain k where k: "a = gpow k" using gpow_surj[OF assms] by blast
  have "a ^ (PM - 1) mod PM = gpow (k * (PM - 1))"
    unfolding k gpow_mult ..
  also have "\<dots> = gpow ((PM - 1) * k)" by (simp add: mult.commute)
  also have "\<dots> = 1" using gpow_full PM_gt_1 by (simp add: gpow_mult)
  finally show ?thesis .
qed

lemma inverse_PM:
  assumes "0 < a" "a < PM"
  shows "a * (a ^ (PM - 2) mod PM) mod PM = 1"
proof -
  have "Suc (PM - 2) = PM - 1" using PM_gt_1 by simp
  then have "a * a ^ (PM - 2) = a ^ (PM - 1)"
    by (metis power_Suc)
  then show ?thesis using fermat_PM[OF assms] by (simp add: mod_mult_right_eq)
qed

lemma unat_kModulus: "unat kModulus = PM"
  by (simp add: kModulus_def PM_def)

lemma unat_ucast_kModulus: "unat (ucast kModulus :: u128) = PM"
  by (simp add: kModulus_def PM_def)

lemma unat_lt64: "unat (a :: u64) < 18446744073709551616"
  using unsigned_less[of a, where 'a=nat] by simp

lemma unat_up: "unat (ucast (a :: u64) :: u128) = unat a"
  by (simp add: unsigned_ucast_eq take_bit_nat_eq_self_iff unat_lt64 order_less_trans[OF unat_lt64])

lemma unat_down_small: "unat x < PM \<Longrightarrow> unat (ucast (x :: u128) :: u64) = unat x"
  by (simp add: unsigned_ucast_eq take_bit_nat_eq_self_iff PM_def)

lemma unat_Add: "unat (Add a b) = (unat a + unat b) mod PM"
proof -
  have s: "unat ((ucast a :: u128) + ucast b) = unat a + unat b"
    using unat_lt64[of a] unat_lt64[of b] by (simp add: unat_word_ariths unat_up)
  have "unat (((ucast a :: u128) + ucast b) mod ucast kModulus) = (unat a + unat b) mod PM"
    by (simp only: unat_mod s unat_ucast_kModulus)
  moreover have "(unat a + unat b) mod PM < PM" using PM_gt_1 by simp
  ultimately show ?thesis unfolding Add_def by (simp only: unat_down_small)
qed

lemma unat_Mul: "unat (Mul a b) = (unat a * unat b) mod PM"
proof -
  have "unat a * unat b < 18446744073709551616 * 18446744073709551616"
    using unat_lt64[of a] unat_lt64[of b] by (intro mult_strict_mono) simp_all
  then have s: "unat ((ucast a :: u128) * ucast b) = unat a * unat b"
    by (simp add: unat_word_ariths unat_up)
  have "unat (((ucast a :: u128) * ucast b) mod ucast kModulus) = (unat a * unat b) mod PM"
    by (simp only: unat_mod s unat_ucast_kModulus)
  moreover have "(unat a * unat b) mod PM < PM" using PM_gt_1 by simp
  ultimately show ?thesis unfolding Mul_def by (simp only: unat_down_small)
qed

lemma unat_Sub: "unat (Sub a b) = (PM + unat a - unat b mod PM) mod PM"
proof -
  have bm: "unat (ucast (b mod kModulus) :: u128) = unat b mod PM"
    by (simp only: unat_up unat_mod unat_kModulus)
  have lt: "unat b mod PM < PM" using PM_gt_1 by simp
  have s1: "unat ((ucast kModulus :: u128) + ucast a) = PM + unat a"
    using unat_lt64[of a] by (simp add: unat_word_ariths unat_up unat_kModulus PM_def)
  have le: "(ucast (b mod kModulus) :: u128) \<le> (ucast kModulus :: u128) + ucast a"
    using lt by (simp add: word_le_nat_alt s1 bm)
  have s: "unat (((ucast kModulus :: u128) + ucast a) - ucast (b mod kModulus)) = PM + unat a - unat b mod PM"
    using le by (simp add: unat_sub s1 bm)
  have "unat ((((ucast kModulus :: u128) + ucast a) - ucast (b mod kModulus)) mod ucast kModulus)
          = (PM + unat a - unat b mod PM) mod PM"
    by (simp only: unat_mod s unat_ucast_kModulus)
  moreover have "(PM + unat a - unat b mod PM) mod PM < PM" using PM_gt_1 by simp
  ultimately show ?thesis unfolding Sub_def by (simp only: unat_down_small)
qed

lemma and_1_odd: "(e :: u64) AND 1 \<noteq> 0 \<longleftrightarrow> odd (unat e)"
proof -
  have "unat (e AND 1) = unat e mod 2"
    by (simp add: and_one_eq unat_mod)
  then show ?thesis
    by (metis odd_iff_mod_2_eq_one unat_eq_zero unsigned_0 mod2_eq_if zero_neq_one)
qed

lemma unat_Pow_loop:
  "unat r < PM \<Longrightarrow> unat (Pow_loop r c e) = (unat r * unat c ^ unat e) mod PM"
proof (induction r c e rule: Pow_loop.induct)
  case (1 result cur e)
  show ?case
  proof (cases "e > 0")
    case False
    then have "e = 0" by (simp add: word_greater_zero_iff)
    then show ?thesis using "1.prems" by (subst Pow_loop.simps) simp
  next
    case True
    let ?r' = "if e AND 1 \<noteq> 0 then Mul result cur else result"
    have r': "unat ?r' < PM" using "1.prems" PM_gt_1 by (simp add: unat_Mul)
    have "drop_bit 1 (unat e) = unat e div 2"
      by (simp add: drop_bit_eq_div)
    then have half: "unat (drop_bit 1 e) = unat e div 2"
      by (simp only: unat_drop_bit_eq)
    have IH: "unat (Pow_loop ?r' (Mul cur cur) (drop_bit 1 e))
        = (unat ?r' * unat (Mul cur cur) ^ (unat e div 2)) mod PM"
      using "1.IH"[OF True r'] half by simp
    have sq: "unat (Mul cur cur) ^ (unat e div 2) mod PM = unat cur ^ (2 * (unat e div 2)) mod PM"
      by (simp add: unat_Mul power_mod power_mult power2_eq_square)
    have step: "Pow_loop result cur e = Pow_loop ?r' (Mul cur cur) (drop_bit 1 e)"
      using True by (subst Pow_loop.simps) simp
    show ?thesis
    proof (cases "odd (unat e)")
      case True
      then have e: "unat e = Suc (2 * (unat e div 2))" by presburger
      have "unat ?r' = unat result * unat cur mod PM"
        using True by (simp add: and_1_odd unat_Mul)
      then have "unat (Pow_loop result cur e)
          = ((unat result * unat cur mod PM) * (unat (Mul cur cur) ^ (unat e div 2) mod PM)) mod PM"
        unfolding step IH by (simp add: mod_mult_right_eq)
      also have "\<dots> = (unat result * unat cur) * unat cur ^ (2 * (unat e div 2)) mod PM"
        unfolding sq by (simp add: mod_mult_eq)
      also have "\<dots> = unat result * unat cur ^ unat e mod PM"
      proof -
        have "unat cur ^ unat e = unat cur * unat cur ^ (2 * (unat e div 2))"
          by (subst e) simp
        then show ?thesis by (simp add: mult.assoc)
      qed
      finally show ?thesis .
    next
      case False
      then have e: "unat e = 2 * (unat e div 2)" by presburger
      have "unat ?r' = unat result"
        using False by (simp add: and_1_odd)
      then have "unat (Pow_loop result cur e)
          = (unat result * (unat (Mul cur cur) ^ (unat e div 2) mod PM)) mod PM"
        unfolding step IH by (simp add: mod_mult_right_eq)
      also have "\<dots> = unat result * unat cur ^ (2 * (unat e div 2)) mod PM"
        unfolding sq by (simp add: mod_mult_right_eq)
      also have "\<dots> = unat result * unat cur ^ unat e mod PM"
      proof -
        have "unat cur ^ unat e = unat cur ^ (2 * (unat e div 2))"
          by (subst e) simp
        then show ?thesis by simp
      qed
      finally show ?thesis .
    qed
  qed
qed

lemma unat_Pow: "unat (Pow b e) = unat b ^ unat e mod PM"
proof -
  have "unat (Pow b e) = (unat (1::u64) * unat (b mod kModulus) ^ unat e) mod PM"
    unfolding Pow_def using PM_gt_1 by (intro unat_Pow_loop) simp
  then show ?thesis by (simp add: unat_mod unat_kModulus power_mod)
qed

lemma unat_Inverse:
  assumes "unat a mod PM \<noteq> 0"
  shows "unat a * unat (Inverse a) mod PM = 1"
proof -
  have a0: "a \<noteq> 0" using assms by auto
  have k2: "unat (kModulus - 2) = PM - 2"
    by (simp add: kModulus_def PM_def)
  have "0 < unat a mod PM" "unat a mod PM < PM" using assms PM_gt_1 by simp_all
  then have "(unat a mod PM) * ((unat a mod PM) ^ (PM - 2) mod PM) mod PM = 1"
    by (rule inverse_PM)
  then have "unat a * (unat a ^ (PM - 2) mod PM) mod PM = 1"
    by (simp add: power_mod mod_mult_left_eq)
  then show ?thesis using a0 by (simp add: Inverse_def unat_Pow k2)
qed

text \<open>
  Claim C7. For every field element \<open>a\<close> with \<open>0 < a < p\<close> (\<open>p = 2^61 - 1\<close>),
  \<open>Mul(a, Inverse(a)) = 1\<close>, where \<open>Inverse(a)\<close> is \<open>Pow(a, p - 2)\<close> computed by the
  square-and-multiply loop.
\<close>

theorem Mul_Inverse:
  assumes "0 < a" "a < kModulus"
  shows "Mul a (Inverse a) = 1"
proof -
  have "unat a < PM" using assms(2) by (simp add: word_less_nat_alt unat_kModulus)
  moreover have "0 < unat a" using assms(1) by (simp add: word_greater_zero_iff unat_gt_0)
  ultimately have "unat a mod PM \<noteq> 0" by simp
  then have "unat (Mul a (Inverse a)) = 1" by (simp add: unat_Mul unat_Inverse)
  then show ?thesis by (metis unat_1 word_unat_eq_iff)
qed

theorem Mul_Inverse_witness:
  "0 < (2 :: u64) \<and> 2 < kModulus \<and> Mul 2 (Inverse 2) = 1"
  using Mul_Inverse[of 2] by (simp add: kModulus_def)

lemma card_fp: "CARD(fp) = PM"
  by (simp add: PM_def)

lemma of_nat_fp_eq_iff: "(of_nat a :: fp) = of_nat b \<longleftrightarrow> a mod PM = b mod PM"
proof -
  have r: "Rep_bit1 (of_nat k :: fp) = int k mod int PM" for k
    unfolding bit1.of_nat_eq card_fp
    by (rule bit1.Rep_Abs_mod[where 'a="1152921504606846975", unfolded card_fp])
  show ?thesis
  proof
    assume "(of_nat a :: fp) = of_nat b"
    then have "int a mod int PM = int b mod int PM" using r by metis
    then show "a mod PM = b mod PM" by (metis of_nat_mod of_nat_eq_iff)
  next
    assume "a mod PM = b mod PM"
    then have "int a mod int PM = int b mod int PM" by (metis of_nat_mod)
    then have "Rep_bit1 (of_nat a :: fp) = Rep_bit1 (of_nat b :: fp)" using r by simp
    then show "(of_nat a :: fp) = of_nat b" by (simp add: Rep_bit1_inject)
  qed
qed

lemma of_nat_fp_mod: "(of_nat (a mod PM) :: fp) = of_nat a"
  using PM_gt_1 by (simp add: of_nat_fp_eq_iff)

lemma fp_of_Add: "fp_of (Add a b) = fp_of a + fp_of b"
  by (simp add: fp_of_def unat_Add of_nat_fp_mod)

lemma fp_of_Mul: "fp_of (Mul a b) = fp_of a * fp_of b"
  by (simp add: fp_of_def unat_Mul of_nat_fp_mod)

lemma fp_of_Sub: "fp_of (Sub a b) = fp_of a - fp_of b"
proof -
  have le: "unat b mod PM \<le> PM + unat a" using PM_gt_1 by (simp add: trans_le_add1 less_imp_le)
  have "fp_of (Sub a b) = of_nat (PM + unat a - unat b mod PM)"
    by (simp add: fp_of_def unat_Sub of_nat_fp_mod)
  also have "\<dots> = of_nat (PM + unat a) - of_nat (unat b mod PM)"
    using le by (simp add: of_nat_diff)
  also have "\<dots> = of_nat PM + fp_of a - fp_of b"
    by (simp add: fp_of_def of_nat_fp_mod)
  also have "(of_nat PM :: fp) = 0"
    using of_nat_fp_eq_iff[of PM 0] by simp
  finally show ?thesis by simp
qed

lemma fp_cases: "\<exists>n. (x :: fp) = of_nat n"
proof (cases x rule: bit1_cases)
  case (of_int z)
  then have "x = of_nat (nat z)" by simp
  then show ?thesis by blast
qed

lemma fp_no_zero_divisors:
  fixes x y :: fp
  assumes "x * y = 0"
  shows "x = 0 \<or> y = 0"
proof (rule ccontr)
  assume neg: "\<not> (x = 0 \<or> y = 0)"
  obtain a where a: "x = of_nat a" using fp_cases by blast
  obtain b where b: "y = of_nat b" using fp_cases by blast
  have a0: "a mod PM \<noteq> 0" using neg a of_nat_fp_eq_iff[of a 0] by auto
  define i where "i = (a mod PM) ^ (PM - 2) mod PM"
  have "0 < a mod PM" "a mod PM < PM" using a0 PM_gt_1 by simp_all
  then have "(a mod PM) * i mod PM = 1" unfolding i_def by (rule inverse_PM)
  then have "(of_nat ((a mod PM) * i mod PM) :: fp) = 1" by simp
  then have xi: "x * of_nat i = 1" by (simp add: of_nat_fp_mod a)
  have "y = (x * of_nat i) * y" using xi by simp
  also have "\<dots> = of_nat i * (x * y)" by (simp add: mult_ac)
  also have "\<dots> = 0" using assms by simp
  finally show False using neg by simp
qed

lemma fp_of_mod: "fp_of (x mod kModulus) = fp_of x"
  by (simp add: fp_of_def unat_mod unat_kModulus of_nat_fp_mod)

lemma fp_of_0: "fp_of 0 = 0" and fp_of_1: "fp_of 1 = 1"
  by (simp_all add: fp_of_def)

lemma fp_of_Evaluate_loop:
  "fp_of (Evaluate_loop cs x r pw) = fp_of r + fp_of pw * peval (map fp_of cs) (fp_of x)"
  by (induction cs arbitrary: r pw)
     (simp_all add: fp_of_Add fp_of_Mul fp_of_mod algebra_simps)

lemma fp_of_Evaluate: "fp_of (Evaluate cs x) = peval (map fp_of cs) (fp_of x)"
  by (simp add: Evaluate_def fp_of_Evaluate_loop fp_of_0 fp_of_1)

lemma peval_factor:
  "cs \<noteq> [] \<Longrightarrow> \<exists>ds. Suc (length ds) = length cs \<and> (\<forall>z. peval cs z = (z - a) * peval ds z + peval cs a)"
proof (induction cs)
  case Nil
  then show ?case by simp
next
  case (Cons c cs)
  show ?case
  proof (cases "cs = []")
    case True
    then have "Suc (length ([]::fp list)) = length (c # cs) \<and> (\<forall>z. peval (c # cs) z = (z - a) * peval [] z + peval (c # cs) a)"
      by simp
    then show ?thesis by blast
  next
    case False
    then obtain ds where ds: "Suc (length ds) = length cs" "\<forall>z. peval cs z = (z - a) * peval ds z + peval cs a"
      using Cons.IH by blast
    have "\<forall>z. peval (c # cs) z = (z - a) * peval (peval cs a # ds) z + peval (c # cs) a"
    proof
      fix z
      have e: "peval cs z = (z - a) * peval ds z + peval cs a"
        using ds(2) by blast
      have "peval (c # cs) z = c + z * peval cs z" by simp
      also have "\<dots> = c + z * ((z - a) * peval ds z + peval cs a)"
        by (subst e) (rule refl)
      also have "\<dots> = (z - a) * (peval cs a + z * peval ds z) + (c + a * peval cs a)"
        by (simp add: algebra_simps)
      also have "\<dots> = (z - a) * peval (peval cs a # ds) z + peval (c # cs) a"
        by simp
      finally show "peval (c # cs) z = (z - a) * peval (peval cs a # ds) z + peval (c # cs) a" .
    qed
    moreover have "Suc (length (peval cs a # ds)) = length (c # cs)" using ds(1) by simp
    ultimately show ?thesis by blast
  qed
qed

lemma peval_roots_zero:
  "distinct rs \<Longrightarrow> length cs \<le> length rs \<Longrightarrow> \<forall>r\<in>set rs. peval cs r = 0 \<Longrightarrow> peval cs z = 0"
proof (induction rs arbitrary: cs z)
  case Nil
  then show ?case by simp
next
  case (Cons r rs)
  show ?case
  proof (cases "cs = []")
    case True
    then show ?thesis by simp
  next
    case False
    obtain ds where ds: "Suc (length ds) = length cs" "\<forall>z. peval cs z = (z - r) * peval ds z + peval cs r"
      using peval_factor[OF False] by blast
    have r0: "peval cs r = 0" using Cons.prems(3) by simp
    have "\<forall>r'\<in>set rs. peval ds r' = 0"
    proof
      fix r' assume r': "r' \<in> set rs"
      then have "(r' - r) * peval ds r' = 0" using ds(2) r0 Cons.prems(3) by (metis add.right_neutral list.set_intros(2))
      moreover have "r' - r \<noteq> 0" using r' Cons.prems(1) by auto
      ultimately show "peval ds r' = 0" using fp_no_zero_divisors by blast
    qed
    moreover have "distinct rs" "length ds \<le> length rs" using Cons.prems ds(1) by auto
    ultimately have "peval ds z = 0" using Cons.IH by blast
    moreover have "peval cs z = (z - r) * peval ds z + peval cs r" using ds(2) by blast
    ultimately show ?thesis using r0 by simp
  qed
qed

lemma is_poly_mono: "is_poly m f \<Longrightarrow> m \<le> n \<Longrightarrow> is_poly n f"
  unfolding is_poly_def by (meson order_trans)

lemma is_poly_peval: "length cs \<le> n \<Longrightarrow> is_poly n (peval cs)"
  unfolding is_poly_def by blast

lemma is_poly_const: "0 < n \<Longrightarrow> is_poly n (\<lambda>z. a)"
proof -
  assume "0 < n"
  then have "length [a] \<le> n \<and> (\<forall>z. peval [a] z = a)" by simp
  then show ?thesis unfolding is_poly_def by blast
qed

lemma peval_add_ex:
  "\<exists>cs. length cs \<le> max (length xs) (length ys) \<and> (\<forall>z. peval cs z = peval xs z + peval ys z)"
proof (induction xs arbitrary: ys)
  case Nil
  have "length ys \<le> max (length ([]::fp list)) (length ys) \<and> (\<forall>z. peval ys z = peval [] z + peval ys z)"
    by simp
  then show ?case by blast
next
  case (Cons x xs)
  show ?case
  proof (cases ys)
    case Nil
    have "length (x # xs) \<le> max (length (x # xs)) (length ([]::fp list))
        \<and> (\<forall>z. peval (x # xs) z = peval (x # xs) z + peval [] z)"
      by simp
    then show ?thesis unfolding Nil by blast
  next
    case (Cons y ys')
    obtain cs where cs: "length cs \<le> max (length xs) (length ys')"
        "\<forall>z. peval cs z = peval xs z + peval ys' z"
      using Cons.IH by blast
    have "\<forall>z. peval ((x + y) # cs) z = peval (x # xs) z + peval (y # ys') z"
    proof
      fix z
      have "peval cs z = peval xs z + peval ys' z" using cs(2) by blast
      then show "peval ((x + y) # cs) z = peval (x # xs) z + peval (y # ys') z"
        by (simp add: algebra_simps)
    qed
    moreover have "length ((x + y) # cs) \<le> max (length (x # xs)) (length (y # ys'))"
      using cs(1) by simp
    ultimately show ?thesis unfolding Cons by blast
  qed
qed

lemma is_poly_add:
  assumes "is_poly n f" "is_poly n g"
  shows "is_poly n (\<lambda>z. f z + g z)"
proof -
  obtain xs where xs: "length xs \<le> n" "\<forall>z. peval xs z = f z"
    using assms(1) unfolding is_poly_def by blast
  obtain ys where ys: "length ys \<le> n" "\<forall>z. peval ys z = g z"
    using assms(2) unfolding is_poly_def by blast
  obtain cs where cs: "length cs \<le> max (length xs) (length ys)"
      "\<forall>z. peval cs z = peval xs z + peval ys z"
    using peval_add_ex by blast
  have "length cs \<le> n" using cs(1) xs(1) ys(1) by simp
  moreover have "\<forall>z. peval cs z = f z + g z" using cs(2) xs(2) ys(2) by simp
  ultimately show ?thesis unfolding is_poly_def by blast
qed

lemma peval_smult: "peval (map ((*) a) cs) z = a * peval cs z"
  by (induction cs) (simp_all add: algebra_simps)

lemma is_poly_smult:
  assumes "is_poly n f"
  shows "is_poly n (\<lambda>z. a * f z)"
proof -
  obtain xs where xs: "length xs \<le> n" "\<forall>z. peval xs z = f z"
    using assms unfolding is_poly_def by blast
  have "length (map ((*) a) xs) \<le> n" using xs(1) by simp
  moreover have "\<forall>z. peval (map ((*) a) xs) z = a * f z" using xs(2) by (simp add: peval_smult)
  ultimately show ?thesis unfolding is_poly_def by blast
qed

lemma is_poly_shift:
  assumes "is_poly n f"
  shows "is_poly (Suc n) (\<lambda>z. z * f z)"
proof -
  obtain xs where xs: "length xs \<le> n" "\<forall>z. peval xs z = f z"
    using assms unfolding is_poly_def by blast
  have "length (0 # xs) \<le> Suc n" using xs(1) by simp
  moreover have "\<forall>z. peval (0 # xs) z = z * f z" using xs(2) by simp
  ultimately show ?thesis unfolding is_poly_def by blast
qed

lemma is_poly_linear_factor:
  assumes "is_poly n f"
  shows "is_poly (Suc n) (\<lambda>z. (z - a) * f z)"
proof -
  have "is_poly (Suc n) (\<lambda>z. z * f z + (- a) * f z)"
    using is_poly_shift[OF assms] is_poly_mono[OF is_poly_smult[OF assms, of "- a"], of "Suc n"]
    by (intro is_poly_add) simp_all
  moreover have "(\<lambda>z. z * f z + (- a) * f z) = (\<lambda>z. (z - a) * f z)"
    by (rule ext) (simp add: algebra_simps)
  ultimately show ?thesis by simp
qed

lemma is_poly_prod:
  assumes "finite A"
  shows "is_poly (Suc (card A)) (\<lambda>z. \<Prod>j\<in>A. (z - X j))"
  using assms
proof (induction A rule: finite_induct)
  case empty
  then show ?case by (simp add: is_poly_const)
next
  case (insert k A)
  have "is_poly (Suc (Suc (card A))) (\<lambda>z. (z - X k) * (\<Prod>j\<in>A. (z - X j)))"
    using insert.IH by (rule is_poly_linear_factor)
  then show ?case using insert.hyps by simp
qed

lemma is_poly_sum:
  assumes "finite A" "0 < n" "\<forall>i\<in>A. is_poly n (f i)"
  shows "is_poly n (\<lambda>z. \<Sum>i\<in>A. f i z)"
  using assms
proof (induction A rule: finite_induct)
  case empty
  then show ?case by (simp add: is_poly_const)
next
  case (insert k A)
  have "is_poly n (\<lambda>z. f k z + (\<Sum>i\<in>A. f i z))"
    using insert by (intro is_poly_add) simp_all
  then show ?case using insert.hyps by simp
qed

lemma is_poly_roots_zero:
  assumes "is_poly n f" "distinct rs" "n \<le> length rs" "\<forall>r\<in>set rs. f r = 0"
  shows "f z = 0"
proof -
  obtain cs where cs: "length cs \<le> n" "\<forall>z. peval cs z = f z"
    using assms(1) unfolding is_poly_def by blast
  have "peval cs z = 0"
    using assms(2) by (rule peval_roots_zero) (use cs assms in simp_all)
  then show ?thesis using cs(2) by simp
qed

lemma fp_prod_nonzero:
  fixes f :: "nat \<Rightarrow> fp"
  assumes "finite A" "\<forall>j\<in>A. f j \<noteq> 0"
  shows "prod f A \<noteq> 0"
  using assms
proof (induction A rule: finite_induct)
  case empty
  then show ?case by simp
next
  case (insert k A)
  then show ?case using fp_no_zero_divisors[of "f k" "prod f A"] by auto
qed

lemma lbasis_node:
  assumes "k < n" "i < n"
    and d: "d i * (\<Prod>j\<in>{0..<n} - {i}. (X i - X j)) = 1"
  shows "lbasis X d n i (X k) = (if i = k then 1 else 0)"
proof (cases "i = k")
  case True
  then show ?thesis using d by (simp add: lbasis_def mult.commute)
next
  case False
  then have "k \<in> {0..<n} - {i}" using assms(1) by simp
  moreover have "X k - X k = 0" by simp
  ultimately have "(\<Prod>j\<in>{0..<n} - {i}. (X k - X j)) = 0"
    by (intro prod_zero) auto
  then show ?thesis using False by (simp add: lbasis_def)
qed

lemma lagrange_interpolation:
  assumes inj: "inj_on X {0..<n}"
    and len: "length cs \<le> n"
    and d: "\<forall>i<n. d i * (\<Prod>j\<in>{0..<n} - {i}. (X i - X j)) = 1"
  shows "(\<Sum>i\<in>{0..<n}. peval cs (X i) * lbasis X d n i z) = peval cs z"
proof (cases "n = 0")
  case True
  then show ?thesis using len by simp
next
  case False
  define g where "g = (\<lambda>z. (\<Sum>i\<in>{0..<n}. peval cs (X i) * lbasis X d n i z) + (- 1) * peval cs z)"
  have basis_poly: "is_poly n (lbasis X d n i)" if "i < n" for i
  proof -
    have "card ({0..<n} - {i}) = n - 1" using that by simp
    then have "is_poly n (\<lambda>z. \<Prod>j\<in>{0..<n} - {i}. (z - X j))"
      using is_poly_prod[of "{0..<n} - {i}" X] False by simp
    then have "is_poly n (\<lambda>z. d i * (\<Prod>j\<in>{0..<n} - {i}. (z - X j)))"
      by (rule is_poly_smult)
    moreover have "(\<lambda>z. d i * (\<Prod>j\<in>{0..<n} - {i}. (z - X j))) = lbasis X d n i"
      by (rule ext) (simp add: lbasis_def mult.commute)
    ultimately show ?thesis by simp
  qed
  have "is_poly n (\<lambda>z. \<Sum>i\<in>{0..<n}. peval cs (X i) * lbasis X d n i z)"
    using False basis_poly by (intro is_poly_sum ballI is_poly_smult) simp_all
  moreover have "is_poly n (\<lambda>z. (- 1) * peval cs z)"
    using len by (intro is_poly_smult is_poly_peval)
  ultimately have pg: "is_poly n g" unfolding g_def by (rule is_poly_add)
  have roots: "\<forall>r\<in>set (map X [0..<n]). g r = 0"
  proof
    fix r assume "r \<in> set (map X [0..<n])"
    then obtain k where k: "k < n" "r = X k" by auto
    have "(\<Sum>i\<in>{0..<n}. peval cs (X i) * lbasis X d n i (X k))
        = (\<Sum>i\<in>{0..<n}. if i = k then peval cs (X k) else 0)"
      using d k(1) by (intro sum.cong refl) (simp add: lbasis_node)
    also have "\<dots> = peval cs (X k)" using k(1) by simp
    finally show "g r = 0" by (simp add: g_def k(2))
  qed
  have "distinct (map X [0..<n])" using inj by (simp add: distinct_map)
  then have "g z = 0"
    using pg roots by (intro is_poly_roots_zero[where n=n and rs="map X [0..<n]"]) simp_all
  then show ?thesis by (simp add: g_def)
qed

lemma lag_num_Suc:
  "lag_num X (Suc m) i = (if i = m then lag_num X m i else lag_num X m i * (0 - X m))"
proof (cases "i = m")
  case True
  then have "{0..<Suc m} - {i} = {0..<m} - {i}" by auto
  then show ?thesis using True by (simp add: lag_num_def)
next
  case False
  then have "{0..<Suc m} - {i} = insert m ({0..<m} - {i})" by auto
  then show ?thesis using False by (simp add: lag_num_def mult.commute)
qed

lemma lag_den_Suc:
  "lag_den X (Suc m) i = (if i = m then lag_den X m i else lag_den X m i * (X i - X m))"
proof (cases "i = m")
  case True
  then have "{0..<Suc m} - {i} = {0..<m} - {i}" by auto
  then show ?thesis using True by (simp add: lag_den_def)
next
  case False
  then have "{0..<Suc m} - {i} = insert m ({0..<m} - {i})" by auto
  then show ?thesis using False by (simp add: lag_den_def mult.commute)
qed

lemma fp_of_lagrange_step:
  "fp_of (fst (lagrange_step xs i j acc))
     = (if i = j then fp_of (fst acc) else fp_of (fst acc) * (0 - fp_of (xs ! j)))"
  "fp_of (snd (lagrange_step xs i j acc))
     = (if i = j then fp_of (snd acc) else fp_of (snd acc) * (fp_of (xs ! i) - fp_of (xs ! j)))"
  by (simp_all add: lagrange_step_def Let_def fp_of_Mul fp_of_Sub fp_of_mod fp_of_0)

lemma lagrange_fold:
  "fp_of (fst (fold (lagrange_step xs i) [0..<m] (1, 1))) = lag_num (\<lambda>j. fp_of (xs ! j)) m i
   \<and> fp_of (snd (fold (lagrange_step xs i) [0..<m] (1, 1))) = lag_den (\<lambda>j. fp_of (xs ! j)) m i"
proof (induction m)
  case 0
  then show ?case by (simp add: lag_num_def lag_den_def fp_of_1)
next
  case (Suc m)
  then show ?case
    by (simp only: upt_Suc_append le0 fold_append fold_simps o_apply
          fp_of_lagrange_step lag_num_Suc lag_den_Suc)
qed

lemma fp_of_eq_0_iff: "fp_of a = 0 \<longleftrightarrow> unat a mod PM = 0"
  using of_nat_fp_eq_iff[of "unat a" 0] by (simp add: fp_of_def)

lemma fp_of_Inverse: "fp_of a \<noteq> 0 \<Longrightarrow> fp_of a * fp_of (Inverse a) = 1"
proof -
  assume "fp_of a \<noteq> 0"
  then have "unat a * unat (Inverse a) mod PM = 1"
    by (intro unat_Inverse) (simp add: fp_of_eq_0_iff)
  then have "(of_nat (unat a * unat (Inverse a) mod PM) :: fp) = 1" by simp
  then show ?thesis by (simp add: of_nat_fp_mod fp_of_def)
qed

lemma fp_of_lagrange_at:
  "fp_of (lagrange_at xs n i) = lbasis (\<lambda>j. fp_of (xs ! j)) (lag_inv xs n) n i 0"
  using lagrange_fold[of xs i n]
  by (simp add: lagrange_at_def split_beta fp_of_Mul lbasis_def lag_num_def lag_inv_def)

lemma lag_inv_correct:
  assumes "lag_den (\<lambda>j. fp_of (xs ! j)) n i \<noteq> 0"
  shows "lag_inv xs n i * (\<Prod>j\<in>{0..<n} - {i}. (fp_of (xs ! i) - fp_of (xs ! j))) = 1"
proof -
  let ?den = "snd (fold (lagrange_step xs i) [0..<n] (1, 1))"
  have e: "fp_of ?den = lag_den (\<lambda>j. fp_of (xs ! j)) n i"
    using lagrange_fold[of xs i n] by simp
  then have "fp_of ?den * fp_of (Inverse ?den) = 1"
    using assms by (intro fp_of_Inverse) simp
  then show ?thesis using e by (simp add: lag_inv_def lag_den_def mult.commute)
qed

lemma fp_of_reconstruct_fold:
  "fp_of (fold (\<lambda>i v. Add v (Mul (rows ! i ! c) (L i))) [0..<m] 0)
     = (\<Sum>i\<in>{0..<m}. fp_of (rows ! i ! c) * fp_of (L i))"
  by (induction m) (simp_all add: fp_of_0 fp_of_Add fp_of_Mul)

lemma unat_reconstruct_fold:
  "0 < m \<Longrightarrow> unat (fold (\<lambda>i v. Add v (Mul (rows ! i ! c) (L i))) [0..<m] 0) < PM"
  using PM_gt_1 by (cases m) (simp_all add: unat_Add)

lemma length_draws: "length (fst (draws draw n g)) = n"
  by (induction n arbitrary: g) (simp_all add: split_beta)

lemma BuildPolynomials_shape:
  "length (fst (BuildPolynomials draw ss d g)) = length ss
   \<and> (\<forall>c<length ss. length (fst (BuildPolynomials draw ss d g) ! c) = Suc d
         \<and> hd (fst (BuildPolynomials draw ss d g) ! c) = ss ! c)"
proof (induction ss arbitrary: g)
  case Nil
  then show ?case by simp
next
  case (Cons s ss)
  show ?case
    using Cons.IH
    by (auto simp: split_beta BuildPolynomial_def length_draws nth_Cons split: nat.splits)
qed

lemma fp_eq_imp_eq:
  assumes "fp_of a = fp_of b" "unat a < PM" "unat b < PM"
  shows "a = b"
proof -
  have "unat a mod PM = unat b mod PM"
    using assms(1) unfolding fp_of_def by (simp only: of_nat_fp_eq_iff)
  then have "unat a = unat b" using assms(2,3) by simp
  then show ?thesis by (simp add: word_unat_eq_iff)
qed

lemma reconstruct_component_correct:
  fixes S :: "nat list" and polys :: "u64 list list"
  defines "xs \<equiv> map (\<lambda>i. of_nat (i + 1) :: u64) S"
  assumes S: "distinct S" "\<forall>i\<in>set S. i < N" "N < PM" "S \<noteq> []"
    and rows: "\<forall>k<length S. rows ! k ! c = Evaluate coeffs (xs ! k)"
    and len: "length rows = length S"
    and coeffs: "length coeffs \<le> length S" "coeffs \<noteq> []" "unat (hd coeffs) < PM"
  shows "reconstruct_component xs rows c = hd coeffs"
proof -
  define n where "n = length S"
  define X where "X = (\<lambda>j. fp_of (xs ! j))"
  have n0: "0 < n" using S(4) by (simp add: n_def)
  have Xk: "X k = of_nat (S ! k + 1)" if "k < n" for k
  proof -
    have "S ! k < N" using that S(2) by (simp add: n_def)
    then have "S ! k + 1 < 2 ^ 64" using S(3) by (simp add: PM_def)
    then have "unat (of_nat (S ! k + 1) :: u64) = S ! k + 1"
      by (simp only: unat_of_nat) simp
    moreover have "xs ! k = of_nat (S ! k + 1)"
      using that unfolding xs_def n_def by (rule nth_map)
    ultimately have "unat (xs ! k) = S ! k + 1" by (simp only:)
    then show ?thesis unfolding X_def fp_of_def by (simp only:)
  qed
  have inj: "inj_on X {0..<n}"
  proof (rule inj_onI)
    fix a b assume ab: "a \<in> {0..<n}" "b \<in> {0..<n}" "X a = X b"
    then have "(of_nat (S ! a + 1) :: fp) = of_nat (S ! b + 1)" using Xk by simp
    then have "(S ! a + 1) mod PM = (S ! b + 1) mod PM" by (simp only: of_nat_fp_eq_iff)
    moreover have "S ! a < N" "S ! b < N" using ab S(2) by (simp_all add: n_def)
    then have "S ! a + 1 < PM" "S ! b + 1 < PM" using S(3) by simp_all
    ultimately have "S ! a = S ! b" by simp
    then show "a = b" using ab S(1) by (simp add: nth_eq_iff_index_eq n_def)
  qed
  have den: "lag_den X n i \<noteq> 0" if "i < n" for i
    unfolding lag_den_def
  proof (rule fp_prod_nonzero)
    show "finite ({0..<n} - {i})" by simp
    show "\<forall>j\<in>{0..<n} - {i}. X i - X j \<noteq> 0"
      using inj that by (auto simp: inj_on_def)
  qed
  have d: "\<forall>i<n. lag_inv xs n i * (\<Prod>j\<in>{0..<n} - {i}. (X i - X j)) = 1"
    using den lag_inv_correct[of xs n] by (simp add: X_def)
  have "fp_of (reconstruct_component xs rows c)
      = (\<Sum>i\<in>{0..<n}. fp_of (rows ! i ! c) * fp_of (lagrange_at xs n i))"
    unfolding reconstruct_component_def len n_def[symmetric] by (rule fp_of_reconstruct_fold)
  also have "\<dots> = (\<Sum>i\<in>{0..<n}. peval (map fp_of coeffs) (X i) * lbasis X (lag_inv xs n) n i 0)"
    using rows by (intro sum.cong refl) (simp add: fp_of_Evaluate fp_of_lagrange_at X_def n_def)
  also have "\<dots> = peval (map fp_of coeffs) 0"
    using inj coeffs(1) d by (intro lagrange_interpolation) (simp_all add: n_def)
  also have "\<dots> = fp_of (hd coeffs)"
    using coeffs(2) by (cases coeffs) simp_all
  finally have "fp_of (reconstruct_component xs rows c) = fp_of (hd coeffs)" .
  moreover have "unat (reconstruct_component xs rows c) < PM"
    unfolding reconstruct_component_def len n_def[symmetric] using n0 by (rule unat_reconstruct_fold)
  ultimately show ?thesis using coeffs(3) by (intro fp_eq_imp_eq)
qed

lemma ShareVector_Reconstruct:
  assumes t: "1 \<le> t" "t \<le> N" and N: "N < unat kModulus"
    and secret: "\<forall>s\<in>set secret. s < kModulus"
    and S: "distinct S" "length S = t" "set S \<subseteq> {0..<N}"
  shows "\<exists>shares g'. ShareVector draw t N secret g = Inr (shares, g') \<and>
           Reconstruct t (map (\<lambda>i. of_nat (i + 1)) S) (map (\<lambda>i. shares ! i) S) = Inr secret"
proof -
  define polys where "polys = fst (BuildPolynomials draw secret (t - 1) g)"
  define g' where "g' = snd (BuildPolynomials draw secret (t - 1) g)"
  define shares where "shares = map (\<lambda>participant.
      map (\<lambda>coeffs. Evaluate coeffs (of_nat (participant + 1))) polys) [0..<N]"
  define xs where "xs = map (\<lambda>i. of_nat (i + 1) :: u64) S"
  define rows where "rows = map (\<lambda>i. shares ! i) S"
  have sv: "ShareVector draw t N secret g = Inr (shares, g')"
    using t by (simp add: ShareVector_def split_beta polys_def g'_def shares_def)
  have shape: "length polys = length secret"
    "\<And>c. c < length secret \<Longrightarrow> length (polys ! c) = t \<and> hd (polys ! c) = secret ! c"
    using BuildPolynomials_shape[of draw secret "t - 1" g] t(1) by (simp_all add: polys_def)
  have Slt: "\<forall>i\<in>set S. i < N" using S(3) by auto
  have Sne: "S \<noteq> []" using S(2) t(1) by auto
  have row: "rows ! k = map (\<lambda>coeffs. Evaluate coeffs (xs ! k)) polys" if "k < length S" for k
    using that Slt by (simp add: rows_def shares_def xs_def)
  have lens: "length rows = length S" "length xs = length S" by (simp_all add: rows_def xs_def)
  have rowlen: "length r = length secret" if "r \<in> set rows" for r
    using that row shape(1) by (auto simp: in_set_conv_nth lens)
  have r0: "length (rows ! 0) = length secret" using row[of 0] Sne shape(1) by simp
  have rec: "Reconstruct t xs rows = Inr (map (reconstruct_component xs rows) [0..<length secret])"
    using lens S(2) Sne rowlen r0 by (auto simp: Reconstruct_def)
  have "map (reconstruct_component xs rows) [0..<length secret] = secret"
  proof (rule nth_equalityI)
    show "length (map (reconstruct_component xs rows) [0..<length secret]) = length secret" by simp
  next
    fix c assume "c < length (map (reconstruct_component xs rows) [0..<length secret])"
    then have c: "c < length secret" by simp
    have "unat (secret ! c) < PM"
      using secret c by (simp add: word_less_nat_alt unat_kModulus)
    moreover have "\<forall>k<length S. rows ! k ! c = Evaluate (polys ! c) (xs ! k)"
      using row c shape(1) by simp
    ultimately have "reconstruct_component xs rows c = hd (polys ! c)"
      unfolding xs_def
      using S(1) Slt N Sne lens(1) shape(2)[OF c] S(2) t(1)
      by (intro reconstruct_component_correct[where N=N]) (auto simp: unat_kModulus xs_def)
    then show "map (reconstruct_component xs rows) [0..<length secret] ! c = secret ! c"
      using c shape(2)[OF c] by simp
  qed
  then show ?thesis using sv rec unfolding xs_def rows_def by auto
qed

text \<open>
  Claim C4. For every secret vector with components in \<open>[0, p)\<close>, every threshold
  \<open>1 \<le> t \<le> N\<close>, every generator state \<open>g\<close> (and every behaviour \<open>draw\<close> of the uniform
  distribution) and every choice \<open>S\<close> of \<open>t\<close> distinct participants out of \<open>N\<close>:
  \<open>ShareVector\<close> returns a share grid, and \<open>Reconstruct\<close> applied to the x-coordinates
  \<open>i + 1\<close> (\<open>i\<close> in \<open>S\<close>) and the corresponding rows returns the secret vector exactly.
  The grid holds \<open>N\<close> rows in memory, so \<open>N\<close> is below the modulus \<open>2^61 - 1\<close>: this is the
  hypothesis \<open>N < unat kModulus\<close> (two participants whose indices differ by \<open>p\<close> would
  share an abscissa).
\<close>

theorem Shamir_roundtrip:
  assumes t: "1 \<le> t" "t \<le> N" and N: "N < unat kModulus"
    and secret: "\<forall>s\<in>set secret. s < kModulus"
    and S: "distinct S" "length S = t" "set S \<subseteq> {0..<N}"
  shows "\<exists>shares g'. ShareVector draw t N secret g = Inr (shares, g') \<and>
           Reconstruct t (map (\<lambda>i. of_nat (i + 1)) S) (map (\<lambda>i. shares ! i) S) = Inr secret"
  using assms by (rule ShareVector_Reconstruct)

theorem Shamir_roundtrip_witness:
  "(1::nat) \<le> 2 \<and> (2::nat) \<le> 3 \<and> 3 < unat kModulus \<and> (5::u64) < kModulus
   \<and> distinct [0::nat, 2]
   \<and> (\<exists>shares g'. ShareVector (\<lambda>g::nat. (of_nat g, Suc g)) 2 3 [5] 7 = Inr (shares, g')
          \<and> Reconstruct 2 (map (\<lambda>i. of_nat (i + 1)) [0, 2]) (map (\<lambda>i. shares ! i) [0, 2]) = Inr [5])"
  using Shamir_roundtrip[of 2 3 "[5]" "[0, 2]" "\<lambda>g::nat. (of_nat g, Suc g)" 7]
  by (simp add: kModulus_def)

lemma bit_drop_1: "bit (drop_bit 1 (x :: u8)) n \<longleftrightarrow> bit x (Suc n)"
  by (simp only: bit_drop_bit_eq o_apply plus_1_eq_Suc)

lemma set_lsb_drop:
  fixes b v :: u8
  assumes "v AND 1 = v"
  shows "drop_bit 1 ((b AND 0xFE) OR v) = drop_bit 1 b"
proof (rule bit_word_eqI)
  fix n assume "n < LENGTH(8)"
  have v: "\<not> bit v (Suc n)"
    using assms by (metis bit_and_iff bit_1_iff nat.simps(3))
  have fe: "(0xFE :: u8) = - 2" by simp
  have m2: "bit (- 2 :: u8) (Suc n) \<longleftrightarrow> Suc n < 8"
    by (simp only: bit_minus_2_iff possible_bit_word) simp
  have "bit ((b AND - 2) OR v) (Suc n) \<longleftrightarrow> bit b (Suc n)"
    using v m2 bit_imp_le_length[of b "Suc n"]
    by (simp only: bit_or_iff bit_and_iff) auto
  then show "bit (drop_bit 1 ((b AND 0xFE) OR v)) n \<longleftrightarrow> bit (drop_bit 1 b) n"
    by (simp only: bit_drop_1 fe)
qed

lemma set_lsb_and:
  fixes b v :: u8
  assumes "v AND 1 = v"
  shows "((b AND 0xFE) OR v) AND 1 = v"
proof -
  have "(0xFE :: u8) AND 1 = 0" by simp
  then have "(b AND 0xFE) AND 1 = 0" by (metis and.assoc and_zero_eq)
  then show ?thesis using assms by (simp add: bit.conj_disj_distrib2)
qed

lemma and_1_idem: "((x :: u8) AND 1) AND 1 = x AND 1"
  by (simp add: and.assoc)

lemma fold_update_low:
  "length (fold (\<lambda>i bs. if i \<ge> length bs then bs else bs[i := f i (bs ! i)]) [0..<n] xs) = length xs
   \<and> (\<forall>j<length xs. fold (\<lambda>i bs. if i \<ge> length bs then bs else bs[i := f i (bs ! i)]) [0..<n] xs ! j
          = (if j < n then f j (xs ! j) else xs ! j))"
proof (induction n)
  case 0
  then show ?case by simp
next
  case (Suc n)
  then show ?case by (auto simp: nth_list_update less_Suc_eq)
qed

lemma fold_update_off:
  "n + off \<le> length xs \<Longrightarrow>
   length (fold (\<lambda>i bs. bs[i + off := f i (bs ! (i + off))]) [0..<n] xs) = length xs
   \<and> (\<forall>j<length xs. fold (\<lambda>i bs. bs[i + off := f i (bs ! (i + off))]) [0..<n] xs ! j
          = (if off \<le> j \<and> j < off + n then f (j - off) (xs ! j) else xs ! j))"
proof (induction n)
  case 0
  then show ?case by auto
next
  case (Suc n)
  then show ?case by (auto simp: nth_list_update less_Suc_eq)
qed

lemma is_bit_and_1: "is_bit (x AND 1)"
  by (simp add: is_bit_def and.assoc)

lemma bytes_to_bits_is_bit: "v \<in> set (bytes_to_bits bs) \<Longrightarrow> is_bit v"
  by (auto simp: bytes_to_bits_def is_bit_and_1 simp del: upt_rec_numeral)

lemma length_bytes_to_bits: "length (bytes_to_bits bs) = 8 * length bs"
  by (induction bs) (simp_all add: bytes_to_bits_def)

lemma length_PackMetadata: "length (PackMetadata m) = 24"
  by (simp add: PackMetadata_def write_u32_def write_u64_def)

lemma length_image_bits_loop: "length (image_bits_loop mt_next bs idxs g) = length idxs"
  by (induction idxs arbitrary: g) (simp_all add: Let_def split_beta)

lemma image_bits_loop_is_bit: "v \<in> set (image_bits_loop mt_next bs idxs g) \<Longrightarrow> is_bit v"
  by (induction idxs arbitrary: g) (auto simp: Let_def split_beta is_bit_and_1)

lemma length_meta_bits: "length (meta_bits m) = 192"
  by (simp add: meta_bits_def length_bytes_to_bits length_PackMetadata)

lemma meta_bits_is_bit: "k < 192 \<Longrightarrow> is_bit (meta_bits m ! k)"
  using bytes_to_bits_is_bit[of "meta_bits m ! k" "PackMetadata m"] length_meta_bits[of m]
  by (simp add: meta_bits_def)

lemma InjectMetadata_bytes:
  "length (bytes (InjectMetadata p m)) = length (bytes p)"
  "j < length (bytes p) \<Longrightarrow>
     bytes (InjectMetadata p m) ! j
       = (if j < 768 then (bytes p ! j AND 0xFE) OR meta_bits m ! (j div 4) else bytes p ! j)"
  "height (InjectMetadata p m) = height p"
  "width (InjectMetadata p m) = width p"
  "channels (InjectMetadata p m) = channels p"
  unfolding InjectMetadata_def Let_def kMetadataBits_def kMetadataBytes_def
        kMetadataRepeat_def meta_bits_def
  using fold_update_low[of "\<lambda>slot b. (b AND 0xFE) OR bytes_to_bits (PackMetadata m) ! (slot div 4)" 768 "bytes p"]
  by (simp_all del: upt_rec_numeral)

lemma ImageEmbed_char:
  assumes big: "768 < height p * width p * channels p"
    and buf: "unat (height p * width p * channels p) \<le> length (bytes p)"
  shows "\<exists>res. ImageEmbed mt_seed mt_next p key seed = Inr res
      \<and> metadata res = embed_meta key seed p
      \<and> fingerprint_bits res = embed_fbits mt_seed mt_next key seed p
      \<and> length (bytes (payload res)) = length (bytes p)
      \<and> height (payload res) = height p \<and> width (payload res) = width p
      \<and> channels (payload res) = channels p
      \<and> (\<forall>j<length (bytes p). bytes (payload res) ! j =
            (if j < 768 then (bytes p ! j AND 0xFE) OR meta_bits (embed_meta key seed p) ! (j div 4)
             else if j < unat (height p * width p * channels p)
             then (bytes p ! j AND 0xFE) OR embed_fbits mt_seed mt_next key seed p ! (j - 768)
             else bytes p ! j))"
proof -
  define total where "total = unat (height p * width p * channels p)"
  define meta where "meta = embed_meta key seed p"
  define fbits where "fbits = embed_fbits mt_seed mt_next key seed p"
  have t768: "768 < total"
    using big unfolding total_def by (simp add: word_less_nat_alt)
  have ne: "bytes p \<noteq> []" using t768 buf by (auto simp: total_def)
  have nz: "width p * height p * channels p \<noteq> 0"
    using big by (auto simp: mult.commute)
  have nle: "\<not> height p * width p * channels p \<le> of_nat kMetadataPayloadBits"
    using big by (simp add: kMetadataPayloadBits_def kMetadataBits_def kMetadataBytes_def
        kMetadataRepeat_def not_le)
  have cb: "ImageComputeCombinedBits mt_seed mt_next p 768 seed (StableHash key) = Inr fbits"
    using t768 buf by (simp add: ImageComputeCombinedBits_def total_def fbits_def embed_fbits_def Let_def)
  define w where "w = InjectMetadata p meta"
  define marked where "marked = fold (\<lambda>i bs. bs[i + 768 := (bs ! (i + 768) AND 0xFE) OR fbits ! i])
      [0..<total - 768] (bytes w)"
  have lw: "length (bytes w) = length (bytes p)" by (simp add: w_def InjectMetadata_bytes)
  have off: "(total - 768) + 768 \<le> length (bytes w)" using t768 buf lw by (simp add: total_def)
  note m = fold_update_off[OF off, of "\<lambda>i b. (b AND 0xFE) OR fbits ! i", folded marked_def]
  have res: "ImageEmbed mt_seed mt_next p key seed
      = Inr \<lparr>payload = w\<lparr>bytes := marked\<rparr>, metadata = meta, fingerprint_bits = fbits\<rparr>"
    using ne nz nle cb
    by (simp add: ImageEmbed_def Let_def kMetadataPayloadBits_def kMetadataBits_def
        kMetadataBytes_def kMetadataRepeat_def meta_def embed_meta_def w_def marked_def total_def)
  have nth: "marked ! j = (if j < 768 then (bytes p ! j AND 0xFE) OR meta_bits meta ! (j div 4)
             else if j < total then (bytes p ! j AND 0xFE) OR fbits ! (j - 768)
             else bytes p ! j)" if "j < length (bytes p)" for j
    using m that lw t768 by (auto simp: w_def InjectMetadata_bytes)
  show ?thesis
    unfolding res total_def[symmetric] meta_def[symmetric] fbits_def[symmetric]
    using m lw nth by (simp add: w_def InjectMetadata_bytes)
qed

lemma embed_fbits_is_bit:
  "k < unat (height p * width p * channels p) - 768 \<Longrightarrow> is_bit (embed_fbits mt_seed mt_next key seed p ! k)"
  unfolding embed_fbits_def
  by (rule image_bits_loop_is_bit[OF nth_mem]) (simp add: length_image_bits_loop)

text \<open>
  Claim C8. For every image payload with \<open>height * width * channels > 768\<close> and a byte buffer
  of at least that size, every key and state seed: \<open>Embed\<close> returns a payload whose buffer
  has the same length, the same height, width and channels, and each output byte agrees
  with the input byte on all bits except possibly the least significant one
  (\<open>out >> 1 = in >> 1\<close>).
\<close>

theorem ImageEmbed_frame:
  assumes "768 < height p * width p * channels p"
    and "unat (height p * width p * channels p) \<le> length (bytes p)"
  shows "\<exists>res. ImageEmbed mt_seed mt_next p key seed = Inr res
      \<and> length (bytes (payload res)) = length (bytes p)
      \<and> height (payload res) = height p \<and> width (payload res) = width p
      \<and> channels (payload res) = channels p
      \<and> (\<forall>i<length (bytes p). drop_bit 1 (bytes (payload res) ! i) = drop_bit 1 (bytes p ! i))"
proof -
  obtain res where res: "ImageEmbed mt_seed mt_next p key seed = Inr res"
      "length (bytes (payload res)) = length (bytes p)"
      "height (payload res) = height p" "width (payload res) = width p"
      "channels (payload res) = channels p"
      "\<forall>j<length (bytes p). bytes (payload res) ! j =
            (if j < 768 then (bytes p ! j AND 0xFE) OR meta_bits (embed_meta key seed p) ! (j div 4)
             else if j < unat (height p * width p * channels p)
             then (bytes p ! j AND 0xFE) OR embed_fbits mt_seed mt_next key seed p ! (j - 768)
             else bytes p ! j)"
    using ImageEmbed_char[OF assms, of mt_seed mt_next key seed] by blast
  have "drop_bit 1 (bytes (payload res) ! i) = drop_bit 1 (bytes p ! i)" if "i < length (bytes p)" for i
  proof -
    consider "i < 768" | "768 \<le> i" "i < unat (height p * width p * channels p)"
      | "unat (height p * width p * channels p) \<le> i" by linarith
    then show ?thesis
    proof cases
      case 1
      then have "is_bit (meta_bits (embed_meta key seed p) ! (i div 4))"
        by (intro meta_bits_is_bit) simp
      moreover have "bytes (payload res) ! i
          = (bytes p ! i AND 0xFE) OR meta_bits (embed_meta key seed p) ! (i div 4)"
        using res(6) that 1 by simp
      ultimately show ?thesis unfolding is_bit_def by (simp only: set_lsb_drop)
    next
      case 2
      then have "is_bit (embed_fbits mt_seed mt_next key seed p ! (i - 768))"
        by (intro embed_fbits_is_bit) simp
      moreover have "bytes (payload res) ! i
          = (bytes p ! i AND 0xFE) OR embed_fbits mt_seed mt_next key seed p ! (i - 768)"
        using res(6) that 2 by simp
      ultimately show ?thesis unfolding is_bit_def by (simp only: set_lsb_drop)
    next
      case 3
      then show ?thesis using res(6) that assms(1) by (simp add: word_less_nat_alt)
    qed
  qed
  then show ?thesis using res(1-5) by blast
qed

lemma mask8_32: "(0xFF :: u32) = mask 8" and mask8_64: "(0xFF :: u64) = mask 8"
  by (simp_all add: mask_eq_exp_minus_1)

lemma upt8: "[0..<8::nat] = [0, 1, 2, 3, 4, 5, 6, 7]"
  by (simp add: upt_conv_Cons)

lemma upt4: "[0..<4::nat] = [0, 1, 2, 3]"
  by (simp add: upt_conv_Cons)

lemma byte_step:
  fixes v :: "'a::len word"
  assumes "8 \<le> LENGTH('a)"
  shows "push_bit 8 (drop_bit (k + 8) v) OR ucast (ucast (drop_bit k v AND mask 8) :: u8) = drop_bit k v"
proof (rule bit_word_eqI)
  fix n assume n: "n < LENGTH('a)"
  show "bit (push_bit 8 (drop_bit (k + 8) v) OR ucast (ucast (drop_bit k v AND mask 8) :: u8)) n
      \<longleftrightarrow> bit (drop_bit k v) n"
  proof (cases "n < 8")
    case True
    then show ?thesis using n assms by (auto simp: bit_simps)
  next
    case False
    then have "k + 8 + (n - 8) = k + n" by simp
    then show ?thesis using n False by (auto simp: bit_simps)
  qed
qed

lemma byte_top:
  fixes v :: "'a::len word"
  assumes "8 \<le> LENGTH('a)" "k + 8 = LENGTH('a)"
  shows "ucast (ucast (drop_bit k v AND mask 8) :: u8) = drop_bit k v"
proof -
  have "drop_bit (k + 8) v = 0" using assms(2) by (simp add: drop_bit_word_beyond)
  then show ?thesis using byte_step[OF assms(1), of k v] by simp
qed

lemma read_write_u32: "read_u32 (write_u32 v @ rest) = v"
proof -
  have b3: "(ucast (ucast (drop_bit 24 v AND mask 8) :: u8) :: u32) = drop_bit 24 v"
    by (rule byte_top) simp_all
  have b2: "push_bit 8 (drop_bit 24 v) OR ucast (ucast (drop_bit 16 v AND mask 8) :: u8) = drop_bit 16 v"
    using byte_step[of 16 v] by simp
  have b1: "push_bit 8 (drop_bit 16 v) OR ucast (ucast (drop_bit 8 v AND mask 8) :: u8) = drop_bit 8 v"
    using byte_step[of 8 v] by simp
  have b0: "push_bit 8 (drop_bit 8 v) OR ucast (ucast (v AND mask 8) :: u8) = v"
    using byte_step[of 0 v] by simp
  have "push_bit 8 (push_bit 8 (push_bit 8 (ucast (ucast (drop_bit 24 v AND mask 8) :: u8))
          OR ucast (ucast (drop_bit 16 v AND mask 8) :: u8))
          OR ucast (ucast (drop_bit 8 v AND mask 8) :: u8))
          OR ucast (ucast (v AND mask 8) :: u8) = v"
    by (simp only: b3 b2 b1 b0)
  then show ?thesis
    unfolding read_u32_def write_u32_def mask8_32
    by (simp add: push_bit_or or.assoc)
qed

lemma read_write_u64: "read_u64 (write_u64 v @ rest) = v"
proof -
  have b7: "(ucast (ucast (drop_bit 56 v AND mask 8) :: u8) :: u64) = drop_bit 56 v"
    by (rule byte_top) simp_all
  have b6: "push_bit 8 (drop_bit 56 v) OR ucast (ucast (drop_bit 48 v AND mask 8) :: u8) = drop_bit 48 v"
    using byte_step[of 48 v] by simp
  have b5: "push_bit 8 (drop_bit 48 v) OR ucast (ucast (drop_bit 40 v AND mask 8) :: u8) = drop_bit 40 v"
    using byte_step[of 40 v] by simp
  have b4: "push_bit 8 (drop_bit 40 v) OR ucast (ucast (drop_bit 32 v AND mask 8) :: u8) = drop_bit 32 v"
    using byte_step[of 32 v] by simp
  have b3: "push_bit 8 (drop_bit 32 v) OR ucast (ucast (drop_bit 24 v AND mask 8) :: u8) = drop_bit 24 v"
    using byte_step[of 24 v] by simp
  have b2: "push_bit 8 (drop_bit 24 v) OR ucast (ucast (drop_bit 16 v AND mask 8) :: u8) = drop_bit 16 v"
    using byte_step[of 16 v] by simp
  have b1: "push_bit 8 (drop_bit 16 v) OR ucast (ucast (drop_bit 8 v AND mask 8) :: u8) = drop_bit 8 v"
    using byte_step[of 8 v] by simp
  have b0: "push_bit 8 (drop_bit 8 v) OR ucast (ucast (v AND mask 8) :: u8) = v"
    using byte_step[of 0 v] by simp
  have "push_bit 8 (push_bit 8 (push_bit 8 (push_bit 8 (push_bit 8 (push_bit 8 (push_bit 8
          (ucast (ucast (drop_bit 56 v AND mask 8) :: u8))
          OR ucast (ucast (drop_bit 48 v AND mask 8) :: u8))
          OR ucast (ucast (drop_bit 40 v AND mask 8) :: u8))
          OR ucast (ucast (drop_bit 32 v AND mask 8) :: u8))
          OR ucast (ucast (drop_bit 24 v AND mask 8) :: u8))
          OR ucast (ucast (drop_bit 16 v AND mask 8) :: u8))
          OR ucast (ucast (drop_bit 8 v AND mask 8) :: u8))
          OR ucast (ucast (v AND mask 8) :: u8) = v"
    by (simp only: b7 b6 b5 b4 b3 b2 b1 b0)
  then show ?thesis
    unfolding read_u64_def write_u64_def mask8_64 upt8
    by (simp add: push_bit_or or.assoc)
qed

lemma Unpack_Pack: "UnpackMetadata (PackMetadata m) = Some m"
proof -
  have l4: "length (write_u32 v) = 4" for v by (simp add: write_u32_def)
  have l8: "length (write_u64 v) = 8" for v by (simp add: write_u64_def)
  show ?thesis
    unfolding UnpackMetadata_def PackMetadata_def
    using read_write_u32[of "version m" "write_u64 (state_seed m) @ write_u64 (key_hash m)
          @ write_u32 (fingerprint_length m)"]
      read_write_u64[of "state_seed m" "write_u64 (key_hash m) @ write_u32 (fingerprint_length m)"]
      read_write_u64[of "key_hash m" "write_u32 (fingerprint_length m)"]
      read_write_u32[of "fingerprint_length m" "[]"]
    by (simp add: l4 l8)
qed

lemma pack_range_empty: "hi \<le> lo \<Longrightarrow> pack_range bits lo hi = 0"
  by (simp add: pack_range_def)

lemma pack_range_Suc:
  "lo \<le> n \<Longrightarrow> pack_range bits lo (Suc n) = push_bit 1 (pack_range bits lo n) OR (bits ! n AND 1)"
  by (simp add: pack_range_def)

lemma bits_to_bytes_inv:
  "n \<le> 192 \<Longrightarrow>
   length (fold (\<lambda>i bs. bs[i div 8 := push_bit 1 (bs ! (i div 8)) OR (bits ! i AND 1)])
             [0..<n] (replicate 24 0)) = 24
   \<and> (\<forall>j<24. fold (\<lambda>i bs. bs[i div 8 := push_bit 1 (bs ! (i div 8)) OR (bits ! i AND 1)])
                  [0..<n] (replicate 24 0) ! j
              = pack_range bits (8 * j) (min (8 * j + 8) n))"
proof (induction n)
  case 0
  then show ?case by (simp add: pack_range_empty)
next
  case (Suc n)
  define R where "R = fold (\<lambda>i bs. bs[i div 8 := push_bit 1 (bs ! (i div 8)) OR (bits ! i AND 1)])
             [0..<n] (replicate 24 0)"
  have IH: "length R = 24" "\<And>j. j < 24 \<Longrightarrow> R ! j = pack_range bits (8 * j) (min (8 * j + 8) n)"
    using Suc by (simp_all add: R_def)
  have j0: "n div 8 < 24" using Suc.prems by simp
  have step: "fold (\<lambda>i bs. bs[i div 8 := push_bit 1 (bs ! (i div 8)) OR (bits ! i AND 1)])
             [0..<Suc n] (replicate 24 0) = R[n div 8 := push_bit 1 (R ! (n div 8)) OR (bits ! n AND 1)]"
    by (simp add: R_def)
  have "R[n div 8 := push_bit 1 (R ! (n div 8)) OR (bits ! n AND 1)] ! j
      = pack_range bits (8 * j) (min (8 * j + 8) (Suc n))" if j: "j < 24" for j
  proof (cases "j = n div 8")
    case True
    have lo: "8 * j \<le> n" and hi: "n < 8 * j + 8" unfolding True by presburger+
    have "min (8 * j + 8) (Suc n) = Suc n" "min (8 * j + 8) n = n" using hi by simp_all
    then show ?thesis
      using IH j lo by (simp add: True pack_range_Suc)
  next
    case False
    then consider "j < n div 8" | "n div 8 < j" by linarith
    then have "pack_range bits (8 * j) (min (8 * j + 8) (Suc n))
        = pack_range bits (8 * j) (min (8 * j + 8) n)"
    proof cases
      case 1
      then have "8 * j + 8 \<le> n" by presburger
      then show ?thesis by (simp add: min_def)
    next
      case 2
      then have "Suc n \<le> 8 * j" by presburger
      then show ?thesis by (simp add: pack_range_empty)
    qed
    then show ?thesis using IH j False by simp
  qed
  then show ?case unfolding step using IH(1) by simp
qed

lemma bits_to_bytes_nth:
  assumes "length bits = 192" "j < 24"
  shows "length (bits_to_bytes bits) = 24"
    and "bits_to_bytes bits ! j = pack_range bits (8 * j) (8 * j + 8)"
proof -
  have "min (8 * j + 8) 192 = 8 * j + 8" using assms(2) by simp
  then show "length (bits_to_bytes bits) = 24"
    and "bits_to_bytes bits ! j = pack_range bits (8 * j) (8 * j + 8)"
    using bits_to_bytes_inv[of 192 bits] assms by (simp_all add: bits_to_bytes_def)
qed

lemma nth_concat_fixed:
  "\<forall>x\<in>set xss. length x = k \<Longrightarrow> j < length xss \<Longrightarrow> r < k \<Longrightarrow> concat xss ! (k * j + r) = xss ! j ! r"
proof (induction xss arbitrary: j)
  case Nil
  then show ?case by simp
next
  case (Cons xs xss)
  show ?case
  proof (cases j)
    case 0
    then show ?thesis using Cons.prems by (simp add: nth_append)
  next
    case (Suc j')
    then have "k * j + r = k + (k * j' + r)" by simp
    then show ?thesis using Cons Suc by (simp add: nth_append del: mult_Suc_right)
  qed
qed

lemma bytes_to_bits_nth:
  assumes "j < length bs" "r < 8"
  shows "bytes_to_bits bs ! (8 * j + r) = drop_bit (7 - r) (bs ! j) AND 1"
proof -
  have "bytes_to_bits bs ! (8 * j + r)
      = map (\<lambda>byte. map (\<lambda>bit. drop_bit bit byte AND 1) (rev [0..<8])) bs ! j ! r"
    unfolding bytes_to_bits_def using assms by (intro nth_concat_fixed) auto
  also have "\<dots> = drop_bit (rev [0..<8] ! r) (bs ! j) AND 1"
    using assms by simp
  also have "rev [0..<8] ! r = 7 - r"
    using assms(2) by (simp add: rev_nth)
  finally show ?thesis .
qed

lemma bit_step:
  fixes b :: u8
  assumes "k' = Suc k"
  shows "push_bit 1 (drop_bit k' b) OR (drop_bit k b AND 1) = drop_bit k b"
proof (rule bit_word_eqI)
  fix n assume n: "n < LENGTH(8)"
  show "bit (push_bit 1 (drop_bit k' b) OR (drop_bit k b AND 1)) n \<longleftrightarrow> bit (drop_bit k b) n"
  proof (cases n)
    case 0
    then show ?thesis
      by (simp only: bit_or_iff bit_and_iff bit_push_bit_iff bit_drop_bit_eq bit_1_iff o_apply) simp
  next
    case (Suc m)
    then have "k' + (n - 1) = k + n" using assms by simp
    then show ?thesis using n Suc
      by (simp only: bit_or_iff bit_and_iff bit_push_bit_iff bit_drop_bit_eq bit_1_iff o_apply)
         (auto simp: possible_bit_word)
  qed
qed

lemma pack8:
  fixes b :: u8
  shows "push_bit 1 (push_bit 1 (push_bit 1 (push_bit 1 (push_bit 1 (push_bit 1 (push_bit 1
           (drop_bit 7 b AND 1) OR (drop_bit 6 b AND 1)) OR (drop_bit 5 b AND 1))
           OR (drop_bit 4 b AND 1)) OR (drop_bit 3 b AND 1)) OR (drop_bit 2 b AND 1))
           OR (drop_bit 1 b AND 1)) OR (drop_bit 0 b AND 1) = b"
proof -
  have z: "drop_bit 8 b = 0" by (simp add: drop_bit_word_beyond)
  have "push_bit 1 (drop_bit 8 b) OR (drop_bit 7 b AND 1) = drop_bit 7 b"
    by (rule bit_step) simp
  then have b7: "drop_bit 7 b AND 1 = drop_bit 7 b" unfolding z by simp
  have b6: "push_bit 1 (drop_bit 7 b) OR (drop_bit 6 b AND 1) = drop_bit 6 b"
    by (rule bit_step) simp
  have b5: "push_bit 1 (drop_bit 6 b) OR (drop_bit 5 b AND 1) = drop_bit 5 b"
    by (rule bit_step) simp
  have b4: "push_bit 1 (drop_bit 5 b) OR (drop_bit 4 b AND 1) = drop_bit 4 b"
    by (rule bit_step) simp
  have b3: "push_bit 1 (drop_bit 4 b) OR (drop_bit 3 b AND 1) = drop_bit 3 b"
    by (rule bit_step) simp
  have b2: "push_bit 1 (drop_bit 3 b) OR (drop_bit 2 b AND 1) = drop_bit 2 b"
    by (rule bit_step) simp
  have b1: "push_bit 1 (drop_bit 2 b) OR (drop_bit 1 b AND 1) = drop_bit 1 b"
    by (rule bit_step) simp
  have b0: "push_bit 1 (drop_bit 1 b) OR (drop_bit 0 b AND 1) = drop_bit 0 b"
    by (rule bit_step) simp
  show ?thesis
    by (simp only: b7 b6 b5 b4 b3 b2 b1 b0) simp
qed

lemma pack_range_bytes_to_bits:
  assumes "j < length bs"
  shows "pack_range (bytes_to_bits bs) (8 * j) (8 * j + 8) = bs ! j"
proof -
  have u: "[8 * j..<8 * j + 8] = [8 * j + 0, 8 * j + 1, 8 * j + 2, 8 * j + 3, 8 * j + 4, 8 * j + 5,
      8 * j + 6, 8 * j + 7]"
    using map_add_upt[of "8 * j" 8] by (simp add: upt8 add.commute)
  have n: "bytes_to_bits bs ! (8 * j + 0) = drop_bit 7 (bs ! j) AND 1"
    "bytes_to_bits bs ! (8 * j + 1) = drop_bit 6 (bs ! j) AND 1"
    "bytes_to_bits bs ! (8 * j + 2) = drop_bit 5 (bs ! j) AND 1"
    "bytes_to_bits bs ! (8 * j + 3) = drop_bit 4 (bs ! j) AND 1"
    "bytes_to_bits bs ! (8 * j + 4) = drop_bit 3 (bs ! j) AND 1"
    "bytes_to_bits bs ! (8 * j + 5) = drop_bit 2 (bs ! j) AND 1"
    "bytes_to_bits bs ! (8 * j + 6) = drop_bit 1 (bs ! j) AND 1"
    "bytes_to_bits bs ! (8 * j + 7) = drop_bit 0 (bs ! j) AND 1"
    using bytes_to_bits_nth[OF assms, of 0] bytes_to_bits_nth[OF assms, of 1]
      bytes_to_bits_nth[OF assms, of 2] bytes_to_bits_nth[OF assms, of 3]
      bytes_to_bits_nth[OF assms, of 4] bytes_to_bits_nth[OF assms, of 5]
      bytes_to_bits_nth[OF assms, of 6] bytes_to_bits_nth[OF assms, of 7]
    by simp_all
  have z: "push_bit 1 (0 :: u8) OR x = x" for x by simp
  show ?thesis
    unfolding pack_range_def u
    by (simp only: fold_simps o_apply n and_1_idem z pack8)
qed

lemma bits_to_bytes_roundtrip:
  assumes "length bs = 24"
  shows "bits_to_bytes (bytes_to_bits bs) = bs"
proof (rule nth_equalityI)
  have l: "length (bytes_to_bits bs) = 192" using assms by (simp add: length_bytes_to_bits)
  show "length (bits_to_bytes (bytes_to_bits bs)) = length bs"
    using bits_to_bytes_nth(1)[OF l, of 0] assms by simp
  fix j assume "j < length (bits_to_bytes (bytes_to_bits bs))"
  then have j: "j < 24" using bits_to_bytes_nth(1)[OF l, of 0] by simp
  show "bits_to_bytes (bytes_to_bits bs) ! j = bs ! j"
    using bits_to_bytes_nth(2)[OF l j] pack_range_bytes_to_bits[of j bs] j assms by simp
qed

lemma meta_bits_roundtrip: "UnpackMetadata (bits_to_bytes (meta_bits m)) = Some m"
  by (simp add: meta_bits_def bits_to_bytes_roundtrip length_PackMetadata Unpack_Pack)

lemma is_bit_cases: "is_bit v \<longleftrightarrow> v = 0 \<or> v = 1"
proof
  assume "is_bit v"
  then have "v = v mod 2" by (simp add: is_bit_def and_one_eq)
  moreover have "unat (v mod 2) = unat v mod 2" by (simp add: unat_mod)
  ultimately have "unat v = unat v mod 2" by metis
  then have "unat v = 0 \<or> unat v = 1" by presburger
  then show "v = 0 \<or> v = 1" by (metis unat_eq_zero unat_1 word_unat_eq_iff)
next
  assume "v = 0 \<or> v = 1"
  then show "is_bit v" by (auto simp: is_bit_def)
qed

lemma majority_robust:
  assumes bits: "\<forall>j. is_bit (B j)"
    and mb: "is_bit m"
    and agree: "\<forall>r<4. 4 * b + r \<noteq> k \<longrightarrow> B (4 * b + r) = m"
  shows "majority_of B b = m"
proof -
  have c: "B j = 0 \<or> B j = 1" for j using bits by (simp add: is_bit_cases)
  have m: "m = 0 \<or> m = 1" using mb by (simp add: is_bit_cases)
  have a: "4 * b \<noteq> k \<Longrightarrow> B (4 * b) = m" "4 * b + 1 \<noteq> k \<Longrightarrow> B (4 * b + 1) = m"
    "4 * b + 2 \<noteq> k \<Longrightarrow> B (4 * b + 2) = m" "4 * b + 3 \<noteq> k \<Longrightarrow> B (4 * b + 3) = m"
    using agree[rule_format, of 0] agree[rule_format, of 1] agree[rule_format, of 2]
      agree[rule_format, of 3] by simp_all
  consider "k = 4 * b" | "k = 4 * b + 1" | "k = 4 * b + 2" | "k = 4 * b + 3"
    | "k \<noteq> 4 * b" "k \<noteq> 4 * b + 1" "k \<noteq> 4 * b + 2" "k \<noteq> 4 * b + 3" by blast
  then show ?thesis
  proof cases
    case 1
    then show ?thesis using a(2-4) c[of "4 * b"] m by (auto simp: majority_of_def)
  next
    case 2
    then show ?thesis using a(1,3,4) c[of "4 * b + 1"] m by (auto simp: majority_of_def)
  next
    case 3
    then show ?thesis using a(1,2,4) c[of "4 * b + 2"] m by (auto simp: majority_of_def)
  next
    case 4
    then show ?thesis using a(1-3) c[of "4 * b + 3"] m by (auto simp: majority_of_def)
  next
    case 5
    then show ?thesis using a m by (auto simp: majority_of_def)
  qed
qed

lemma kMetadata_values:
  "kMetadataPayloadBits = 768" "kMetadataBits = 192" "kMetadataRepeat = 4" "kMetadataBytes = 24"
  by (simp_all add: kMetadataPayloadBits_def kMetadataBits_def kMetadataBytes_def kMetadataRepeat_def)

lemma ExtractMetadata_majority:
  assumes "768 \<le> length (bytes q)"
  shows "ExtractMetadata q =
    (case UnpackMetadata (bits_to_bytes (map (majority_of (\<lambda>j. bytes q ! j AND 1)) [0..<192])) of
       Some meta \<Rightarrow> (meta, True) | None \<Rightarrow> (Metadata_default, False))"
proof -
  have e: "map (\<lambda>bit. if 4 div 2 < fold (\<lambda>rep ones.
                                  if bit * 4 + rep < length (map (\<lambda>i. bytes q ! i AND 1) [0..<768])
                                     then ones + unat (map (\<lambda>i. bytes q ! i AND 1) [0..<768] ! (bit * 4 + rep) AND 1)
                                     else ones)
                                [0..<4] 0
                     then (1::u8) else 0) [0..<192]
      = map (majority_of (\<lambda>j. bytes q ! j AND 1)) [0..<192]"
  proof (rule map_cong[OF refl])
    fix b assume "b \<in> set [0..<192]"
    then have b: "b < 192" by simp
    then have s: "b * 4 + r < 768" if "r < 4" for r using that by simp
    show "(if 4 div 2 < fold (\<lambda>rep ones.
                                  if b * 4 + rep < length (map (\<lambda>i. bytes q ! i AND 1) [0..<768])
                                     then ones + unat (map (\<lambda>i. bytes q ! i AND 1) [0..<768] ! (b * 4 + rep) AND 1)
                                     else ones)
                                [0..<4] 0
                     then (1::u8) else 0) = majority_of (\<lambda>j. bytes q ! j AND 1) b"
      unfolding upt4 majority_of_def
      using s[of 0] s[of 1] s[of 2] s[of 3]
      by (simp add: and_1_idem mult.commute del: upt_rec_numeral)
  qed
  have "\<not> length (bytes q) < 768" using assms by simp
  then show ?thesis
    unfolding ExtractMetadata_def Let_def kMetadata_values
    by (simp only: e if_False)
qed

lemma ExtractMetadata_robust:
  assumes len: "768 \<le> length (bytes q)"
    and agree: "\<forall>j<768. j \<noteq> k \<longrightarrow> bytes q ! j AND 1 = meta_bits m ! (j div 4)"
  shows "ExtractMetadata q = (m, True)"
proof -
  have "map (majority_of (\<lambda>j. bytes q ! j AND 1)) [0..<192] = meta_bits m"
  proof (rule nth_equalityI)
    show "length (map (majority_of (\<lambda>j. bytes q ! j AND 1)) [0..<192]) = length (meta_bits m)"
      by (simp add: length_meta_bits)
    fix b assume "b < length (map (majority_of (\<lambda>j. bytes q ! j AND 1)) [0..<192])"
    then have b: "b < 192" by simp
    have "majority_of (\<lambda>j. bytes q ! j AND 1) b = meta_bits m ! b"
    proof (rule majority_robust[where k=k])
      show "\<forall>j. is_bit (bytes q ! j AND 1)" by (simp add: is_bit_and_1)
      show "is_bit (meta_bits m ! b)" using b by (rule meta_bits_is_bit)
      show "\<forall>r<4. 4 * b + r \<noteq> k \<longrightarrow> bytes q ! (4 * b + r) AND 1 = meta_bits m ! b"
      proof (intro allI impI)
        fix r :: nat assume r: "r < 4" "4 * b + r \<noteq> k"
        have "4 * b + r < 768" "(4 * b + r) div 4 = b" using b r(1) by simp_all
        then show "bytes q ! (4 * b + r) AND 1 = meta_bits m ! b" using agree r(2) by metis
      qed
    qed
    then show "map (majority_of (\<lambda>j. bytes q ! j AND 1)) [0..<192] ! b = meta_bits m ! b"
      using b by (simp del: upt_rec_numeral)
  qed
  then show ?thesis
    unfolding ExtractMetadata_majority[OF len] by (simp add: meta_bits_roundtrip)
qed

lemma meta_bits_default: "meta_bits Metadata_default = replicate 31 0 @ [1] @ replicate 160 0"
  by code_simp

lemma header_lsbs:
  assumes "j < 768"
  shows "header_bytes ! j AND 1 = meta_bits Metadata_default ! (j div 4)"
proof -
  consider "j < 124" | "124 \<le> j" "j < 128" | "128 \<le> j" by linarith
  then show ?thesis
  proof cases
    case 1
    then have "j div 4 < 31" by simp
    then show ?thesis using 1 by (simp add: header_bytes_def meta_bits_default nth_append)
  next
    case 2
    then have "j div 4 = 31" by simp
    then show ?thesis using 2 by (simp add: header_bytes_def meta_bits_default nth_append)
  next
    case 3
    then have "32 \<le> j div 4" "j div 4 < 192" using assms by simp_all
    then show ?thesis using 3 assms
      by (simp add: header_bytes_def meta_bits_default nth_append nth_Cons')
  qed
qed

lemma ExtractMetadata_header:
  assumes "bytes q = header_bytes"
  shows "ExtractMetadata q = (Metadata_default, True)"
  by (rule ExtractMetadata_robust[where k = 768]) (simp_all add: assms header_lsbs, simp add: header_bytes_def)

lemma ExtractMetadata_flipped:
  assumes big: "768 < height p * width p * channels p"
    and buf: "unat (height p * width p * channels p) \<le> length (bytes p)"
    and res: "ImageEmbed mt_seed mt_next p key seed = Inr res"
  shows "ExtractMetadata (flip_lsb (payload res) k) = (metadata res, True)"
proof -
  obtain res' where r: "ImageEmbed mt_seed mt_next p key seed = Inr res'"
      "metadata res' = embed_meta key seed p"
      "length (bytes (payload res')) = length (bytes p)"
      "\<forall>j<length (bytes p). bytes (payload res') ! j =
            (if j < 768 then (bytes p ! j AND 0xFE) OR meta_bits (embed_meta key seed p) ! (j div 4)
             else if j < unat (height p * width p * channels p)
             then (bytes p ! j AND 0xFE) OR embed_fbits mt_seed mt_next key seed p ! (j - 768)
             else bytes p ! j)"
    using ImageEmbed_char[OF big buf, of mt_seed mt_next key seed] by blast
  have eq: "res' = res" using r(1) res by simp
  have t768: "768 < unat (height p * width p * channels p)"
    using big by (simp add: word_less_nat_alt)
  then have len: "768 \<le> length (bytes p)" using buf by simp
  show ?thesis
  proof (rule ExtractMetadata_robust[where k = k])
    show "768 \<le> length (bytes (flip_lsb (payload res) k))"
      using len r(3) eq by (simp add: flip_lsb_def)
    show "\<forall>j<768. j \<noteq> k \<longrightarrow>
        bytes (flip_lsb (payload res) k) ! j AND 1 = meta_bits (metadata res) ! (j div 4)"
    proof (intro allI impI)
      fix j :: nat assume j: "j < 768" "j \<noteq> k"
      have "is_bit (meta_bits (embed_meta key seed p) ! (j div 4))"
        using j(1) by (intro meta_bits_is_bit) simp
      moreover have "bytes (payload res) ! j
          = (bytes p ! j AND 0xFE) OR meta_bits (embed_meta key seed p) ! (j div 4)"
        using r(4) j(1) len eq by simp
      ultimately have "bytes (payload res) ! j AND 1 = meta_bits (embed_meta key seed p) ! (j div 4)"
        unfolding is_bit_def by (simp only: set_lsb_and)
      then show "bytes (flip_lsb (payload res) k) ! j AND 1 = meta_bits (metadata res) ! (j div 4)"
        using j(2) r(2) eq by (simp add: flip_lsb_def)
    qed
  qed
qed

lemma fingerprint_length_le:
  fixes t :: u64
  assumes "768 < t"
  shows "\<not> (ucast (of_nat (unat t - 768) :: u32) :: u64) > t - 768"
proof -
  have "unat (ucast (of_nat (unat t - 768) :: u32) :: u64) = unat (of_nat (unat t - 768) :: u32)"
    by (simp add: unsigned_ucast_eq take_bit_nat_eq_self_iff
        order_less_trans[OF unsigned_less[where 'a=nat and 'b=32]])
  also have "\<dots> \<le> unat t - 768" by (simp add: unat_of_nat)
  also have "\<dots> = unat (t - 768)"
    using assms by (simp add: unat_sub word_less_nat_alt word_le_nat_alt)
  finally show ?thesis by (simp add: word_less_nat_alt)
qed

lemma image_bits_loop_cong:
  assumes "\<forall>i\<in>set idxs. bs ! i = bs' ! i"
  shows "image_bits_loop mt_next bs idxs g = image_bits_loop mt_next bs' idxs g"
  using assms by (induction idxs arbitrary: g) (simp_all add: Let_def split_beta)

lemma unat_fingerprint_length_le: "unat (of_nat n :: u32) \<le> n"
  by (simp add: unat_of_nat)

text \<open>
  \<open>Detect\<close> on an image with the dimensions of \<open>p\<close> whose header decodes to the metadata
  that \<open>Embed\<close> wrote for \<open>p\<close>: the result is the comparison of the extracted least
  significant bits with the bits recomputed from the decoded state seed and key hash.
\<close>

lemma ImageDetect_with_metadata:
  assumes big: "768 < height p * width p * channels p"
    and buf: "unat (height p * width p * channels p) \<le> length (bytes p)"
    and dims: "height q = height p" "width q = width p" "channels q = channels p"
      "length (bytes q) = length (bytes p)"
    and em: "ExtractMetadata q = (embed_meta key seed p, True)"
  shows "ImageDetect mt_seed mt_next q
     = Inr (score_bits
         (map (\<lambda>i. bytes q ! (i + 768) AND 1)
            [0..<unat (fingerprint_length (embed_meta key seed p))])
         (image_bits_loop mt_next (bytes q) [768..<unat (height p * width p * channels p)]
            (mt_seed (state_seed (embed_meta key seed p) XOR key_hash (embed_meta key seed p)))))"
proof -
  have t768: "768 < unat (height p * width p * channels p)"
    using big by (simp add: word_less_nat_alt)
  have ne: "bytes q \<noteq> []" using dims(4) t768 buf by auto
  have nz: "width p * height p * channels p \<noteq> 0" using big by (auto simp: mult.commute)
  have nle: "\<not> height p * width p * channels p \<le> 768" using big by (simp add: not_le)
  have fl: "\<not> (ucast (fingerprint_length (embed_meta key seed p)) :: u64)
      > height p * width p * channels p - 768"
    unfolding embed_meta_def using fingerprint_length_le[OF big] by simp
  have v: "version (embed_meta key seed p) = 1" by (simp add: embed_meta_def)
  have cb: "ImageComputeCombinedBits mt_seed mt_next q 768 (state_seed (embed_meta key seed p))
      (key_hash (embed_meta key seed p))
    = Inr (image_bits_loop mt_next (bytes q) [768..<unat (height p * width p * channels p)]
            (mt_seed (state_seed (embed_meta key seed p) XOR key_hash (embed_meta key seed p))))"
    using t768 buf dims by (simp add: ImageComputeCombinedBits_def Let_def)
  show ?thesis
    unfolding ImageDetect_def Let_def kMetadata_values dims em prod.case
    using ne nz nle fl v cb by simp
qed

text \<open>
  Claim C9. For every image payload with more than 768 samples (and a buffer that holds
  them), every key and state seed, and every index \<open>k < 768\<close>: after flipping the least
  significant bit of sample \<open>k\<close> of the embedded image, the majority vote over each group
  of four repeated bits still decodes the embedded metadata (state seed, key hash and
  fingerprint length), and \<open>Detect\<close> returns on the flipped image exactly what it returns
  on the embedded image: \<open>metadata_valid = true\<close>, \<open>total_bits\<close> equal to the embedded
  fingerprint length, and the comparison of the extracted bits with the bits recomputed
  from the embedded state seed and key hash.
\<close>

theorem metadata_survives_one_flip:
  assumes big: "768 < height p * width p * channels p"
    and buf: "unat (height p * width p * channels p) \<le> length (bytes p)"
    and k: "k < 768"
  shows "\<exists>res d. ImageEmbed mt_seed mt_next p key seed = Inr res
      \<and> state_seed (metadata res) = seed \<and> key_hash (metadata res) = StableHash key
      \<and> fingerprint_length (metadata res) = of_nat (unat (height p * width p * channels p) - 768)
      \<and> ExtractMetadata (flip_lsb (payload res) k) = (metadata res, True)
      \<and> ImageDetect mt_seed mt_next (flip_lsb (payload res) k) = Inr d
      \<and> ImageDetect mt_seed mt_next (payload res) = Inr d
      \<and> metadata_valid d
      \<and> total_bits d = unat (fingerprint_length (metadata res))
      \<and> d = score_bits
             (map (\<lambda>i. bytes (payload res) ! (i + 768) AND 1)
                [0..<unat (fingerprint_length (metadata res))])
             (image_bits_loop mt_next (bytes (payload res))
                [768..<unat (height p * width p * channels p)]
                (mt_seed (state_seed (metadata res) XOR key_hash (metadata res))))"
proof -
  obtain res where r: "ImageEmbed mt_seed mt_next p key seed = Inr res"
      "metadata res = embed_meta key seed p"
      "length (bytes (payload res)) = length (bytes p)"
      "height (payload res) = height p" "width (payload res) = width p"
      "channels (payload res) = channels p"
    using ImageEmbed_char[OF big buf, of mt_seed mt_next key seed] by blast
  define n where "n = unat (height p * width p * channels p)"
  define q where "q = payload res"
  define q' where "q' = flip_lsb (payload res) k"
  define fl where "fl = unat (fingerprint_length (embed_meta key seed p))"
  define ex where "ex = map (\<lambda>i. bytes q ! (i + 768) AND 1) [0..<fl]"
  define xp where "xp = image_bits_loop mt_next (bytes q) [768..<n]
      (mt_seed (state_seed (embed_meta key seed p) XOR key_hash (embed_meta key seed p)))"
  have em': "ExtractMetadata q' = (embed_meta key seed p, True)"
    unfolding q'_def r(2)[symmetric] using big buf r(1) by (rule ExtractMetadata_flipped)
  have lq: "length (bytes q) = length (bytes p)" using r(3) by (simp add: q_def)
  have "flip_lsb q (length (bytes q)) = q"
    by (cases q) (simp add: flip_lsb_def list_update_beyond)
  then have em: "ExtractMetadata q = (embed_meta key seed p, True)"
    using ExtractMetadata_flipped[OF big buf r(1), of "length (bytes q)"] r(2)
    by (simp add: q_def)
  have dims: "height q = height p" "width q = width p" "channels q = channels p"
      "length (bytes q) = length (bytes p)"
    using r by (simp_all add: q_def)
  have dims': "height q' = height p" "width q' = width p" "channels q' = channels p"
      "length (bytes q') = length (bytes p)"
    using r by (simp_all add: q'_def flip_lsb_def)
  have same: "bytes q' ! i = bytes q ! i" if "768 \<le> i" for i
    using that k by (simp add: q'_def q_def flip_lsb_def)
  have d: "ImageDetect mt_seed mt_next q = Inr (score_bits ex xp)"
    unfolding ex_def xp_def fl_def n_def
    by (rule ImageDetect_with_metadata[OF big buf dims em])
  have "ImageDetect mt_seed mt_next q'
     = Inr (score_bits
         (map (\<lambda>i. bytes q' ! (i + 768) AND 1) [0..<fl])
         (image_bits_loop mt_next (bytes q') [768..<n]
            (mt_seed (state_seed (embed_meta key seed p) XOR key_hash (embed_meta key seed p)))))"
    unfolding fl_def n_def by (rule ImageDetect_with_metadata[OF big buf dims' em'])
  moreover have "map (\<lambda>i. bytes q' ! (i + 768) AND 1) [0..<fl] = ex"
    unfolding ex_def by (rule map_cong[OF refl]) (simp add: same)
  moreover have "image_bits_loop mt_next (bytes q') [768..<n]
            (mt_seed (state_seed (embed_meta key seed p) XOR key_hash (embed_meta key seed p)))
      = xp"
    unfolding xp_def by (rule image_bits_loop_cong) (simp add: same)
  ultimately have d': "ImageDetect mt_seed mt_next q' = Inr (score_bits ex xp)"
    by (simp only:)
  have lens: "length ex = fl" "length xp = n - 768"
    by (simp_all add: ex_def xp_def length_image_bits_loop)
  have "fl \<le> n - 768"
    unfolding fl_def n_def embed_meta_def using unat_fingerprint_length_le by simp
  then have tb: "total_bits (score_bits ex xp) = fl" "metadata_valid (score_bits ex xp)"
    using lens by (simp_all add: score_bits_def Let_def)
  have meta: "state_seed (metadata res) = seed" "key_hash (metadata res) = StableHash key"
      "fingerprint_length (metadata res) = of_nat (unat (height p * width p * channels p) - 768)"
    using r(2) by (simp_all add: embed_meta_def)
  show ?thesis
    using r(1) meta em' d d' tb
    unfolding q_def q'_def ex_def xp_def fl_def n_def r(2)[symmetric]
    by (intro exI[of _ res] exI[of _ "score_bits ex xp"]) (simp add: ex_def xp_def fl_def n_def q_def r(2))
qed

theorem metadata_survives_one_flip_witness:
  "768 < height zero_image * width zero_image * channels zero_image
   \<and> unat (height zero_image * width zero_image * channels zero_image) \<le> length (bytes zero_image)
   \<and> (5::nat) < 768
   \<and> (\<exists>res d. ImageEmbed seed_id next_counter zero_image [] 7 = Inr res
      \<and> state_seed (metadata res) = 7 \<and> key_hash (metadata res) = StableHash []
      \<and> fingerprint_length (metadata res)
           = of_nat (unat (height zero_image * width zero_image * channels zero_image) - 768)
      \<and> ExtractMetadata (flip_lsb (payload res) 5) = (metadata res, True)
      \<and> ImageDetect seed_id next_counter (flip_lsb (payload res) 5) = Inr d
      \<and> ImageDetect seed_id next_counter (payload res) = Inr d
      \<and> metadata_valid d
      \<and> total_bits d = unat (fingerprint_length (metadata res))
      \<and> d = score_bits
             (map (\<lambda>i. bytes (payload res) ! (i + 768) AND 1)
                [0..<unat (fingerprint_length (metadata res))])
             (image_bits_loop next_counter (bytes (payload res))
                [768..<unat (height zero_image * width zero_image * channels zero_image)]
                (seed_id (state_seed (metadata res) XOR key_hash (metadata res)))))"
proof -
  have h: "768 < height zero_image * width zero_image * channels zero_image"
      "unat (height zero_image * width zero_image * channels zero_image) \<le> length (bytes zero_image)"
    by (simp_all add: zero_image_def)
  show ?thesis
    using metadata_survives_one_flip[OF h, of 5 seed_id next_counter "[]" 7] h by simp
qed

theorem ImageEmbed_frame_witness:
  "768 < height zero_image * width zero_image * channels zero_image
   \<and> unat (height zero_image * width zero_image * channels zero_image) \<le> length (bytes zero_image)
   \<and> (\<exists>res. ImageEmbed seed_id next_counter zero_image [] 7 = Inr res
      \<and> length (bytes (payload res)) = length (bytes zero_image)
      \<and> height (payload res) = height zero_image \<and> width (payload res) = width zero_image
      \<and> channels (payload res) = channels zero_image
      \<and> (\<forall>i<length (bytes zero_image).
            drop_bit 1 (bytes (payload res) ! i) = drop_bit 1 (bytes zero_image ! i)))"
  using ImageEmbed_frame[of zero_image seed_id next_counter "[]" 7]
  by (simp add: zero_image_def)

text \<open>
  Claim C10, as amended. For every image payload with a non-zero sample count
  \<open>height * width * channels\<close> whose first 768 least significant bits majority-decode to
  metadata with version 1, and whose sample count is at most 768 or whose decoded
  fingerprint length exceeds the sample count minus 768: \<open>Detect\<close> returns (without an
  error and without reading past the buffer) the result with \<open>metadata_valid = true\<close>,
  \<open>total_bits = 0\<close>, \<open>matching_bits = 0\<close>, \<open>score = 0.0\<close> and
  \<open>false_positive_rate = 1.0\<close>.
\<close>

theorem ImageDetect_degenerate:
  assumes nz: "width p * height p * channels p \<noteq> 0"
    and em: "ExtractMetadata p = (meta, True)"
    and v: "version meta = 1"
    and deg: "height p * width p * channels p \<le> 768
        \<or> (ucast (fingerprint_length meta) :: u64) > height p * width p * channels p - 768"
  shows "ImageDetect mt_seed mt_next p =
     Inr \<lparr>score = DConst 0, false_positive_rate = DConst 1, total_bits = 0, matching_bits = 0,
          metadata_valid = True\<rparr>"
proof -
  have "\<not> length (bytes p) < 768"
    using em by (auto simp: ExtractMetadata_def Let_def kMetadata_values)
  then have ne: "bytes p \<noteq> []" by auto
  show ?thesis
    using nz ne em v deg
    by (auto simp: ImageDetect_def Let_def kMetadata_values DetectionResult_default_def)
qed

theorem ImageDetect_degenerate_witness:
  "width header_image_1x1 * height header_image_1x1 * channels header_image_1x1 \<noteq> 0
   \<and> ExtractMetadata header_image_1x1 = (Metadata_default, True)
   \<and> version Metadata_default = 1
   \<and> height header_image_1x1 * width header_image_1x1 * channels header_image_1x1 \<le> 768
   \<and> ImageDetect seed_id next_counter header_image_1x1 =
       Inr \<lparr>score = DConst 0, false_positive_rate = DConst 1, total_bits = 0, matching_bits = 0,
            metadata_valid = True\<rparr>"
  using ImageDetect_degenerate[of header_image_1x1 Metadata_default seed_id next_counter]
    ExtractMetadata_header[of header_image_1x1]
  by (simp add: header_image_1x1_def Metadata_default_def)

text \<open>
  The claim as stated fails when the sample count is 0: the first guard of \<open>Detect\<close>
  returns \<open>metadata_valid = false\<close> before the metadata is looked at.
\<close>

theorem ImageDetect_zero_count_counterexample:
  "ExtractMetadata header_image_0x0 = (Metadata_default, True)
   \<and> version Metadata_default = 1
   \<and> height header_image_0x0 * width header_image_0x0 * channels header_image_0x0 \<le> 768
   \<and> ImageDetect seed_id next_counter header_image_0x0 =
       Inr \<lparr>score = DConst 0, false_positive_rate = DConst 1, total_bits = 0, matching_bits = 0,
            metadata_valid = False\<rparr>"
  using ExtractMetadata_header[of header_image_0x0]
  by (simp add: header_image_0x0_def Metadata_default_def ImageDetect_def DetectionResult_default_def)

lemma length_StripZeroWidth: "length (StripZeroWidth bs) \<le> length bs"
proof (induction bs rule: StripZeroWidth.induct)
  case 1
  show ?case by simp
next
  case (2 first rest)
  obtain cp consumed
    where d: "(case decode_cp (first # rest) of None \<Rightarrow> (ucast first, 1) | Some r \<Rightarrow> r) = (cp, consumed)"
    by (cases "case decode_cp (first # rest) of None \<Rightarrow> (ucast first :: u32, 1::nat) | Some r \<Rightarrow> r")
  have ih: "length (StripZeroWidth (drop consumed (first # rest))) \<le> length (drop consumed (first # rest))"
    using 2[OF d[symmetric]] .
  have "length (take consumed (first # rest)) + length (drop consumed (first # rest)) = length (first # rest)"
    by (simp only: length_append[symmetric] append_take_drop_id)
  then show ?case
    using ih by (simp only: StripZeroWidth.simps d prod.case length_append split: if_splits) simp
qed

lemma k13: "bit (kZeroWidthMetaStart :: u32) 13"
  unfolding kZeroWidthMetaStart_def by (simp add: bit_iff_odd_drop_bit drop_bit_eq_div)

lemma two_byte_not_start:
  fixes first b :: u8
  shows "push_bit 6 (ucast (first AND 0x1F)) OR ucast (b AND 0x3F) \<noteq> (kZeroWidthMetaStart :: u32)"
proof
  assume e: "push_bit 6 (ucast (first AND 0x1F)) OR ucast (b AND 0x3F) = (kZeroWidthMetaStart :: u32)"
  have m5: "(0x1F::u8) = mask 5" by (simp add: mask_eq_exp_minus_1)
  have m6: "(0x3F::u8) = mask 6" by (simp add: mask_eq_exp_minus_1)
  have "\<not> bit (push_bit 6 (ucast (first AND mask 5)) OR ucast (b AND mask 6) :: u32) 13"
    by (simp add: bit_or_iff bit_push_bit_iff bit_ucast_iff bit_and_iff bit_mask_iff)
  then show False using e k13 unfolding m5 m6 by simp
qed

lemma not_both:
  fixes first :: u8
  assumes "first AND 0xF0 = 0xE0"
  shows "first AND 0xE0 \<noteq> 0xC0"
proof
  assume e: "first AND 0xE0 = 0xC0"
  have "first AND 0xE0 = (first AND 0xF0) AND 0xE0"
    by (simp add: and.assoc)
  then show False using e assms by simp
qed

lemma first_cp_StripZeroWidth: "first_cp (StripZeroWidth bs) \<noteq> kZeroWidthMetaStart"
proof (induction bs rule: StripZeroWidth.induct)
  case 1
  show ?case by (simp add: first_cp_def kZeroWidthMetaStart_def)
next
  case (2 first rest)
  obtain cp consumed
    where d: "(case decode_cp (first # rest) of None \<Rightarrow> (ucast first, 1) | Some r \<Rightarrow> r) = (cp, consumed)"
    by (cases "case decode_cp (first # rest) of None \<Rightarrow> (ucast first :: u32, 1::nat) | Some r \<Rightarrow> r")
  have ih: "first_cp (StripZeroWidth (drop consumed (first # rest))) \<noteq> kZeroWidthMetaStart"
    using 2[OF d[symmetric]] .
  define tl' where "tl' = StripZeroWidth (drop consumed (first # rest))"
  show ?case
  proof (cases "cp \<noteq> kZeroWidthZero \<and> cp \<noteq> kZeroWidthOne \<and>
              cp \<noteq> kZeroWidthMetaStart \<and> cp \<noteq> kZeroWidthMetaEnd")
    case False
    then have "StripZeroWidth (first # rest) = tl'"
      unfolding tl'_def by (simp only: StripZeroWidth.simps d prod.case, simp)
    then show ?thesis using ih tl'_def by simp
  next
    case True
    then have out: "StripZeroWidth (first # rest) = take consumed (first # rest) @ tl'"
      unfolding tl'_def by (simp only: StripZeroWidth.simps d prod.case, simp)
    consider (a) "first < 0x80"
      | (b) "\<not> first < 0x80" "first AND 0xE0 = 0xC0" "1 \<le> length rest"
      | (c) "\<not> first < 0x80" "\<not> (first AND 0xE0 = 0xC0 \<and> 1 \<le> length rest)"
            "first AND 0xF0 = 0xE0" "2 \<le> length rest"
      | (n) "decode_cp (first # rest) = None"
      by (cases "decode_cp (first # rest)") (auto split: if_splits)
    then show ?thesis
    proof cases
      case a
      then have "consumed = 1" "cp = ucast first" using d by auto
      then have "StripZeroWidth (first # rest) = first # tl'" using out by simp
      then show ?thesis using a True \<open>cp = ucast first\<close> by (simp add: first_cp_def)
    next
      case b
      then obtain r0 rs where rest: "rest = r0 # rs" by (cases rest) auto
      have "consumed = 2" using d b by auto
      then have "StripZeroWidth (first # rest) = first # r0 # tl'" using out rest by simp
      then show ?thesis using b two_byte_not_start[of first r0] by (simp add: first_cp_def)
    next
      case c
      then obtain r0 r1 rs where rest: "rest = r0 # r1 # rs"
        by (cases rest; cases "tl rest") auto
      have dc: "consumed = 3" "cp = push_bit 12 (ucast (first AND 0x0F)) OR push_bit 6 (ucast (r0 AND 0x3F))
                OR ucast (r1 AND 0x3F)" using d c rest by auto
      then have "StripZeroWidth (first # rest) = first # r0 # r1 # tl'" using out rest by simp
      moreover have "\<not> first AND 0xE0 = 0xC0" using not_both[of first] c(3) by simp
      ultimately show ?thesis using c dc True by (simp add: first_cp_def)
    next
      case n
      then have "consumed = 1" using d by simp
      then have o: "StripZeroWidth (first # rest) = first # tl'" "tl' = StripZeroWidth rest"
        using out tl'_def by simp_all
      have nf: "\<not> first < 0x80" using n by (auto split: if_splits)
      have n3: "\<not> (first AND 0xF0 = 0xE0 \<and> 2 \<le> length tl')"
      proof
        assume h: "first AND 0xF0 = 0xE0 \<and> 2 \<le> length tl'"
        then have "2 \<le> length rest" using length_StripZeroWidth[of rest] o(2) by simp
        moreover have "\<not> first AND 0xE0 = 0xC0" using not_both[of first] h by simp
        ultimately show False using n nf h by (simp split: if_splits)
      qed
      show ?thesis
      proof (cases "first AND 0xE0 = 0xC0 \<and> 1 \<le> length tl'")
        case True
        then obtain t0 ts where "tl' = t0 # ts" by (cases tl') auto
        then show ?thesis using True nf o(1) two_byte_not_start[of first t0]
          by (simp add: first_cp_def)
      next
        case False
        then show ?thesis using nf n3 o(1) by (auto simp: first_cp_def kZeroWidthMetaStart_def)
      qed
    qed
  qed
qed

lemma DecodeZeroWidthBits_no_sentinel:
  assumes "first_cp bs \<noteq> kZeroWidthMetaStart"
  shows "DecodeZeroWidthBits bs 0 True = ([], 0)"
  using assms by (auto simp: DecodeZeroWidthBits_def first_cp_def Let_def split: prod.splits)

lemma TextDetect_no_sentinel:
  assumes "first_cp bs \<noteq> kZeroWidthMetaStart"
  shows "TextDetect mt_seed mt_next bs = DetectionResult_default"
  using DecodeZeroWidthBits_no_sentinel[OF assms]
  by (simp add: TextDetect_def DecodeMetadata_def DetectionResult_default_def)

text \<open>
  Claim C6. For every text payload, key and state seed: \<open>Detect\<close> on \<open>StripZeroWidth\<close> of
  the watermarked text returned by \<open>Embed\<close> yields \<open>metadata_valid = false\<close> with
  \<open>false_positive_rate = 1.0\<close> (and no bits counted): the stripped string does not start
  with the metadata start sentinel, so no metadata bits are decoded at all.
\<close>

theorem Detect_after_strip:
  "TextDetect mt_seed mt_next
      (StripZeroWidth (watermarked_text (TextEmbed mt_seed' mt_next' txt key seed)))
    = \<lparr>score = DConst 0, false_positive_rate = DConst 1, total_bits = 0, matching_bits = 0,
       metadata_valid = False\<rparr>"
  using TextDetect_no_sentinel[OF first_cp_StripZeroWidth]
  by (simp add: DetectionResult_default_def)

theorem Detect_after_strip_witness:
  "TextDetect seed_id next_counter
      (StripZeroWidth (watermarked_text (TextEmbed seed_id next_counter [0x61, 0x20, 0x62] [0x6B] 7)))
    = \<lparr>score = DConst 0, false_positive_rate = DConst 1, total_bits = 0, matching_bits = 0,
       metadata_valid = False\<rparr>"
  by (rule Detect_after_strip)

lemma content_bit_values:
  "content_bit 2 768 = 0" "content_bit 3 768 = 1" "content_bit 4 768 = 1" "content_bit 5 768 = 0"
  by (simp_all add: content_bit_def StableHash64_def Let_def)

lemma flip_lsb_out_of_range: "length (bytes q) \<le> k \<Longrightarrow> flip_lsb q k = q"
  by (cases q) (simp add: flip_lsb_def list_update_beyond)

lemma image_bits_loop_single:
  assumes "mt_next g = (r, g')"
  shows "image_bits_loop mt_next bs [768..<769] g
      = [(content_bit (bs ! 768) 768 XOR ucast (r AND 1)) AND 1]"
proof -
  have "[768..<769] = [768::nat]" by (simp add: upt_conv_Cons)
  then show ?thesis using assms by (simp add: content_bit_def Let_def)
qed

lemma one_sample_roundtrip:
  assumes st: "mt_next (mt_seed (seed XOR StableHash key)) = (r, g')"
    and f: "f = (content_bit b 768 XOR ucast (r AND 1)) AND 1"
    and e: "e = (content_bit ((b AND 0xFE) OR f) 768 XOR ucast (r AND 1)) AND 1"
  shows "\<exists>res. ImageEmbed mt_seed mt_next (one_sample_image b) key seed = Inr res
      \<and> ImageDetect mt_seed mt_next (payload res) = Inr (score_bits [f] [e])"
proof -
  define p where "p = one_sample_image b"
  have tot: "height p * width p * channels p = 769" "length (bytes p) = 769" "bytes p ! 768 = b"
    by (simp_all add: p_def one_sample_image_def nth_append)
  have big: "768 < height p * width p * channels p" by (simp add: tot)
  have buf: "unat (height p * width p * channels p) \<le> length (bytes p)" by (simp add: tot)
  have fb: "embed_fbits mt_seed mt_next key seed p = [f]"
    unfolding embed_fbits_def tot
    using st image_bits_loop_single[of mt_next "mt_seed (seed XOR StableHash key)" r g' "bytes p"]
    by (simp add: tot f)
  obtain res where r: "ImageEmbed mt_seed mt_next p key seed = Inr res"
      "metadata res = embed_meta key seed p"
      "length (bytes (payload res)) = length (bytes p)"
      "height (payload res) = height p" "width (payload res) = width p"
      "channels (payload res) = channels p"
      "\<forall>j<length (bytes p). bytes (payload res) ! j =
            (if j < 768 then (bytes p ! j AND 0xFE) OR meta_bits (embed_meta key seed p) ! (j div 4)
             else if j < unat (height p * width p * channels p)
             then (bytes p ! j AND 0xFE) OR embed_fbits mt_seed mt_next key seed p ! (j - 768)
             else bytes p ! j)"
    using ImageEmbed_char[OF big buf, of mt_seed mt_next key seed] by blast
  define q where "q = payload res"
  have b': "bytes q ! 768 = (b AND 0xFE) OR f"
    using r(7) by (simp add: q_def tot fb)
  have "is_bit f" unfolding f is_bit_def by (simp add: and.assoc)
  then have lsb: "bytes q ! 768 AND 1 = f"
    unfolding b' is_bit_def by (simp only: set_lsb_and)
  have dims: "height q * width q * channels q = 769" "length (bytes q) = 769"
    using r by (simp_all add: q_def tot)
  have "flip_lsb q 769 = q" by (rule flip_lsb_out_of_range) (simp add: dims)
  then have em: "ExtractMetadata q = (embed_meta key seed p, True)"
    using ExtractMetadata_flipped[OF big buf r(1), of 769] by (simp add: q_def r(2))
  have ne: "bytes q \<noteq> []" using dims(2) by auto
  have nz: "width q * height q * channels q \<noteq> 0"
    using dims(1) by (simp add: mult.commute)
  have cb: "ImageComputeCombinedBits mt_seed mt_next q 768 seed (StableHash key) = Inr [e]"
    using st image_bits_loop_single[of mt_next "mt_seed (seed XOR StableHash key)" r g' "bytes q"]
    by (simp add: ImageComputeCombinedBits_def Let_def dims b' e)
  have "ImageDetect mt_seed mt_next q = Inr (score_bits [f] [e])"
    using ne nz em cb dims lsb
    by (simp add: ImageDetect_def Let_def kMetadata_values embed_meta_def tot upt_conv_Cons)
  then show ?thesis using r(1) by (auto simp: p_def q_def)
qed

lemma score_bits_mismatch:
  "f \<noteq> e \<Longrightarrow> score_bits [f] [e] =
      \<lparr>score = DDiv (DOfInt 0) (DOfInt 1),
       false_positive_rate = DMul (DConst (1/2)) (DErfc (DDiv
          (DDiv (DSub (DOfInt 0) (DMul (DConst (1/2)) (DOfInt 1)))
                (DSqrt (DAdd (DMul (DConst (1/4)) (DOfInt 1)) (DConst (1 / 10 ^ 9)))))
          (DSqrt (DConst 2)))),
       total_bits = 1, matching_bits = 0, metadata_valid = True\<rparr>"
  by (simp add: score_bits_def Let_def upt_conv_Cons)

lemma state_bit_cases:
  fixes r :: u64
  shows "(ucast (r AND 1) :: u8) = 0 \<or> (ucast (r AND 1) :: u8) = 1"
proof -
  have "r AND 1 = 0 \<or> r AND 1 = 1" by (simp add: and_one_eq mod_2_eq_odd)
  then show ?thesis by auto
qed

text \<open>
  Claim C1 does not hold of the code. \<open>Detect\<close> recomputes the expected bits from the
  watermarked samples, whose least significant bits \<open>Embed\<close> has overwritten, and the
  content hash depends on that bit. Whatever the generator, the key and the state seed,
  there is an image with 769 samples (768 zero header samples and one sample of value 2 or
  4) whose embedding is detected with \<open>total_bits = 1\<close> and \<open>matching_bits = 0\<close>, that is
  with score 0 instead of 1.
\<close>

theorem image_roundtrip_score_not_one:
  "\<exists>b res d. ImageEmbed mt_seed mt_next (one_sample_image b) key seed = Inr res
      \<and> ImageDetect mt_seed mt_next (payload res) = Inr d
      \<and> metadata_valid d \<and> total_bits d = 1 \<and> matching_bits d = 0
      \<and> score d = DDiv (DOfInt 0) (DOfInt 1)"
proof -
  obtain r g' where st: "mt_next (mt_seed (seed XOR StableHash key)) = (r, g')"
    by (cases "mt_next (mt_seed (seed XOR StableHash key))")
  define s where "s = (ucast (r AND 1) :: u8)"
  define b :: u8 where "b = (if s = 1 then 2 else 4)"
  define f where "f = (content_bit b 768 XOR s) AND 1"
  define e where "e = (content_bit ((b AND 0xFE) OR f) 768 XOR s) AND 1"
  have s: "s = 0 \<or> s = 1" unfolding s_def by (rule state_bit_cases)
  have ne: "f \<noteq> e"
    using s by (auto simp: f_def e_def b_def content_bit_values)
  obtain res where "ImageEmbed mt_seed mt_next (one_sample_image b) key seed = Inr res"
      "ImageDetect mt_seed mt_next (payload res) = Inr (score_bits [f] [e])"
    using st one_sample_roundtrip[of mt_next mt_seed seed key r g' f b e]
    unfolding f_def e_def s_def by blast
  then show ?thesis
    using score_bits_mismatch[OF ne] by (intro exI[of _ b] exI[of _ res]) simp
qed

theorem image_roundtrip_score_not_one_witness:
  "\<exists>b res d. ImageEmbed seed_id next_counter (one_sample_image b) [] 7 = Inr res
      \<and> ImageDetect seed_id next_counter (payload res) = Inr d
      \<and> metadata_valid d \<and> total_bits d = 1 \<and> matching_bits d = 0
      \<and> score d = DDiv (DOfInt 0) (DOfInt 1)"
  by (rule image_roundtrip_score_not_one)

lemma ebind_Inr: "ebind (Inr x) f = f x"
  by (simp add: ebind_def)

lemma ebind_Inl: "ebind (Inl e) f = Inl e"
  by (simp add: ebind_def)

lemma vec_op_Inr:
  assumes "length acc = n" "length v = n"
  shows "vec_op f n acc v = Inr (map (\<lambda>i. f (acc ! i) (v ! i)) [0..<n])"
  using assms by (simp add: vec_op_def)

lemma efold_append:
  "efold f (xs @ ys) s = ebind (efold f xs s) (efold f ys)"
proof (induction xs arbitrary: s)
  case Nil
  show ?case by (simp add: ebind_Inr)
next
  case (Cons x xs)
  show ?case
  proof (cases "f x s")
    case (Inl e)
    then show ?thesis by (simp add: ebind_Inl)
  next
    case (Inr s')
    then show ?thesis using Cons[of s'] by (simp add: ebind_Inr)
  qed
qed

lemma efold_skip:
  "efold (\<lambda>x s. if skip x then Inr s else g x s) xs s = efold g (filter (\<lambda>x. \<not> skip x) xs) s"
proof (induction xs arbitrary: s)
  case Nil
  show ?case by simp
next
  case (Cons x xs)
  show ?case
  proof (cases "skip x")
    case True
    then show ?thesis using Cons by (simp add: ebind_Inr)
  next
    case False
    then show ?thesis using Cons by (cases "g x s") (simp_all add: ebind_Inr ebind_Inl)
  qed
qed

lemma efold_all_skipped:
  assumes "\<forall>x\<in>set xs. f x = (\<lambda>s. Inr s)"
  shows "efold f xs s = Inr s"
  using assms by (induction xs arbitrary: s) (simp_all add: ebind_Inr)

text \<open>
  A run of vector updates, each adding \<open>wt x\<close> times a vector \<open>V x\<close> in the field: the
  result is defined and is the componentwise sum.
\<close>

lemma efold_vec_op:
  assumes acc: "length acc = n"
    and V: "\<forall>x\<in>set xs. length (V x) = n"
    and F: "\<forall>x\<in>set xs. \<forall>a b. fp_of (F x a b) = fp_of a + wt x * fp_of b"
  shows "\<exists>r. efold (\<lambda>x agg. vec_op (F x) n agg (V x)) xs acc = Inr r \<and> length r = n
      \<and> (\<forall>k<n. fp_of (r ! k) = fp_of (acc ! k) + (\<Sum>x\<leftarrow>xs. wt x * fp_of (V x ! k)))"
  using assms
proof (induction xs arbitrary: acc)
  case Nil
  then show ?case by simp
next
  case (Cons x xs)
  define a1 where "a1 = map (\<lambda>i. F x (acc ! i) (V x ! i)) [0..<n]"
  have s1: "vec_op (F x) n acc (V x) = Inr a1"
    unfolding a1_def using Cons.prems by (intro vec_op_Inr) simp_all
  have l1: "length a1 = n" by (simp add: a1_def)
  obtain r where r: "efold (\<lambda>x agg. vec_op (F x) n agg (V x)) xs a1 = Inr r" "length r = n"
      "\<forall>k<n. fp_of (r ! k) = fp_of (a1 ! k) + (\<Sum>x\<leftarrow>xs. wt x * fp_of (V x ! k))"
    using Cons.IH[OF l1] Cons.prems by auto
  have "\<forall>k<n. fp_of (a1 ! k) = fp_of (acc ! k) + wt x * fp_of (V x ! k)"
    using Cons.prems(3) by (simp add: a1_def)
  then have "\<forall>k<n. fp_of (r ! k) = fp_of (acc ! k) + (\<Sum>x\<leftarrow>x # xs. wt x * fp_of (V x ! k))"
    using r(3) by (simp add: add.assoc)
  then show ?case using r(1,2) s1 by (simp add: ebind_Inr)
qed

lemma efold_vec_op_reduced:
  assumes acc: "length acc = n" "\<forall>k<n. unat (acc ! k) < PM"
    and V: "\<forall>x\<in>set xs. length (V x) = n"
    and F: "\<forall>x\<in>set xs. \<forall>a b. unat (F x a b) < PM"
    and r: "efold (\<lambda>x agg. vec_op (F x) n agg (V x)) xs acc = Inr r"
  shows "\<forall>k<n. unat (r ! k) < PM"
  using assms
proof (induction xs arbitrary: acc)
  case Nil
  then show ?case by simp
next
  case (Cons x xs)
  define a1 where "a1 = map (\<lambda>i. F x (acc ! i) (V x ! i)) [0..<n]"
  have s1: "vec_op (F x) n acc (V x) = Inr a1"
    unfolding a1_def using Cons.prems by (intro vec_op_Inr) simp_all
  have l1: "length a1 = n" "\<forall>k<n. unat (a1 ! k) < PM"
    using Cons.prems(4) by (simp_all add: a1_def)
  have "efold (\<lambda>x agg. vec_op (F x) n agg (V x)) xs a1 = Inr r"
    using Cons.prems(5) s1 by (simp add: ebind_Inr)
  then show ?case using Cons.IH[OF l1] Cons.prems by simp
qed

lemma PM_pos: "0 < PM"
  using PM_gt_1 by simp

lemma unat_Add_less: "unat (Add a b) < PM"
  unfolding unat_Add using PM_pos by simp

lemma unat_Sub_less: "unat (Sub a b) < PM"
  unfolding unat_Sub using PM_pos by simp

lemma fp_of_Add': "fp_of (Add a b) = fp_of a + 1 * fp_of b"
  by (simp add: fp_of_Add)

lemma fp_of_Sub': "fp_of (Sub a b) = fp_of a + (- 1) * fp_of b"
  by (simp add: fp_of_Sub)

lemma length_pair_mask: "length (pair_mask mt_seed draw vd scale i j) = vd"
  by (simp add: pair_mask_def length_draws)

lemma GeneratePairwiseMask_pair_mask:
  "GeneratePairwiseMask mt_seed draw c (MixSeed (of_nat (i + 1)) (of_nat (j + 1)) (m_scale c))
     = pair_mask mt_seed draw (m_vector_dimension c) (m_scale c) i j"
  by (simp add: GeneratePairwiseMask_def pair_mask_def)

lemma pairwise_fold:
  assumes "length pl0 = m_vector_dimension c"
  shows "\<exists>pl seeds. efold (pairwise_step mt_seed draw c ident) xs (pl0, s0) = Inr (pl, seeds)
      \<and> length pl = m_vector_dimension c
      \<and> (\<forall>k<m_vector_dimension c. fp_of (pl ! k) = fp_of (pl0 ! k)
            + (\<Sum>other\<leftarrow>xs. if other = ident then 0
                 else sg ident other
                   * fp_of (pair_mask mt_seed draw (m_vector_dimension c) (m_scale c) ident other ! k)))"
  using assms
proof (induction xs arbitrary: pl0 s0)
  case Nil
  then show ?case by simp
next
  case (Cons x xs)
  define vd where "vd = m_vector_dimension c"
  define mask where "mask = pair_mask mt_seed draw vd (m_scale c) ident x"
  show ?case
  proof (cases "x = ident")
    case True
    then have "pairwise_step mt_seed draw c ident x (pl0, s0) = Inr (pl0, s0)"
      by (simp add: pairwise_step_def)
    then show ?thesis using Cons.IH[OF Cons.prems, of s0] True by (simp add: ebind_Inr)
  next
    case False
    define f where "f = (if ident < x then Add else Sub)"
    define pl1 where "pl1 = map (\<lambda>i. f (pl0 ! i) (mask ! i)) [0..<vd]"
    define s1 where "s1 = s0(x \<mapsto> MixSeed (of_nat (ident + 1)) (of_nat (x + 1)) (m_scale c))"
    have "vec_op f vd pl0 mask = Inr pl1"
      unfolding pl1_def using Cons.prems
      by (intro vec_op_Inr) (simp_all add: vd_def mask_def length_pair_mask)
    moreover have "pairwise_step mt_seed draw c ident x (pl0, s0)
        = ebind (vec_op f vd pl0 mask) (\<lambda>pl. Inr (pl, s1))"
      using False
      by (simp only: pairwise_step_def Let_def if_False GeneratePairwiseMask_pair_mask f_def
          vd_def mask_def s1_def fst_conv snd_conv)
    ultimately have step: "pairwise_step mt_seed draw c ident x (pl0, s0) = Inr (pl1, s1)"
      by (simp only: ebind_Inr)
    have l1: "length pl1 = m_vector_dimension c" by (simp add: pl1_def vd_def)
    have f: "fp_of (f a b) = fp_of a + sg ident x * fp_of b" for a b
      by (simp add: f_def sg_def fp_of_Add fp_of_Sub)
    have p1: "\<forall>k<vd. fp_of (pl1 ! k) = fp_of (pl0 ! k) + sg ident x * fp_of (mask ! k)"
      by (simp add: pl1_def f)
    obtain pl seeds where r: "efold (pairwise_step mt_seed draw c ident) xs (pl1, s1) = Inr (pl, seeds)"
        "length pl = m_vector_dimension c"
        "\<forall>k<m_vector_dimension c. fp_of (pl ! k) = fp_of (pl1 ! k)
            + (\<Sum>other\<leftarrow>xs. if other = ident then 0
                 else sg ident other
                   * fp_of (pair_mask mt_seed draw (m_vector_dimension c) (m_scale c) ident other ! k))"
      using Cons.IH[OF l1, of s1] by blast
    have "\<forall>k<m_vector_dimension c. fp_of (pl ! k) = fp_of (pl0 ! k)
            + (\<Sum>other\<leftarrow>x # xs. if other = ident then 0
                 else sg ident other
                   * fp_of (pair_mask mt_seed draw (m_vector_dimension c) (m_scale c) ident other ! k))"
      using r(3) p1 False by (simp add: vd_def mask_def add.assoc)
    then show ?thesis using step r(1,2) by (simp add: ebind_Inr)
  qed
qed

lemma ShareVector_Inr:
  assumes "1 \<le> t" "t \<le> N"
  shows "\<exists>shares g'. ShareVector draw t N secret g = Inr (shares, g') \<and> length shares = N"
  using assms by (auto simp: ShareVector_def Let_def split: prod.splits)

lemma BuildPayload_char:
  assumes ok: "coord_ok c N t D scale"
    and ident: "ident < N"
    and len: "length metrics = D"
  shows "\<exists>pl pmask g1 shares g2 seeds.
      BuildPayload mt_seed draw quantize c metrics ident
        = Inr (pl, c\<lparr>m_prng := g2,
                     m_clients := (map (\<lambda>recipient.
                           if recipient = ident
                           then (m_clients c ! recipient)\<lparr>personal_mask := pmask\<rparr>
                           else (m_clients c ! recipient)\<lparr>incoming_shares :=
                                  (incoming_shares (m_clients c ! recipient))
                                    (ident \<mapsto> shares ! recipient)\<rparr>)
                         [0..<N])[ident := (m_clients c ! ident)\<lparr>personal_mask := pmask,
                                                                  pairwise_seeds := seeds\<rparr>]\<rparr>)
      \<and> draws draw (2 * D) (m_prng c) = (pmask, g1)
      \<and> ShareVector draw t N pmask g1 = Inr (shares, g2)
      \<and> length pl = 2 * D
      \<and> (\<forall>k<2 * D. fp_of (pl ! k) = fp_of (scaled_vec quantize D scale metrics ! k)
            + fp_of (pmask ! k)
            + (\<Sum>other\<leftarrow>[0..<N]. if other = ident then 0
                 else sg ident other * fp_of (pair_mask mt_seed draw (2 * D) scale ident other ! k)))"
proof -
  have f: "m_num_clients c = N" "m_threshold c = t" "m_metric_dimension c = D"
      "m_vector_dimension c = 2 * D" "m_scale c = scale" "length (m_clients c) = N" "1 \<le> t" "t \<le> N"
    using ok by (simp_all add: coord_ok_def)
  obtain pmask g1 where pm: "draws draw (2 * D) (m_prng c) = (pmask, g1)"
    by (cases "draws draw (2 * D) (m_prng c)")
  have lpm: "length pmask = 2 * D"
    using length_draws[of draw "2 * D" "m_prng c"] pm by simp
  obtain shares g2 where sh: "ShareVector draw t N pmask g1 = Inr (shares, g2)"
    using ShareVector_Inr[OF f(7,8), of draw pmask g1] by blast
  define scaled where "scaled = scaled_vec quantize D scale metrics"
  have sc: "scale_metrics quantize c metrics = scaled"
    by (simp add: scale_metrics_def scaled_def scaled_vec_def f)
  have lsc: "length scaled = 2 * D" by (simp add: scaled_def scaled_vec_def)
  define pl0 where "pl0 = map (\<lambda>i. Add (scaled ! i) (pmask ! i)) [0..<2 * D]"
  have v0: "vec_op Add (2 * D) scaled pmask = Inr pl0"
    unfolding pl0_def using lsc lpm by (intro vec_op_Inr)
  have lpl0: "length pl0 = m_vector_dimension c" by (simp add: pl0_def f)
  define cl where "cl = map (\<lambda>recipient.
                           if recipient = ident
                           then (m_clients c ! recipient)\<lparr>personal_mask := pmask\<rparr>
                           else (m_clients c ! recipient)\<lparr>incoming_shares :=
                                  (incoming_shares (m_clients c ! recipient))
                                    (ident \<mapsto> shares ! recipient)\<rparr>)
                         [0..<N]"
  have clid: "cl ! ident = (m_clients c ! ident)\<lparr>personal_mask := pmask\<rparr>"
    using ident by (simp add: cl_def)
  obtain pl seeds where pw:
      "efold (pairwise_step mt_seed draw c ident) [0..<N] (pl0, pairwise_seeds (cl ! ident))
         = Inr (pl, seeds)"
      "length pl = m_vector_dimension c"
      "\<forall>k<m_vector_dimension c. fp_of (pl ! k) = fp_of (pl0 ! k)
            + (\<Sum>other\<leftarrow>[0..<N]. if other = ident then 0
                 else sg ident other
                   * fp_of (pair_mask mt_seed draw (m_vector_dimension c) (m_scale c) ident other ! k))"
    using pairwise_fold[OF lpl0, of mt_seed draw ident "[0..<N]" "pairwise_seeds (cl ! ident)"]
    by blast
  have bp: "BuildPayload mt_seed draw quantize c metrics ident
      = Inr (pl, c\<lparr>m_prng := g2,
                   m_clients := cl[ident := (cl ! ident)\<lparr>pairwise_seeds := seeds\<rparr>]\<rparr>)"
    unfolding BuildPayload_def GeneratePersonalMask_def f sc
    using len pm sh v0 pw(1)
    by (simp add: Let_def ebind_Inr cl_def[symmetric] del: upt_Suc)
  have "\<forall>k<2 * D. fp_of (pl0 ! k) = fp_of (scaled ! k) + fp_of (pmask ! k)"
    by (simp add: pl0_def fp_of_Add)
  then have form: "\<forall>k<2 * D. fp_of (pl ! k) = fp_of (scaled ! k) + fp_of (pmask ! k)
            + (\<Sum>other\<leftarrow>[0..<N]. if other = ident then 0
                 else sg ident other * fp_of (pair_mask mt_seed draw (2 * D) scale ident other ! k))"
    using pw(3) unfolding f by simp
  have l2: "length pl = 2 * D" using pw(2) unfolding f .
  have bp': "BuildPayload mt_seed draw quantize c metrics ident
        = Inr (pl, c\<lparr>m_prng := g2,
                     m_clients := (map (\<lambda>recipient.
                           if recipient = ident
                           then (m_clients c ! recipient)\<lparr>personal_mask := pmask\<rparr>
                           else (m_clients c ! recipient)\<lparr>incoming_shares :=
                                  (incoming_shares (m_clients c ! recipient))
                                    (ident \<mapsto> shares ! recipient)\<rparr>)
                         [0..<N])[ident := (m_clients c ! ident)\<lparr>personal_mask := pmask,
                                                                  pairwise_seeds := seeds\<rparr>]\<rparr>)"
    using bp unfolding clid unfolding cl_def by simp
  from bp' pm sh l2 form[unfolded scaled_def] show ?thesis by blast
qed

lemma RegisterClient_char:
  assumes ok: "coord_ok c N t D scale"
    and ident: "ident < N"
    and fresh: "\<not> registered (m_clients c ! ident)"
    and len: "length metrics = D"
  shows "\<exists>pl c' pmask g1 shares g2.
      RegisterClient mt_seed draw quantize c ident metrics = Inr (pl, c')
      \<and> coord_ok c' N t D scale
      \<and> draws draw (2 * D) (m_prng c) = (pmask, g1)
      \<and> ShareVector draw t N pmask g1 = Inr (shares, g2)
      \<and> (\<forall>h<N. h \<noteq> ident \<longrightarrow> m_clients c' ! h
             = (m_clients c ! h)\<lparr>incoming_shares :=
                  (incoming_shares (m_clients c ! h))(ident \<mapsto> shares ! h)\<rparr>)
      \<and> registered (m_clients c' ! ident)
      \<and> personal_mask (m_clients c' ! ident) = pmask
      \<and> masked_payload (m_clients c' ! ident) = pl
      \<and> incoming_shares (m_clients c' ! ident) = incoming_shares (m_clients c ! ident)
      \<and> length pl = 2 * D
      \<and> (\<forall>k<2 * D. fp_of (pl ! k) = fp_of (scaled_vec quantize D scale metrics ! k)
            + fp_of (pmask ! k)
            + (\<Sum>other\<leftarrow>[0..<N]. if other = ident then 0
                 else sg ident other * fp_of (pair_mask mt_seed draw (2 * D) scale ident other ! k)))"
proof -
  have f: "m_num_clients c = N" "length (m_clients c) = N"
    using ok by (simp_all add: coord_ok_def)
  define c1 where "c1 = c\<lparr>m_clients := (m_clients c)[ident :=
                     (m_clients c ! ident)\<lparr>original_metrics := metrics\<rparr>]\<rparr>"
  have ok1: "coord_ok c1 N t D scale" using ok by (simp add: coord_ok_def c1_def)
  have p1: "m_prng c1 = m_prng c" by (simp add: c1_def)
  have cl1: "\<forall>h<N. h \<noteq> ident \<longrightarrow> m_clients c1 ! h = m_clients c ! h"
    by (simp add: c1_def)
  obtain pl pmask g1 shares g2 seeds where bp:
      "BuildPayload mt_seed draw quantize c1 metrics ident
        = Inr (pl, c1\<lparr>m_prng := g2,
                     m_clients := (map (\<lambda>recipient.
                           if recipient = ident
                           then (m_clients c1 ! recipient)\<lparr>personal_mask := pmask\<rparr>
                           else (m_clients c1 ! recipient)\<lparr>incoming_shares :=
                                  (incoming_shares (m_clients c1 ! recipient))
                                    (ident \<mapsto> shares ! recipient)\<rparr>)
                         [0..<N])[ident := (m_clients c1 ! ident)\<lparr>personal_mask := pmask,
                                                                  pairwise_seeds := seeds\<rparr>]\<rparr>)"
      "draws draw (2 * D) (m_prng c1) = (pmask, g1)"
      "ShareVector draw t N pmask g1 = Inr (shares, g2)"
      "length pl = 2 * D"
      "\<forall>k<2 * D. fp_of (pl ! k) = fp_of (scaled_vec quantize D scale metrics ! k)
            + fp_of (pmask ! k)
            + (\<Sum>other\<leftarrow>[0..<N]. if other = ident then 0
                 else sg ident other * fp_of (pair_mask mt_seed draw (2 * D) scale ident other ! k))"
    using BuildPayload_char[OF ok1 ident len, of mt_seed draw quantize] by blast
  define cl2 where "cl2 = (map (\<lambda>recipient.
                           if recipient = ident
                           then (m_clients c1 ! recipient)\<lparr>personal_mask := pmask\<rparr>
                           else (m_clients c1 ! recipient)\<lparr>incoming_shares :=
                                  (incoming_shares (m_clients c1 ! recipient))
                                    (ident \<mapsto> shares ! recipient)\<rparr>)
                         [0..<N])[ident := (m_clients c1 ! ident)\<lparr>personal_mask := pmask,
                                                                  pairwise_seeds := seeds\<rparr>]"
  define c' where "c' = c1\<lparr>m_prng := g2, m_clients := cl2[ident :=
                               (cl2 ! ident)\<lparr>masked_payload := pl, registered := True\<rparr>]\<rparr>"
  have l2: "length cl2 = N" by (simp add: cl2_def)
  have cl2h: "\<forall>h<N. h \<noteq> ident \<longrightarrow> cl2 ! h
             = (m_clients c ! h)\<lparr>incoming_shares :=
                  (incoming_shares (m_clients c ! h))(ident \<mapsto> shares ! h)\<rparr>"
    using cl1 by (simp add: cl2_def)
  have cl2i: "cl2 ! ident = (m_clients c1 ! ident)\<lparr>personal_mask := pmask, pairwise_seeds := seeds\<rparr>"
    using ident by (simp add: cl2_def)
  have rc: "RegisterClient mt_seed draw quantize c ident metrics = Inr (pl, c')"
    unfolding RegisterClient_def Let_def c1_def[symmetric]
    using f ident fresh bp(1) by (simp add: ebind_Inr c'_def cl2_def)
  have ok': "coord_ok c' N t D scale"
    using ok1 l2 by (simp add: coord_ok_def c'_def)
  have h': "\<forall>h<N. h \<noteq> ident \<longrightarrow> m_clients c' ! h
             = (m_clients c ! h)\<lparr>incoming_shares :=
                  (incoming_shares (m_clients c ! h))(ident \<mapsto> shares ! h)\<rparr>"
    using cl2h by (simp add: c'_def)
  have i': "registered (m_clients c' ! ident)" "personal_mask (m_clients c' ! ident) = pmask"
      "masked_payload (m_clients c' ! ident) = pl"
      "incoming_shares (m_clients c' ! ident) = incoming_shares (m_clients c ! ident)"
    using ident l2 cl2i f by (simp_all add: c'_def c1_def)
  from rc ok' bp(2)[unfolded p1] bp(3) h' i' bp(4) bp(5) show ?thesis by blast
qed

lemma reg_inv_new:
  assumes "FtmaCoordinator_new N t D scale g = Inr c"
  shows "reg_inv mt_seed draw quantize N t D scale ms c {}"
  using assms
  by (auto simp: FtmaCoordinator_new_def reg_inv_def coord_ok_def ClientState_default_def
      split: if_splits)

lemma reg_inv_step:
  assumes inv: "reg_inv mt_seed draw quantize N t D scale ms c R"
    and ident: "ident < N" "ident \<notin> R"
    and len: "length (ms ident) = D"
  shows "\<exists>pl c'. RegisterClient mt_seed draw quantize c ident (ms ident) = Inr (pl, c')
      \<and> reg_inv mt_seed draw quantize N t D scale ms c' (insert ident R)"
proof -
  have ok: "coord_ok c N t D scale"
    and reg: "\<forall>h<N. registered (m_clients c ! h) \<longleftrightarrow> h \<in> R"
    using inv by (simp_all add: reg_inv_def)
  have fresh: "\<not> registered (m_clients c ! ident)" using reg ident by simp
  obtain pl c' pmask g1 shares g2 where r:
      "RegisterClient mt_seed draw quantize c ident (ms ident) = Inr (pl, c')"
      "coord_ok c' N t D scale"
      "draws draw (2 * D) (m_prng c) = (pmask, g1)"
      "ShareVector draw t N pmask g1 = Inr (shares, g2)"
      "\<forall>h<N. h \<noteq> ident \<longrightarrow> m_clients c' ! h
             = (m_clients c ! h)\<lparr>incoming_shares :=
                  (incoming_shares (m_clients c ! h))(ident \<mapsto> shares ! h)\<rparr>"
      "registered (m_clients c' ! ident)"
      "personal_mask (m_clients c' ! ident) = pmask"
      "masked_payload (m_clients c' ! ident) = pl"
      "incoming_shares (m_clients c' ! ident) = incoming_shares (m_clients c ! ident)"
      "length pl = 2 * D"
      "\<forall>k<2 * D. fp_of (pl ! k) = fp_of (scaled_vec quantize D scale (ms ident) ! k)
            + fp_of (pmask ! k)
            + (\<Sum>other\<leftarrow>[0..<N]. if other = ident then 0
                 else sg ident other * fp_of (pair_mask mt_seed draw (2 * D) scale ident other ! k))"
    using RegisterClient_char[OF ok ident(1) fresh len, of mt_seed draw quantize] by blast
  have others: "registered (m_clients c' ! h) = registered (m_clients c ! h)"
      "masked_payload (m_clients c' ! h) = masked_payload (m_clients c ! h)"
      "personal_mask (m_clients c' ! h) = personal_mask (m_clients c ! h)"
    if "h < N" "h \<noteq> ident" for h
    using r(5) that by simp_all
  have inc: "incoming_shares (m_clients c' ! h) i = incoming_shares (m_clients c ! h) i"
    if "h < N" "i \<noteq> ident" for h i
  proof (cases "h = ident")
    case True
    then show ?thesis using r(9) by simp
  next
    case False
    then show ?thesis using r(5) that by simp
  qed
  have reg': "\<forall>h<N. registered (m_clients c' ! h) \<longleftrightarrow> h \<in> insert ident R"
    using reg r(6) others(1) by auto
  have new: "ident < N
           \<and> length (masked_payload (m_clients c' ! ident)) = 2 * D
           \<and> (\<forall>k<2 * D. fp_of (masked_payload (m_clients c' ! ident) ! k)
                 = fp_of (scaled_vec quantize D scale (ms ident) ! k)
                   + fp_of (personal_mask (m_clients c' ! ident) ! k)
                   + (\<Sum>other\<leftarrow>[0..<N]. if other = ident then 0
                        else sg ident other * fp_of (pair_mask mt_seed draw (2 * D) scale ident other ! k)))
           \<and> (\<exists>g0. personal_mask (m_clients c' ! ident) = fst (draws draw (2 * D) g0))
           \<and> (\<exists>shares g g'. ShareVector draw t N (personal_mask (m_clients c' ! ident)) g = Inr (shares, g')
                 \<and> (\<forall>h<N. h \<noteq> ident \<longrightarrow> incoming_shares (m_clients c' ! h) ident = Some (shares ! h)))"
  proof (intro conjI)
    show "ident < N" by (rule ident(1))
    show "length (masked_payload (m_clients c' ! ident)) = 2 * D" using r(8,10) by simp
    show "\<forall>k<2 * D. fp_of (masked_payload (m_clients c' ! ident) ! k)
                 = fp_of (scaled_vec quantize D scale (ms ident) ! k)
                   + fp_of (personal_mask (m_clients c' ! ident) ! k)
                   + (\<Sum>other\<leftarrow>[0..<N]. if other = ident then 0
                        else sg ident other * fp_of (pair_mask mt_seed draw (2 * D) scale ident other ! k))"
      using r(11) unfolding r(7) r(8) .
    show "\<exists>g0. personal_mask (m_clients c' ! ident) = fst (draws draw (2 * D) g0)"
      using r(3) r(7) by (intro exI[of _ "m_prng c"]) simp
    have "\<forall>h<N. h \<noteq> ident \<longrightarrow> incoming_shares (m_clients c' ! h) ident = Some (shares ! h)"
      using r(5) by simp
    then show "\<exists>shares g g'. ShareVector draw t N (personal_mask (m_clients c' ! ident)) g = Inr (shares, g')
                 \<and> (\<forall>h<N. h \<noteq> ident \<longrightarrow> incoming_shares (m_clients c' ! h) ident = Some (shares ! h))"
      using r(4) unfolding r(7) by blast
  qed
  have old: "i < N
           \<and> length (masked_payload (m_clients c' ! i)) = 2 * D
           \<and> (\<forall>k<2 * D. fp_of (masked_payload (m_clients c' ! i) ! k)
                 = fp_of (scaled_vec quantize D scale (ms i) ! k)
                   + fp_of (personal_mask (m_clients c' ! i) ! k)
                   + (\<Sum>other\<leftarrow>[0..<N]. if other = i then 0
                        else sg i other * fp_of (pair_mask mt_seed draw (2 * D) scale i other ! k)))
           \<and> (\<exists>g0. personal_mask (m_clients c' ! i) = fst (draws draw (2 * D) g0))
           \<and> (\<exists>shares g g'. ShareVector draw t N (personal_mask (m_clients c' ! i)) g = Inr (shares, g')
                 \<and> (\<forall>h<N. h \<noteq> i \<longrightarrow> incoming_shares (m_clients c' ! h) i = Some (shares ! h)))"
    if i: "i \<in> R" for i
  proof -
    have b: "i < N
           \<and> length (masked_payload (m_clients c ! i)) = 2 * D
           \<and> (\<forall>k<2 * D. fp_of (masked_payload (m_clients c ! i) ! k)
                 = fp_of (scaled_vec quantize D scale (ms i) ! k)
                   + fp_of (personal_mask (m_clients c ! i) ! k)
                   + (\<Sum>other\<leftarrow>[0..<N]. if other = i then 0
                        else sg i other * fp_of (pair_mask mt_seed draw (2 * D) scale i other ! k)))
           \<and> (\<exists>g0. personal_mask (m_clients c ! i) = fst (draws draw (2 * D) g0))
           \<and> (\<exists>shares g g'. ShareVector draw t N (personal_mask (m_clients c ! i)) g = Inr (shares, g')
                 \<and> (\<forall>h<N. h \<noteq> i \<longrightarrow> incoming_shares (m_clients c ! h) i = Some (shares ! h)))"
      using inv i unfolding reg_inv_def by blast
    have ne: "i \<noteq> ident" using i ident(2) by auto
    have iN: "i < N" using b by simp
    show ?thesis
      using b unfolding others(2)[OF iN ne] others(3)[OF iN ne]
      using inc[OF _ ne] by simp
  qed
  have "reg_inv mt_seed draw quantize N t D scale ms c' (insert ident R)"
    unfolding reg_inv_def using r(2) reg' new old by blast
  then show ?thesis using r(1) by blast
qed

lemma register_clients_inv:
  assumes "reg_inv mt_seed draw quantize N t D scale ms c R"
    and "distinct order" "set order \<inter> R = {}" "\<forall>i\<in>set order. i < N \<and> length (ms i) = D"
  shows "\<exists>c'. register_clients mt_seed draw quantize c (map (\<lambda>i. (i, ms i)) order) = Inr c'
      \<and> reg_inv mt_seed draw quantize N t D scale ms c' (R \<union> set order)"
  using assms
proof (induction order arbitrary: c R)
  case Nil
  then show ?case by (simp add: register_clients_def)
next
  case (Cons i order)
  obtain pl c1 where s: "RegisterClient mt_seed draw quantize c i (ms i) = Inr (pl, c1)"
      "reg_inv mt_seed draw quantize N t D scale ms c1 (insert i R)"
    using reg_inv_step[OF Cons.prems(1), of i] Cons.prems by auto
  obtain c' where r: "register_clients mt_seed draw quantize c1 (map (\<lambda>i. (i, ms i)) order) = Inr c'"
      "reg_inv mt_seed draw quantize N t D scale ms c' (insert i R \<union> set order)"
    using Cons.IH[OF s(2)] Cons.prems by auto
  have "register_clients mt_seed draw quantize c (map (\<lambda>i. (i, ms i)) (i # order)) = Inr c'"
    using s(1) r(1) by (simp add: register_clients_def ebind_Inr)
  then show ?case using r(2) by auto
qed

lemma efold_cong:
  assumes "\<forall>x\<in>set xs. \<forall>s. f x s = g x s"
  shows "efold f xs s = efold g xs s"
  using assms
proof (induction xs arbitrary: s)
  case Nil
  show ?case by simp
next
  case (Cons x xs)
  then show ?case by (cases "g x s") (simp_all add: ebind_Inr ebind_Inl)
qed

lemma collect_shares_fold:
  assumes "\<forall>a\<in>set active. incoming_shares (m_clients c ! a) d = Some (sh a)"
  shows "fold (\<lambda>id (collected, coords).
             case incoming_shares (m_clients c ! id) d of
               None \<Rightarrow> (collected, coords)
             | Some share \<Rightarrow> (collected @ [share], coords @ [of_nat (id + 1)]))
       active (col, co)
     = (col @ map sh active, co @ map (\<lambda>a. of_nat (a + 1)) active)"
  using assms by (induction active arbitrary: col co) simp_all

lemma collect_shares_all:
  assumes "\<forall>a\<in>set active. incoming_shares (m_clients c ! a) d = Some (sh a)"
  shows "collect_shares c active d = (map sh active, map (\<lambda>a. of_nat (a + 1)) active)"
  unfolding collect_shares_def using collect_shares_fold[OF assms, of "[]" "[]"] by simp

lemma MixSeed_sym: "MixSeed a b c = MixSeed b a c"
proof -
  have "(if a > b then (b, a) else (a, b)) = (if b > a then (a, b) else (b, a))"
    by (cases "a = b") (auto simp: not_less)
  then show ?thesis unfolding MixSeed_def by (simp only:)
qed

lemma pair_mask_sym:
  "pair_mask mt_seed draw vd scale i j = pair_mask mt_seed draw vd scale j i"
  unfolding pair_mask_def by (subst MixSeed_sym) (rule refl)

lemma fp_two_nonzero: "(2 :: fp) \<noteq> 0"
proof
  assume "(2 :: fp) = 0"
  moreover have "(2 :: fp) = of_nat 2" by (simp only: of_nat_numeral)
  moreover have "(0 :: fp) = of_nat 0" by (rule semiring_1_class.of_nat_0[symmetric])
  ultimately have "(of_nat 2 :: fp) = of_nat 0" by (simp only:)
  then have "2 mod PM = 0 mod PM" by (simp only: of_nat_fp_eq_iff)
  moreover have "(2::nat) < PM" by (simp add: PM_def)
  ultimately show False by (simp only: mod_less mod_0)
qed

text \<open>Antisymmetric terms cancel in the double sum over all ordered pairs.\<close>

lemma pairwise_cancel:
  fixes M :: "nat \<Rightarrow> nat \<Rightarrow> fp"
  assumes sym: "\<And>i j. M i j = M j i"
  shows "(\<Sum>i\<in>{0..<N}. \<Sum>j\<in>{0..<N}. if j = i then 0 else sg i j * M i j) = 0"
proof -
  define T where "T = (\<Sum>i\<in>{0..<N}. \<Sum>j\<in>{0..<N}. if j = i then 0 else sg i j * M i j)"
  have anti: "(if i = j then 0 else sg j i * M j i) = - (if j = i then 0 else sg i j * M i j)"
    for i j
  proof -
    consider "i = j" | "i < j" | "j < i" by linarith
    then show ?thesis
    proof cases
      case 1
      then show ?thesis by (simp only: simp_thms if_True minus_zero)
    next
      case 2
      then have "\<not> j < i" "i \<noteq> j" "j \<noteq> i" by simp_all
      then show ?thesis using 2 sym[of i j]
        by (simp only: sg_def if_True if_False mult_1 mult_minus1)
    next
      case 3
      then have "\<not> i < j" "i \<noteq> j" "j \<noteq> i" by simp_all
      then show ?thesis using 3 sym[of i j]
        by (simp only: sg_def if_True if_False mult_1 mult_minus1 minus_minus)
    qed
  qed
  have "T = (\<Sum>j\<in>{0..<N}. \<Sum>i\<in>{0..<N}. if j = i then 0 else sg i j * M i j)"
    unfolding T_def by (rule sum.swap)
  also have "\<dots> = (\<Sum>i\<in>{0..<N}. \<Sum>j\<in>{0..<N}. - (if j = i then 0 else sg i j * M i j))"
    by (intro sum.cong refl anti)
  also have "\<dots> = - T"
    unfolding T_def by (simp only: sum_negf)
  finally have e: "T = - T" .
  have "T + T = T + - T" by (rule arg_cong[where f = "\<lambda>x. T + x"]) (rule e)
  then have "T + T = 0" by (simp only: add.right_inverse)
  then have "2 * T = 0" by (simp only: mult_2)
  then have "T = 0" using fp_no_zero_divisors[of 2 T] fp_two_nonzero by blast
  then show ?thesis unfolding T_def .
qed

lemma sum_list_upt_set: "(\<Sum>x\<leftarrow>[0..<n]. f x) = (\<Sum>x\<in>{0..<n}. f x)"
  by (simp add: interv_sum_list_conv_sum_set_nat)

lemma sum_list_active_split:
  fixes f :: "nat \<Rightarrow> fp"
  assumes "distinct active" "set active \<subseteq> {0..<N}"
  shows "(\<Sum>a\<leftarrow>active. f a) + (\<Sum>d\<leftarrow>filter (\<lambda>d. d \<notin> set active) [0..<N]. f d) = (\<Sum>i\<in>{0..<N}. f i)"
proof -
  have a: "(\<Sum>a\<leftarrow>active. f a) = sum f (set active)"
    using assms(1) by (simp add: sum_list_distinct_conv_sum_set)
  have "distinct (filter (\<lambda>d. d \<notin> set active) [0..<N])" by simp
  then have b: "(\<Sum>d\<leftarrow>filter (\<lambda>d. d \<notin> set active) [0..<N]. f d)
      = sum f (set (filter (\<lambda>d. d \<notin> set active) [0..<N]))"
    by (simp only: sum_list_distinct_conv_sum_set)
  have c: "set (filter (\<lambda>d. d \<notin> set active) [0..<N]) = {0..<N} - set active" by auto
  have "sum f (set active) + sum f ({0..<N} - set active) = sum f {0..<N}"
    using assms(2) by (simp add: sum.subset_diff[of "set active" "{0..<N}" f])
  then show ?thesis unfolding a b c .
qed

lemma draws_range:
  assumes "\<forall>g. fst (draw g) < kModulus"
  shows "\<forall>v\<in>set (fst (draws draw n g)). v < kModulus"
proof (induction n arbitrary: g)
  case 0
  show ?case by simp
next
  case (Suc n)
  obtain v g' where d: "draw g = (v, g')" by (cases "draw g")
  have "v < kModulus" using assms[rule_format, of g] d by simp
  then show ?case using Suc[of g'] d by (simp add: Let_def split: prod.splits)
qed

lemma reg_invD:
  assumes "reg_inv mt_seed draw quantize N t D scale ms c R" "i \<in> R"
  shows "i < N" "length (masked_payload (m_clients c ! i)) = 2 * D"
    "\<forall>k<2 * D. fp_of (masked_payload (m_clients c ! i) ! k)
                 = fp_of (scaled_vec quantize D scale (ms i) ! k)
                   + fp_of (personal_mask (m_clients c ! i) ! k)
                   + (\<Sum>other\<leftarrow>[0..<N]. if other = i then 0
                        else sg i other * fp_of (pair_mask mt_seed draw (2 * D) scale i other ! k))"
    "\<exists>g0. personal_mask (m_clients c ! i) = fst (draws draw (2 * D) g0)"
    "\<exists>shares g g'. ShareVector draw t N (personal_mask (m_clients c ! i)) g = Inr (shares, g')
                 \<and> (\<forall>h<N. h \<noteq> i \<longrightarrow> incoming_shares (m_clients c ! h) i = Some (shares ! h))"
  using assms unfolding reg_inv_def by blast+

lemma efold_vec_add:
  assumes "length acc = n" "\<forall>x\<in>set xs. length (V x) = n"
  shows "\<exists>r. efold (\<lambda>x agg. vec_op Add n agg (V x)) xs acc = Inr r \<and> length r = n
      \<and> (\<forall>k<n. fp_of (r ! k) = fp_of (acc ! k) + (\<Sum>x\<leftarrow>xs. fp_of (V x ! k)))
      \<and> ((\<forall>k<n. unat (acc ! k) < PM) \<longrightarrow> (\<forall>k<n. unat (r ! k) < PM))"
proof -
  obtain r where r: "efold (\<lambda>x agg. vec_op Add n agg (V x)) xs acc = Inr r" "length r = n"
      "\<forall>k<n. fp_of (r ! k) = fp_of (acc ! k) + (\<Sum>x\<leftarrow>xs. 1 * fp_of (V x ! k))"
    using efold_vec_op[OF assms, of "\<lambda>_. Add" "\<lambda>_. 1"] fp_of_Add' by blast
  have "\<forall>k<n. unat (r ! k) < PM" if "\<forall>k<n. unat (acc ! k) < PM"
    using efold_vec_op_reduced[OF assms(1) that assms(2), of "\<lambda>_. Add" r] r(1) unat_Add_less
    by blast
  then show ?thesis using r by (simp only: mult_1) blast
qed

lemma sum_list_neg:
  fixes f :: "'a \<Rightarrow> fp"
  shows "(\<Sum>x\<leftarrow>xs. - f x) = - (\<Sum>x\<leftarrow>xs. f x)"
  by (induction xs) simp_all

lemma efold_vec_sub:
  assumes "length acc = n" "\<forall>x\<in>set xs. length (V x) = n"
  shows "\<exists>r. efold (\<lambda>x agg. vec_op Sub n agg (V x)) xs acc = Inr r \<and> length r = n
      \<and> (\<forall>k<n. fp_of (r ! k) = fp_of (acc ! k) - (\<Sum>x\<leftarrow>xs. fp_of (V x ! k)))
      \<and> ((\<forall>k<n. unat (acc ! k) < PM) \<longrightarrow> (\<forall>k<n. unat (r ! k) < PM))"
proof -
  obtain r where r: "efold (\<lambda>x agg. vec_op Sub n agg (V x)) xs acc = Inr r" "length r = n"
      "\<forall>k<n. fp_of (r ! k) = fp_of (acc ! k) + (\<Sum>x\<leftarrow>xs. - 1 * fp_of (V x ! k))"
    using efold_vec_op[OF assms, of "\<lambda>_. Sub" "\<lambda>_. - 1"] fp_of_Sub' by blast
  have "\<forall>k<n. unat (r ! k) < PM" if "\<forall>k<n. unat (acc ! k) < PM"
    using efold_vec_op_reduced[OF assms(1) that assms(2), of "\<lambda>_. Sub" r] r(1) unat_Sub_less
    by blast
  moreover have "\<forall>k<n. fp_of (r ! k) = fp_of (acc ! k) - (\<Sum>x\<leftarrow>xs. fp_of (V x ! k))"
    using r(3) by (simp only: mult_minus1 sum_list_neg add_uminus_conv_diff)
  ultimately show ?thesis using r(1,2) by blast
qed

lemma Finalize_aggregate:
  assumes inv: "reg_inv mt_seed draw quantize N t D scale ms c {0..<N}"
    and act: "distinct active" "set active \<subseteq> {0..<N}" "t \<le> length active"
    and drop: "\<forall>d<N. d \<notin> set active \<longrightarrow>
        (\<forall>agg. dropout_step c active (map (\<lambda>i. i \<in> set active) [0..<N]) d agg
           = vec_op Sub (2 * D) agg (personal_mask (m_clients c ! d)))"
  shows "\<exists>agg. Finalize mt_seed draw c active = decode_result c N (length active) agg
      \<and> length agg = 2 * D
      \<and> (\<forall>k<2 * D. unat (agg ! k) < PM
            \<and> fp_of (agg ! k) = (\<Sum>i\<in>{0..<N}. fp_of (scaled_vec quantize D scale (ms i) ! k)))"
proof -
  define pay where "pay i = masked_payload (m_clients c ! i)" for i
  define pm where "pm i = personal_mask (m_clients c ! i)" for i
  define M where "M k i j = fp_of (pair_mask mt_seed draw (2 * D) scale i j ! k)" for k i j
  have ok: "coord_ok c N t D scale"
    and reg: "\<forall>h<N. registered (m_clients c ! h)"
    using inv by (simp_all add: reg_inv_def)
  have f: "m_num_clients c = N" "m_threshold c = t" "m_metric_dimension c = D"
      "m_vector_dimension c = 2 * D" "m_scale c = scale" "length (m_clients c) = N" "1 \<le> t" "t \<le> N"
    using ok by (simp_all add: coord_ok_def)
  have lpay: "length (pay i) = 2 * D" if "i < N" for i
    using reg_invD(2)[OF inv, of i] that unfolding pay_def by simp
  have lpm: "length (pm i) = 2 * D" if iN: "i < N" for i
  proof -
    obtain g0 where "pm i = fst (draws draw (2 * D) g0)"
      using reg_invD(4)[OF inv, of i] iN unfolding pm_def by auto
    then show ?thesis by (simp add: length_draws)
  qed
  have form: "fp_of (pay i ! k) = fp_of (scaled_vec quantize D scale (ms i) ! k) + fp_of (pm i ! k)
       + (\<Sum>j\<in>{0..<N}. if j = i then 0 else sg i j * M k i j)"
    if "i < N" "k < 2 * D" for i k
    using reg_invD(3)[OF inv, of i] that unfolding pay_def pm_def M_def sum_list_upt_set by simp
  \<comment> \<open>the four loops\<close>
  define zeros where "zeros = replicate (2 * D) (0 :: u64)"
  have "efold (\<lambda>i agg. if \<not> registered (m_clients c ! i) then Inr agg
                         else vec_op Add (2 * D) agg (masked_payload (m_clients c ! i)))
          [0..<N] zeros
        = efold (\<lambda>i agg. vec_op Add (2 * D) agg (pay i)) [0..<N] zeros"
    by (rule efold_cong) (simp add: reg pay_def)
  moreover obtain r1 where r1: "efold (\<lambda>i agg. vec_op Add (2 * D) agg (pay i)) [0..<N] zeros = Inr r1"
      "length r1 = 2 * D"
      "\<forall>k<2 * D. fp_of (r1 ! k) = fp_of (zeros ! k) + (\<Sum>i\<leftarrow>[0..<N]. fp_of (pay i ! k))"
      "\<forall>k<2 * D. unat (r1 ! k) < PM"
    using efold_vec_add[of zeros "2 * D" "[0..<N]" pay] lpay PM_pos by (auto simp: zeros_def)
  ultimately have loop1: "efold (\<lambda>i agg. if \<not> registered (m_clients c ! i) then Inr agg
                         else vec_op Add (2 * D) agg (masked_payload (m_clients c ! i)))
          [0..<N] zeros = Inr r1"
    by simp
  have actN: "\<forall>a\<in>set active. a < N" using act(2) by auto
  obtain r2 where r2: "efold (\<lambda>i agg. vec_op Sub (2 * D) agg (pm i)) active r1 = Inr r2"
      "length r2 = 2 * D"
      "\<forall>k<2 * D. fp_of (r2 ! k) = fp_of (r1 ! k) - (\<Sum>a\<leftarrow>active. fp_of (pm a ! k))"
      "\<forall>k<2 * D. unat (r2 ! k) < PM"
    using efold_vec_sub[of r1 "2 * D" active pm] r1(2,4) lpm actN by auto
  define rest where "rest = filter (\<lambda>d. \<not> d \<in> set active) [0..<N]"
  have "efold (dropout_step c active (map (\<lambda>i. i \<in> set active) [0..<N])) [0..<N] r2
      = efold (\<lambda>d agg. if d \<in> set active then Inr agg else vec_op Sub (2 * D) agg (pm d)) [0..<N] r2"
  proof (rule efold_cong, intro ballI allI)
    fix d agg assume "d \<in> set [0..<N]"
    then have d: "d < N" by simp
    show "dropout_step c active (map (\<lambda>i. i \<in> set active) [0..<N]) d agg
        = (if d \<in> set active then Inr agg else vec_op Sub (2 * D) agg (pm d))"
    proof (cases "d \<in> set active")
      case True
      then show ?thesis using d by (simp add: dropout_step_def)
    next
      case False
      then show ?thesis using drop d by (simp add: pm_def)
    qed
  qed
  also have "\<dots> = efold (\<lambda>d agg. vec_op Sub (2 * D) agg (pm d)) rest r2"
    unfolding rest_def by (rule efold_skip)
  finally have l3: "efold (dropout_step c active (map (\<lambda>i. i \<in> set active) [0..<N])) [0..<N] r2
      = efold (\<lambda>d agg. vec_op Sub (2 * D) agg (pm d)) rest r2" .
  have restN: "\<forall>d\<in>set rest. d < N" by (simp add: rest_def)
  obtain r3 where r3: "efold (\<lambda>d agg. vec_op Sub (2 * D) agg (pm d)) rest r2 = Inr r3"
      "length r3 = 2 * D"
      "\<forall>k<2 * D. fp_of (r3 ! k) = fp_of (r2 ! k) - (\<Sum>d\<leftarrow>rest. fp_of (pm d ! k))"
      "\<forall>k<2 * D. unat (r3 ! k) < PM"
    using efold_vec_sub[of r2 "2 * D" rest pm] r2(2,4) lpm restN by auto
  have loop4: "efold (missing_step mt_seed draw c active (map (\<lambda>i. i \<in> set active) [0..<N]))
      [0..<N] r3 = Inr r3"
    by (rule efold_all_skipped) (auto simp: missing_step_def reg)
  have np: "length (filter (\<lambda>i. registered (m_clients c ! i)) [0..<N]) = N"
    using reg by (simp add: filter_True)
  have pre: "\<not> (\<exists>i\<in>set active. i \<ge> N \<or> \<not> registered (m_clients c ! i))"
    using actN reg by auto
  have N0: "N \<noteq> 0" using f(7,8) by simp
  have fin: "Finalize mt_seed draw c active = decode_result c N (length active) r3"
    unfolding Finalize_def Let_def f zeros_def[symmetric] pm_def[symmetric]
    using f(6) act(3) pre loop1 r2(1) l3 r3(1) loop4 np N0
    by (simp add: ebind_Inr pm_def)
  \<comment> \<open>the masks cancel\<close>
  have val: "fp_of (r3 ! k) = (\<Sum>i\<in>{0..<N}. fp_of (scaled_vec quantize D scale (ms i) ! k))"
    if k: "k < 2 * D" for k
  proof -
    have z: "fp_of (zeros ! k) = 0" using k by (simp add: zeros_def fp_of_0)
    have split: "(\<Sum>a\<leftarrow>active. fp_of (pm a ! k)) + (\<Sum>d\<leftarrow>rest. fp_of (pm d ! k))
        = (\<Sum>i\<in>{0..<N}. fp_of (pm i ! k))"
      unfolding rest_def by (rule sum_list_active_split[OF act(1,2)])
    have "(\<Sum>i\<leftarrow>[0..<N]. fp_of (pay i ! k)) = (\<Sum>i\<in>{0..<N}. fp_of (pay i ! k))"
      by (rule sum_list_upt_set)
    also have "\<dots> = (\<Sum>i\<in>{0..<N}. fp_of (scaled_vec quantize D scale (ms i) ! k) + fp_of (pm i ! k)
       + (\<Sum>j\<in>{0..<N}. if j = i then 0 else sg i j * M k i j))"
      by (rule sum.cong[OF refl]) (simp add: form k)
    also have "\<dots> = (\<Sum>i\<in>{0..<N}. fp_of (scaled_vec quantize D scale (ms i) ! k))
        + (\<Sum>i\<in>{0..<N}. fp_of (pm i ! k))
        + (\<Sum>i\<in>{0..<N}. \<Sum>j\<in>{0..<N}. if j = i then 0 else sg i j * M k i j)"
      by (simp only: sum.distrib)
    also have "(\<Sum>i\<in>{0..<N}. \<Sum>j\<in>{0..<N}. if j = i then 0 else sg i j * M k i j) = 0"
      by (rule pairwise_cancel) (simp add: M_def pair_mask_sym[of mt_seed draw "2 * D" scale])
    finally have pays: "(\<Sum>i\<leftarrow>[0..<N]. fp_of (pay i ! k))
        = (\<Sum>i\<in>{0..<N}. fp_of (scaled_vec quantize D scale (ms i) ! k))
          + (\<Sum>i\<in>{0..<N}. fp_of (pm i ! k)) + 0" .
    have "fp_of (r3 ! k) = fp_of (zeros ! k) + (\<Sum>i\<leftarrow>[0..<N]. fp_of (pay i ! k))
        - (\<Sum>a\<leftarrow>active. fp_of (pm a ! k)) - (\<Sum>d\<leftarrow>rest. fp_of (pm d ! k))"
      using r3(3) r2(3) r1(3) k by simp
    also have "\<dots> = (\<Sum>i\<leftarrow>[0..<N]. fp_of (pay i ! k))
        - ((\<Sum>a\<leftarrow>active. fp_of (pm a ! k)) + (\<Sum>d\<leftarrow>rest. fp_of (pm d ! k)))"
      unfolding z by (simp only: add_0_left diff_diff_add)
    also have "\<dots> = (\<Sum>i\<in>{0..<N}. fp_of (scaled_vec quantize D scale (ms i) ! k))"
      unfolding split pays by (simp only: add_0_right add_diff_cancel_right')
    finally show ?thesis .
  qed
  show ?thesis using fin r3(2,4) val by blast
qed

lemma smod_shift:
  fixes x p :: int
  assumes p: "0 < p"
  shows "((x smod p) + p) smod p = x mod p"
proof (cases "0 \<le> x")
  case True
  then have "x smod p = x mod p" using p by (simp add: smod_mod_positive)
  moreover have "0 \<le> x mod p + p" using p by (simp add: add_nonneg_nonneg)
  ultimately show ?thesis using p by (simp add: smod_mod_positive)
next
  case False
  then have e: "x smod p = - ((- x) mod p)" using p by (simp add: smod_int_alt_def sgn_if)
  have r: "(- x) mod p < p" "0 \<le> (- x) mod p" using p by simp_all
  then have nn: "0 \<le> - ((- x) mod p) + p" by linarith
  have "(- ((- x) mod p) + p) smod p = (- ((- x) mod p) + p) mod p"
    using nn p by (intro smod_mod_positive) simp_all
  also have "\<dots> = (- ((- x) mod p)) mod p" by (simp only: mod_add_self2)
  also have "\<dots> = (- (- x)) mod p" by (simp only: mod_minus_eq)
  finally show ?thesis unfolding e by simp
qed

lemma sint_small:
  fixes a :: u64
  assumes "unat a < 2 ^ 63"
  shows "sint a = int (unat a)"
proof -
  have "int (unat a) < int (2 ^ 63)" using assms by (simp only: of_nat_less_iff)
  then have "uint a < 2 ^ 63" by simp
  moreover have "- (2 ^ 63) \<le> uint a"
  proof -
    have "(0::int) \<le> uint a" by (rule uint_ge_0)
    moreover have "- (2 ^ 63) \<le> (0::int)" by simp
    ultimately show ?thesis by (rule order_trans[rotated])
  qed
  ultimately have "signed_take_bit 63 (uint a) = uint a"
    by (rule signed_take_bit_int_eq_self[rotated])
  then show ?thesis by (simp add: sint_uint)
qed

lemma PM_less_63: "PM < 2 ^ 63"
  by (simp add: PM_def)

lemma sint_kModulus: "sint kModulus = int PM"
  using sint_small[of kModulus] PM_less_63 by (simp add: unat_kModulus)

lemma unat_FromSigned: "unat (FromSigned q) = nat (sint q mod int PM)"
proof -
  have p: "0 < int PM" using PM_pos by simp
  have e: "FromSigned q = word_of_int (sint q mod int PM)"
    unfolding FromSigned_def sint_kModulus by (simp only: smod_shift[OF p])
  have r: "0 \<le> sint q mod int PM" "sint q mod int PM < int PM" using p by simp_all
  have "sint q mod int PM < 2 ^ 64" using r(2) PM_less_63 by simp
  then have "uint (word_of_int (sint q mod int PM) :: u64) = sint q mod int PM"
    using r(1) by (simp add: uint_word_of_int)
  then show ?thesis unfolding e by (simp only: unat_eq_nat_uint)
qed

lemma fp_of_nat_PM: "(of_nat PM :: fp) = 0"
proof -
  have "(of_nat PM :: fp) = of_nat 0" unfolding of_nat_fp_eq_iff by simp
  then show ?thesis by (simp only: semiring_1_class.of_nat_0)
qed

lemma fp_of_int_mod: "(of_int (x mod int PM) :: fp) = of_int x"
proof -
  have "x = (x div int PM) * int PM + x mod int PM" by simp
  then have "(of_int x :: fp) = of_int ((x div int PM) * int PM + x mod int PM)" by (simp only:)
  also have "\<dots> = of_int (x div int PM) * of_nat PM + of_int (x mod int PM)"
    by (simp only: of_int_add of_int_mult of_int_of_nat_eq)
  finally show ?thesis by (simp only: fp_of_nat_PM mult_zero_right add_0_left)
qed

lemma fp_of_FromSigned: "fp_of (FromSigned q) = of_int (sint q)"
proof -
  have "0 \<le> sint q mod int PM" using PM_pos by simp
  then have "(of_nat (nat (sint q mod int PM)) :: fp) = of_int (sint q mod int PM)"
    by (simp only: of_nat_nat)
  then show ?thesis unfolding fp_of_def unat_FromSigned by (simp only: fp_of_int_mod)
qed

lemma fp_of_int_eq:
  assumes "(of_nat n :: fp) = of_int T" "n < PM"
  shows "int n = T mod int PM"
proof -
  have p: "0 < int PM" using PM_pos by simp
  then have nn: "0 \<le> T mod int PM" by simp
  have "(of_nat n :: fp) = of_int (T mod int PM)" using assms(1) by (simp only: fp_of_int_mod)
  also have "\<dots> = of_nat (nat (T mod int PM))" using nn by (simp only: of_nat_nat)
  finally have "n mod PM = nat (T mod int PM) mod PM" by (simp only: of_nat_fp_eq_iff)
  moreover have "nat (T mod int PM) < PM" using p nn by (simp add: nat_less_iff)
  ultimately have "n = nat (T mod int PM)" using assms(2) by simp
  then show ?thesis using nn by simp
qed

lemma ToSigned_correct:
  assumes a: "unat a < PM"
    and fp: "fp_of a = of_int T"
    and range: "- int (PM div 2) \<le> T" "T \<le> int (PM div 2)"
  shows "sint (ToSigned a) = T"
proof -
  have e: "int (unat a) = T mod int PM"
    using fp a unfolding fp_of_def by (rule fp_of_int_eq)
  have half: "unat (kModulus div 2) = PM div 2"
    by (simp add: unat_div unat_kModulus)
  have gt: "a > kModulus div 2 \<longleftrightarrow> PM div 2 < unat a"
    by (simp add: word_less_nat_alt half)
  have PMv: "int PM = 2305843009213693951" "PM div 2 = 1152921504606846975"
    by (simp_all add: PM_def)
  show ?thesis
  proof (cases "0 \<le> T")
    case True
    then have "T mod int PM = T" using range(2) PMv by simp
    then have u: "int (unat a) = T" using e by simp
    then have "\<not> PM div 2 < unat a" using range(2) by linarith
    then have "ToSigned a = a" by (simp add: ToSigned_def gt)
    moreover have "unat a < 2 ^ 63" using a PM_less_63 by simp
    ultimately show ?thesis using sint_small[of a] u by simp
  next
    case False
    have "0 \<le> T + int PM" "T + int PM < int PM" using range(1) False PMv by linarith+
    then have "(T + int PM) mod int PM = T + int PM" by (rule mod_pos_pos_trivial)
    then have "T mod int PM = T + int PM" by (simp only: mod_add_self2)
    then have u: "int (unat a) = T + int PM" using e by simp
    then have "PM div 2 < unat a" using range(1) PMv by linarith
    then have ts: "ToSigned a = a - kModulus" by (simp add: ToSigned_def gt)
    have sa: "sint a = int (unat a)" using sint_small[of a] a PM_less_63 by simp
    have "sint (a - kModulus) = signed_take_bit 63 (sint a - sint kModulus)"
      by (simp add: sint_word_ariths)
    also have "\<dots> = signed_take_bit 63 T" using sa u by (simp add: sint_kModulus)
    also have "\<dots> = T"
      using range(1) False PMv by (intro signed_take_bit_int_eq_self) simp_all
    finally show ?thesis using ts by simp
  qed
qed

lemma scaled_vec_nth:
  assumes "k < D"
  shows "scaled_vec quantize D scale metrics ! k = FromSigned (quantize (metrics ! k) scale)"
  using assms by (simp add: scaled_vec_def nth_append)

lemma decode_result_sum:
  assumes "coord_ok c N t D scale" "length agg = 2 * D"
  shows "\<exists>res. decode_result c n_p n_s agg = Inr res
      \<and> length (result_sum res) = D \<and> participants res = n_p \<and> survivors res = n_s
      \<and> threshold res = t
      \<and> (\<forall>i<D. result_sum res ! i
            = DDiv (DOfInt (sint (ToSigned (agg ! i)))) (DOfInt (uint scale)))"
  using assms by (simp add: decode_result_def coord_ok_def Let_def)

lemma small_draw_range: "fst (small_draw g) < kModulus"
proof -
  have "g AND 0xFF \<le> 0xFF" by (rule word_and_le1)
  moreover have "(0xFF :: u64) < kModulus" by (simp add: kModulus_def)
  ultimately show ?thesis unfolding small_draw_def by simp
qed

lemma FtmaCoordinator_new_ok:
  assumes "1 \<le> t" "t \<le> N" "0 < D" "scale \<noteq> 0"
  shows "\<exists>c0. FtmaCoordinator_new N t D scale g = Inr c0"
  using assms by (simp add: FtmaCoordinator_new_def)

lemma registered_all:
  assumes new: "FtmaCoordinator_new N t D scale g = Inr c0"
    and order: "distinct order" "set order = {0..<N}"
    and dims: "\<forall>i<N. length (ms i) = D"
  shows "\<exists>c. register_clients mt_seed draw quantize c0 (map (\<lambda>i. (i, ms i)) order) = Inr c
      \<and> reg_inv mt_seed draw quantize N t D scale ms c {0..<N}"
  using register_clients_inv[OF reg_inv_new[OF new], of order ms mt_seed draw quantize] order dims
  by auto

lemma Finalize_sum:
  assumes inv: "reg_inv mt_seed draw quantize N t D scale ms c {0..<N}"
    and act: "distinct active" "set active \<subseteq> {0..<N}" "t \<le> length active"
    and drop: "\<forall>d<N. d \<notin> set active \<longrightarrow>
        (\<forall>agg. dropout_step c active (map (\<lambda>i. i \<in> set active) [0..<N]) d agg
           = vec_op Sub (2 * D) agg (personal_mask (m_clients c ! d)))"
    and range: "\<forall>k<D. \<bar>\<Sum>i\<in>{0..<N}. sint (quantize (ms i ! k) scale)\<bar> \<le> uint (kModulus div 2)"
  shows "\<exists>res. Finalize mt_seed draw c active = Inr res
      \<and> length (result_sum res) = D \<and> participants res = N \<and> survivors res = length active
      \<and> (\<forall>k<D. result_sum res ! k
            = DDiv (DOfInt (\<Sum>i\<in>{0..<N}. sint (quantize (ms i ! k) scale))) (DOfInt (uint scale)))"
proof -
  have ok: "coord_ok c N t D scale" using inv by (simp add: reg_inv_def)
  obtain agg where a: "Finalize mt_seed draw c active = decode_result c N (length active) agg"
      "length agg = 2 * D"
      "\<forall>k<2 * D. unat (agg ! k) < PM
            \<and> fp_of (agg ! k) = (\<Sum>i\<in>{0..<N}. fp_of (scaled_vec quantize D scale (ms i) ! k))"
    using Finalize_aggregate[OF inv act drop] by blast
  obtain res where r: "decode_result c N (length active) agg = Inr res"
      "length (result_sum res) = D" "participants res = N" "survivors res = length active"
      "\<forall>i<D. result_sum res ! i
            = DDiv (DOfInt (sint (ToSigned (agg ! i)))) (DOfInt (uint scale))"
    using decode_result_sum[OF ok a(2), of N "length active"] by blast
  have half: "uint (kModulus div 2) = int (PM div 2)"
    by (simp add: kModulus_def PM_def)
  have "sint (ToSigned (agg ! k)) = (\<Sum>i\<in>{0..<N}. sint (quantize (ms i ! k) scale))"
    if k: "k < D" for k
  proof -
    have k2: "k < 2 * D" using k by simp
    have "fp_of (agg ! k) = (\<Sum>i\<in>{0..<N}. fp_of (scaled_vec quantize D scale (ms i) ! k))"
      using a(3) k2 by blast
    also have "\<dots> = (\<Sum>i\<in>{0..<N}. of_int (sint (quantize (ms i ! k) scale)))"
      by (simp only: scaled_vec_nth[OF k] fp_of_FromSigned)
    also have "\<dots> = of_int (\<Sum>i\<in>{0..<N}. sint (quantize (ms i ! k) scale))"
      by (simp only: of_int_sum)
    finally have fp: "fp_of (agg ! k) = of_int (\<Sum>i\<in>{0..<N}. sint (quantize (ms i ! k) scale))" .
    have b: "\<bar>\<Sum>i\<in>{0..<N}. sint (quantize (ms i ! k) scale)\<bar> \<le> int (PM div 2)"
      using range k unfolding half by blast
    show ?thesis
      using a(3) k2 fp b by (intro ToSigned_correct) (blast, blast, linarith, linarith)
  qed
  then have "\<forall>k<D. result_sum res ! k
            = DDiv (DOfInt (\<Sum>i\<in>{0..<N}. sint (quantize (ms i ! k) scale))) (DOfInt (uint scale))"
    using r(5) by simp
  then show ?thesis using a(1) r(1,2,3,4) by simp
qed

text \<open>
  Claim C2. For every coordinator with valid parameters \<open>(N, t, D, scale)\<close>, every
  generator and distribution, and every family of \<open>N\<close> metric vectors of dimension \<open>D\<close>
  whose componentwise sums of rounded scaled values lie within \<open>\<plusminus>\<lfloor>p/2\<rfloor>\<close>: if all \<open>N\<close>
  clients register (in any order) and all \<open>N\<close> are passed as active, \<open>Finalize\<close> returns
  \<open>sum[k]\<close> equal to the sum over the clients of \<open>round(metric[k] * scale)\<close>, divided by
  \<open>scale\<close> - all personal and pairwise masks cancel modulo \<open>p\<close>.
\<close>

theorem Finalize_all_active:
  fixes ms :: "nat \<Rightarrow> 'd list" and g :: 'g
  assumes params: "1 \<le> t" "t \<le> N" "0 < D" "scale \<noteq> 0"
    and order: "distinct order" "set order = {0..<N}"
    and dims: "\<forall>i<N. length (ms i) = D"
    and active: "distinct active" "set active = {0..<N}"
    and range: "\<forall>k<D. \<bar>\<Sum>i\<in>{0..<N}. sint (quantize (ms i ! k) scale)\<bar> \<le> uint (kModulus div 2)"
  shows "\<exists>c0 c res. FtmaCoordinator_new N t D scale g = Inr c0
      \<and> register_clients mt_seed draw quantize c0 (map (\<lambda>i. (i, ms i)) order) = Inr c
      \<and> Finalize mt_seed draw c active = Inr res
      \<and> length (result_sum res) = D \<and> participants res = N \<and> survivors res = N
      \<and> (\<forall>k<D. result_sum res ! k
            = DDiv (DOfInt (\<Sum>i\<in>{0..<N}. sint (quantize (ms i ! k) scale))) (DOfInt (uint scale)))"
proof -
  obtain c0 :: "('d, 'g) FtmaCoordinator" where new: "FtmaCoordinator_new N t D scale g = Inr c0"
    using FtmaCoordinator_new_ok[OF params, of g] by blast
  obtain c where c: "register_clients mt_seed draw quantize c0 (map (\<lambda>i. (i, ms i)) order) = Inr c"
      "reg_inv mt_seed draw quantize N t D scale ms c {0..<N}"
    using registered_all[OF new order dims, of mt_seed draw quantize] by blast
  have len: "length active = N"
    using distinct_card[OF active(1)] active(2) by simp
  have act: "set active \<subseteq> {0..<N}" "t \<le> length active"
    using active(2) len params(2) by simp_all
  have drop: "\<forall>d<N. d \<notin> set active \<longrightarrow>
        (\<forall>agg. dropout_step c active (map (\<lambda>i. i \<in> set active) [0..<N]) d agg
           = vec_op Sub (2 * D) agg (personal_mask (m_clients c ! d)))"
    using active(2) by simp
  obtain res where "Finalize mt_seed draw c active = Inr res"
      "length (result_sum res) = D" "participants res = N" "survivors res = length active"
      "\<forall>k<D. result_sum res ! k
            = DDiv (DOfInt (\<Sum>i\<in>{0..<N}. sint (quantize (ms i ! k) scale))) (DOfInt (uint scale))"
    using Finalize_sum[OF c(2) active(1) act drop range] by blast
  then show ?thesis using new c(1) len by auto
qed

lemma sint_quantize_5: "sint (quantize_int 5 1000) = 5000"
  by (simp add: quantize_int_def)

theorem Finalize_all_active_witness:
  "(1::nat) \<le> 1 \<and> (1::nat) \<le> 2 \<and> (0::nat) < 1 \<and> (1000::u64) \<noteq> 0
   \<and> distinct [1::nat, 0] \<and> set [1::nat, 0] = {0..<2}
   \<and> distinct [0::nat, 1] \<and> set [0::nat, 1] = {0..<2}
   \<and> \<bar>\<Sum>i\<in>{0..<2::nat}. sint (quantize_int ([5::int] ! 0) 1000)\<bar> \<le> uint (kModulus div 2)
   \<and> (\<exists>c0 c res. FtmaCoordinator_new 2 1 1 1000 (0::u64) = Inr c0
      \<and> register_clients seed_id small_draw quantize_int c0 (map (\<lambda>i. (i, [5])) [1, 0]) = Inr c
      \<and> Finalize seed_id small_draw c [0, 1] = Inr res
      \<and> length (result_sum res) = 1 \<and> participants res = 2 \<and> survivors res = 2
      \<and> result_sum res ! 0 = DDiv (DOfInt 10000) (DOfInt 1000))"
proof -
  have s: "set [1::nat, 0] = {0..<2}" "set [0::nat, 1] = {0..<2}" by auto
  have r: "\<bar>\<Sum>i\<in>{0..<2::nat}. sint (quantize_int ([5::int] ! 0) 1000)\<bar> \<le> uint (kModulus div 2)"
    by (simp add: sint_quantize_5 kModulus_def)
  show ?thesis
    using Finalize_all_active[of 1 2 1 1000 "[1, 0]" "\<lambda>i. [5::int]" "[0, 1]" quantize_int
        "0::u64" seed_id small_draw] s r
    by (simp add: sint_quantize_5)
qed

lemma dropout_reconstruct:
  assumes inv: "reg_inv mt_seed draw quantize N t D scale ms c {0..<N}"
    and drawr: "\<forall>g. fst (draw g) < kModulus"
    and N: "N < unat kModulus"
    and d: "d < N"
    and S: "distinct S" "length S = t" "set S \<subseteq> {0..<N}" "d \<notin> set S"
  shows "Reconstruct t (map (\<lambda>a. of_nat (a + 1)) S)
           (map (\<lambda>a. the (incoming_shares (m_clients c ! a) d)) S)
         = Inr (personal_mask (m_clients c ! d))"
proof -
  define pm where "pm = personal_mask (m_clients c ! d)"
  have din: "d \<in> {0..<N}" using d by simp
  have ok: "coord_ok c N t D scale" using inv by (simp add: reg_inv_def)
  then have t: "1 \<le> t" "t \<le> N" by (simp_all add: coord_ok_def)
  obtain shares g g' where sh: "ShareVector draw t N pm g = Inr (shares, g')"
      "\<forall>h<N. h \<noteq> d \<longrightarrow> incoming_shares (m_clients c ! h) d = Some (shares ! h)"
    using reg_invD(5)[OF inv din] unfolding pm_def by blast
  obtain g0 where "pm = fst (draws draw (2 * D) g0)"
    using reg_invD(4)[OF inv din] unfolding pm_def by blast
  then have range: "\<forall>s\<in>set pm. s < kModulus"
    using draws_range[OF drawr, of "2 * D" g0] by simp
  obtain shares' g'' where r: "ShareVector draw t N pm g = Inr (shares', g'')"
      "Reconstruct t (map (\<lambda>i. of_nat (i + 1)) S) (map (\<lambda>i. shares' ! i) S) = Inr pm"
    using ShareVector_Reconstruct[OF t N range S(1,2,3), of draw g] by blast
  have same: "shares' = shares" using sh(1) r(1) by simp
  have m: "map (\<lambda>a. the (incoming_shares (m_clients c ! a) d)) S = map (\<lambda>i. shares ! i) S"
  proof (rule map_cong[OF refl])
    fix a assume a: "a \<in> set S"
    then have "a < N" "a \<noteq> d" using S(3,4) by auto
    then show "the (incoming_shares (m_clients c ! a) d) = shares ! a" using sh(2) by simp
  qed
  show ?thesis unfolding m using r(2) unfolding same pm_def .
qed

lemma dropout_step_Sub:
  assumes inv: "reg_inv mt_seed draw quantize N t D scale ms c {0..<N}"
    and drawr: "\<forall>g. fst (draw g) < kModulus"
    and N: "N < unat kModulus"
    and act: "distinct active" "set active \<subseteq> {0..<N}" "t \<le> length active"
    and d: "d < N" "d \<notin> set active"
  shows "dropout_step c active (map (\<lambda>i. i \<in> set active) [0..<N]) d agg
           = vec_op Sub (2 * D) agg (personal_mask (m_clients c ! d))"
    and "collect_shares c active d
           = (map (\<lambda>a. the (incoming_shares (m_clients c ! a) d)) active,
              map (\<lambda>a. of_nat (a + 1)) active)"
proof -
  have din: "d \<in> {0..<N}" using d by simp
  have ok: "coord_ok c N t D scale"
    and reg: "\<forall>h<N. registered (m_clients c ! h)"
    using inv by (simp_all add: reg_inv_def)
  have f: "m_threshold c = t" "m_vector_dimension c = 2 * D"
    using ok by (simp_all add: coord_ok_def)
  obtain shares g g' where sh:
      "\<forall>h<N. h \<noteq> d \<longrightarrow> incoming_shares (m_clients c ! h) d = Some (shares ! h)"
    using reg_invD(5)[OF inv din] by blast
  have "\<forall>a\<in>set active. incoming_shares (m_clients c ! a) d
      = Some (the (incoming_shares (m_clients c ! a) d))"
  proof (intro ballI)
    fix a assume "a \<in> set active"
    then have "a < N" "a \<noteq> d" using act(2) d(2) by auto
    then have "incoming_shares (m_clients c ! a) d = Some (shares ! a)" using sh by simp
    then show "incoming_shares (m_clients c ! a) d
      = Some (the (incoming_shares (m_clients c ! a) d))" by simp
  qed
  then show cs: "collect_shares c active d
      = (map (\<lambda>a. the (incoming_shares (m_clients c ! a) d)) active,
         map (\<lambda>a. of_nat (a + 1)) active)"
    by (rule collect_shares_all)
  define S where "S = take t active"
  have S: "distinct S" "length S = t" "set S \<subseteq> {0..<N}" "d \<notin> set S"
    using act d(2) set_take_subset[of t active] by (auto simp: S_def)
  have rec: "Reconstruct t (map (\<lambda>a. of_nat (a + 1)) S)
           (map (\<lambda>a. the (incoming_shares (m_clients c ! a) d)) S)
         = Inr (personal_mask (m_clients c ! d))"
    by (rule dropout_reconstruct[OF inv drawr N d(1) S])
  show "dropout_step c active (map (\<lambda>i. i \<in> set active) [0..<N]) d agg
           = vec_op Sub (2 * D) agg (personal_mask (m_clients c ! d))"
    unfolding dropout_step_def cs f
    using d reg act(3) rec by (simp add: take_map S_def ebind_Inr)
qed

text \<open>
  Claim C3 does not hold of the code. When some client never registered, the pairwise
  mask that a dropped client shares with the unregistered one is cancelled by nobody: the
  last loop of \<open>Finalize\<close> regenerates the pairwise masks against an unregistered client
  for the active clients only. In the run above with only client 0 active, client 1 is
  registered and not active and client 0 holds a share of its mask (\<open>t = 1\<close>); the sum
  over the registered clients is \<open>5 + 6 = 11\<close>, and \<open>Finalize\<close> returns 49 (11 plus the
  first component 38 of the pairwise mask of the clients 1 and 2). With both registered
  clients active the same state gives 11.
\<close>

theorem dropout_with_unregistered:
  "dropout_scenario [0] = Inr (True, False, True, [DDiv (DOfInt 49) (DOfInt 1)], 2, 1)
   \<and> dropout_scenario [0, 1] = Inr (True, False, True, [DDiv (DOfInt 11) (DOfInt 1)], 2, 2)
   \<and> sint (quantize_int 5 1) + sint (quantize_int 6 1) = 11
   \<and> pair_mask seed_id small_draw 2 1 1 2 ! 0 = 38"
  by code_simp

theorem dropout_with_unregistered_witness:
  "dropout_scenario [0] \<noteq> Inr (True, False, True, [DDiv (DOfInt 11) (DOfInt 1)], 2, 1)"
  using dropout_with_unregistered by simp

text \<open>
  Dropout recovery when every client has registered. Let all \<open>N\<close> clients have
  registered (in any order), with \<open>N < p\<close> and a distribution that draws below \<open>p\<close>, let
  the active clients be distinct and at least \<open>t\<close>, and let client \<open>d\<close> not be active. Then
  every active client holds a share of \<open>d\<close>'s personal mask, \<open>Reconstruct\<close> returns that
  mask exactly from any \<open>t\<close> of these shares (in particular from the first \<open>t\<close>, which
  \<open>Finalize\<close> takes), and the sum returned by \<open>Finalize\<close> is the sum over all registered
  clients of the scaled metrics, divided by \<open>scale\<close> (the componentwise sums lying within
  \<open>\<plusminus>\<lfloor>p/2\<rfloor>\<close>).
\<close>

theorem Finalize_dropout:
  fixes ms :: "nat \<Rightarrow> 'd list" and g :: 'g
  assumes params: "1 \<le> t" "t \<le> N" "0 < D" "scale \<noteq> 0" "N < unat kModulus"
    and drawr: "\<forall>g. fst (draw g) < kModulus"
    and order: "distinct order" "set order = {0..<N}"
    and dims: "\<forall>i<N. length (ms i) = D"
    and active: "distinct active" "set active \<subseteq> {0..<N}" "t \<le> length active"
    and d: "d < N" "d \<notin> set active"
    and range: "\<forall>k<D. \<bar>\<Sum>i\<in>{0..<N}. sint (quantize (ms i ! k) scale)\<bar> \<le> uint (kModulus div 2)"
  shows "\<exists>c0 c res. FtmaCoordinator_new N t D scale g = Inr c0
      \<and> register_clients mt_seed draw quantize c0 (map (\<lambda>i. (i, ms i)) order) = Inr c
      \<and> registered (m_clients c ! d)
      \<and> collect_shares c active d
           = (map (\<lambda>a. the (incoming_shares (m_clients c ! a) d)) active,
              map (\<lambda>a. of_nat (a + 1)) active)
      \<and> (\<forall>S. distinct S \<and> length S = t \<and> set S \<subseteq> set active \<longrightarrow>
            Reconstruct t (map (\<lambda>a. of_nat (a + 1)) S)
              (map (\<lambda>a. the (incoming_shares (m_clients c ! a) d)) S)
            = Inr (personal_mask (m_clients c ! d)))
      \<and> Finalize mt_seed draw c active = Inr res
      \<and> length (result_sum res) = D \<and> participants res = N \<and> survivors res = length active
      \<and> (\<forall>k<D. result_sum res ! k
            = DDiv (DOfInt (\<Sum>i\<in>{0..<N}. sint (quantize (ms i ! k) scale))) (DOfInt (uint scale)))"
proof -
  obtain c0 :: "('d, 'g) FtmaCoordinator" where new: "FtmaCoordinator_new N t D scale g = Inr c0"
    using FtmaCoordinator_new_ok[OF params(1-4), of g] by blast
  obtain c where c: "register_clients mt_seed draw quantize c0 (map (\<lambda>i. (i, ms i)) order) = Inr c"
      "reg_inv mt_seed draw quantize N t D scale ms c {0..<N}"
    using registered_all[OF new order dims, of mt_seed draw quantize] by blast
  have reg: "registered (m_clients c ! d)" using c(2) d(1) by (simp add: reg_inv_def)
  have drop: "\<forall>d<N. d \<notin> set active \<longrightarrow>
        (\<forall>agg. dropout_step c active (map (\<lambda>i. i \<in> set active) [0..<N]) d agg
           = vec_op Sub (2 * D) agg (personal_mask (m_clients c ! d)))"
    using dropout_step_Sub(1)[OF c(2) drawr params(5) active] by blast
  have cs: "collect_shares c active d
           = (map (\<lambda>a. the (incoming_shares (m_clients c ! a) d)) active,
              map (\<lambda>a. of_nat (a + 1)) active)"
    by (rule dropout_step_Sub(2)[OF c(2) drawr params(5) active d])
  have rec: "\<forall>S. distinct S \<and> length S = t \<and> set S \<subseteq> set active \<longrightarrow>
            Reconstruct t (map (\<lambda>a. of_nat (a + 1)) S)
              (map (\<lambda>a. the (incoming_shares (m_clients c ! a) d)) S)
            = Inr (personal_mask (m_clients c ! d))"
  proof (intro allI impI)
    fix S assume S: "distinct S \<and> length S = t \<and> set S \<subseteq> set active"
    then have "set S \<subseteq> {0..<N}" "d \<notin> set S" using active(2) d(2) by auto
    then show "Reconstruct t (map (\<lambda>a. of_nat (a + 1)) S)
              (map (\<lambda>a. the (incoming_shares (m_clients c ! a) d)) S)
            = Inr (personal_mask (m_clients c ! d))"
      using S by (intro dropout_reconstruct[OF c(2) drawr params(5) d(1)]) simp_all
  qed
  obtain res where "Finalize mt_seed draw c active = Inr res"
      "length (result_sum res) = D" "participants res = N" "survivors res = length active"
      "\<forall>k<D. result_sum res ! k
            = DDiv (DOfInt (\<Sum>i\<in>{0..<N}. sint (quantize (ms i ! k) scale))) (DOfInt (uint scale))"
    using Finalize_sum[OF c(2) active drop range] by blast
  then show ?thesis using new c(1) reg cs rec by blast
qed

lemma sint_quantize_values:
  "sint (quantize_int 1000 1000) = 1000000" "sint (quantize_int 2000 1000) = 2000000"
  "sint (quantize_int 3000 1000) = 3000000"
  by (simp_all add: quantize_int_def)

theorem Finalize_dropout_witness:
  "(1::nat) \<le> 2 \<and> (2::nat) \<le> 3 \<and> (0::nat) < 1 \<and> (1000::u64) \<noteq> 0 \<and> 3 < unat kModulus
   \<and> (\<forall>g. fst (small_draw g) < kModulus)
   \<and> distinct [2::nat, 0, 1] \<and> set [2::nat, 0, 1] = {0..<3}
   \<and> distinct [0::nat, 1] \<and> set [0::nat, 1] \<subseteq> {0..<3} \<and> 2 \<le> length [0::nat, 1]
   \<and> (2::nat) < 3 \<and> (2::nat) \<notin> set [0, 1]
   \<and> (\<exists>c0 c res. FtmaCoordinator_new 3 2 1 1000 (0::u64) = Inr c0
      \<and> register_clients seed_id small_draw quantize_int c0
           (map (\<lambda>i. (i, [1000 * (int i + 1)])) [2, 0, 1]) = Inr c
      \<and> registered (m_clients c ! 2)
      \<and> Reconstruct 2 (map (\<lambda>a. of_nat (a + 1)) [0, 1])
              (map (\<lambda>a. the (incoming_shares (m_clients c ! a) 2)) [0, 1])
            = Inr (personal_mask (m_clients c ! 2))
      \<and> Finalize seed_id small_draw c [0, 1] = Inr res
      \<and> length (result_sum res) = 1 \<and> participants res = 3 \<and> survivors res = 2
      \<and> result_sum res ! 0 = DDiv (DOfInt 6000000) (DOfInt 1000))"
proof -
  have s: "set [2::nat, 0, 1] = {0..<3}" by auto
  have q: "(\<Sum>i\<in>{0..<3::nat}. sint (quantize_int ([1000 * (int i + 1)] ! 0) 1000)) = 6000000"
    by (simp add: sint_quantize_values eval_nat_numeral)
  have r: "\<forall>k<1. \<bar>\<Sum>i\<in>{0..<3::nat}. sint (quantize_int ([1000 * (int i + 1)] ! k) 1000)\<bar>
      \<le> uint (kModulus div 2)"
    using q by (simp add: kModulus_def)
  have k: "3 < unat kModulus" by (simp add: kModulus_def)
  obtain c0 :: "(int, u64) FtmaCoordinator" and c res
    where w: "FtmaCoordinator_new 3 2 1 1000 (0::u64) = Inr c0"
      "register_clients seed_id small_draw quantize_int c0
           (map (\<lambda>i. (i, [1000 * (int i + 1)])) [2, 0, 1]) = Inr c"
      "registered (m_clients c ! 2)"
      "\<forall>S. distinct S \<and> length S = 2 \<and> set S \<subseteq> set [0, 1] \<longrightarrow>
            Reconstruct 2 (map (\<lambda>a. of_nat (a + 1)) S)
              (map (\<lambda>a. the (incoming_shares (m_clients c ! a) 2)) S)
            = Inr (personal_mask (m_clients c ! 2))"
      "Finalize seed_id small_draw c [0, 1] = Inr res"
      "length (result_sum res) = 1" "participants res = 3" "survivors res = length [0::nat, 1]"
      "\<forall>k<1. result_sum res ! k
            = DDiv (DOfInt (\<Sum>i\<in>{0..<3::nat}. sint (quantize_int ([1000 * (int i + 1)] ! k) 1000)))
                (DOfInt (uint (1000::u64)))"
    using Finalize_dropout[of 2 3 1 1000 small_draw "[2, 0, 1]" "\<lambda>i. [1000 * (int i + 1)]"
        "[0, 1]" 2 quantize_int "0::u64" seed_id] s r k small_draw_range
    by auto
  have "Reconstruct 2 (map (\<lambda>a. of_nat (a + 1)) [0, 1])
              (map (\<lambda>a. the (incoming_shares (m_clients c ! a) 2)) [0, 1])
            = Inr (personal_mask (m_clients c ! 2))"
    using w(4) by (intro w(4)[rule_format]) simp
  moreover have "result_sum res ! 0 = DDiv (DOfInt 6000000) (DOfInt 1000)"
    using w(9) q by simp
  ultimately show ?thesis using w(1,2,3,5,6,7,8) s k small_draw_range by auto
qed

lemma utf8_encode_values:
  "utf8_encode kZeroWidthZero = [0xE2, 0x80, 0x8B]"
  "utf8_encode kZeroWidthOne = [0xE2, 0x80, 0x8C]"
  "utf8_encode kZeroWidthMetaStart = [0xE2, 0x81, 0xA3]"
  "utf8_encode kZeroWidthMetaEnd = [0xE2, 0x81, 0xA4]"
  by (simp_all add: utf8_encode_def kZeroWidthZero_def kZeroWidthOne_def kZeroWidthMetaStart_def
      kZeroWidthMetaEnd_def)

lemma decode_cp_values:
  "decode_cp (0xE2 # 0x80 # 0x8B # xs) = Some (kZeroWidthZero, 3)"
  "decode_cp (0xE2 # 0x80 # 0x8C # xs) = Some (kZeroWidthOne, 3)"
  "decode_cp (0xE2 # 0x81 # 0xA3 # xs) = Some (kZeroWidthMetaStart, 3)"
  "decode_cp (0xE2 # 0x81 # 0xA4 # xs) = Some (kZeroWidthMetaEnd, 3)"
  by (simp_all add: kZeroWidthZero_def kZeroWidthOne_def kZeroWidthMetaStart_def
      kZeroWidthMetaEnd_def)

lemma EncodeZeroWidthBits_single: "EncodeZeroWidthBits [b] False = zw_bit b"
  by (simp add: EncodeZeroWidthBits_def zw_bit_def utf8_encode_values)

lemma EncodeZeroWidthBits_sentinels:
  "EncodeZeroWidthBits bits True
     = [0xE2, 0x81, 0xA3] @ concat (map zw_bit bits) @ [0xE2, 0x81, 0xA4]"
proof -
  have "concat (map utf8_encode (map (\<lambda>bit. if bit \<noteq> 0 then kZeroWidthOne else kZeroWidthZero) bits))
      = concat (map zw_bit bits)"
    by (induction bits) (simp_all add: zw_bit_def utf8_encode_values)
  then show ?thesis by (simp add: EncodeZeroWidthBits_def utf8_encode_values)
qed

lemma decode_cp_zw_bit:
  "decode_cp (zw_bit b @ xs) = Some (if b \<noteq> 0 then kZeroWidthOne else kZeroWidthZero, 3)"
  by (simp add: zw_bit_def decode_cp_values del: decode_cp.simps)

lemma kZeroWidth_distinct:
  "kZeroWidthZero \<noteq> kZeroWidthOne" "kZeroWidthZero \<noteq> kZeroWidthMetaEnd"
  "kZeroWidthOne \<noteq> kZeroWidthMetaEnd" "kZeroWidthOne \<noteq> kZeroWidthZero"
  by (simp_all add: kZeroWidthZero_def kZeroWidthOne_def kZeroWidthMetaEnd_def)

lemma decode_loop_bits:
  assumes "\<forall>b\<in>set bits. is_bit b"
  shows "decode_loop True (concat (map zw_bit bits) @ [0xE2, 0x81, 0xA4] @ body) acc
     = (acc @ bits, body)"
  using assms
proof (induction bits arbitrary: acc)
  case Nil
  show ?case by (simp add: decode_cp_values del: decode_cp.simps)
next
  case (Cons b bits)
  define tl' where "tl' = concat (map zw_bit bits) @ [0xE2, 0x81, 0xA4] @ body"
  have b: "b = 0 \<or> b = 1" using Cons.prems is_bit_cases[of b] by simp
  have e: "concat (map zw_bit (b # bits)) @ [0xE2, 0x81, 0xA4] @ body
      = 0xE2 # 0x80 # (if b \<noteq> 0 then 0x8C else 0x8B) # tl'"
    by (simp add: tl'_def zw_bit_def)
  have d: "decode_cp (0xE2 # 0x80 # (if b \<noteq> 0 then 0x8C else 0x8B) # tl')
      = Some (if b \<noteq> 0 then kZeroWidthOne else kZeroWidthZero, 3)"
    using decode_cp_zw_bit[of b tl'] by (simp add: zw_bit_def del: decode_cp.simps)
  have "decode_loop True (0xE2 # 0x80 # (if b \<noteq> 0 then 0x8C else 0x8B) # tl') acc
      = decode_loop True tl' (acc @ [b])"
    using b by (subst decode_loop.simps) (auto simp: d kZeroWidth_distinct simp del: decode_cp.simps)
  then show ?case unfolding e using Cons.IH[of "acc @ [b]"] Cons.prems by (simp add: tl'_def)
qed

lemma length_concat_zw_bit: "length (concat (map zw_bit bits)) = 3 * length bits"
  by (induction bits) (simp_all add: zw_bit_def)

lemma DecodeMetadata_EncodeMetadata:
  "DecodeMetadata (EncodeMetadata m @ body) = (m, length (EncodeMetadata m), True)"
proof -
  have enc: "EncodeMetadata m = [0xE2, 0x81, 0xA3] @ concat (map zw_bit (meta_bits m)) @ [0xE2, 0x81, 0xA4]"
    by (simp add: EncodeMetadata_def EncodeZeroWidthBits_sentinels meta_bits_def)
  have bits: "\<forall>b\<in>set (meta_bits m). is_bit b"
    using meta_bits_is_bit[of _ m] by (auto simp: in_set_conv_nth length_meta_bits)
  have dl: "decode_loop True (concat (map zw_bit (meta_bits m)) @ [0xE2, 0x81, 0xA4] @ body) []
      = (meta_bits m, body)"
    using decode_loop_bits[OF bits, of body "[]"] by simp
  have "DecodeZeroWidthBits (EncodeMetadata m @ body) 0 True
      = (meta_bits m, length (EncodeMetadata m))"
    unfolding enc DecodeZeroWidthBits_def
    using dl by (simp add: decode_cp_values Let_def del: decode_cp.simps)
  then show ?thesis
    by (simp add: DecodeMetadata_def length_meta_bits meta_bits_roundtrip)
qed

lemma embed_fold:
  "(case fold (embed_step fb) cs (b, cur, ti) of
      (builder, current_token, token_index) \<Rightarrow>
        (if current_token \<noteq> []
         then builder @ current_token
                @ (if token_index < length fb
                   then EncodeZeroWidthBits [fb ! token_index] False else [])
         else builder))
   = b @ cur @ ins fb cs (cur \<noteq> []) ti"
proof (induction cs arbitrary: b cur ti)
  case Nil
  show ?case by (simp add: EncodeZeroWidthBits_single)
next
  case (Cons c cs)
  show ?case
  proof (cases "isspace c")
    case True
    show ?thesis
    proof (cases "cur = []")
      case True
      then show ?thesis using \<open>isspace c\<close> Cons[of "b @ [c]" "[]" ti]
        by (simp add: embed_step_def)
    next
      case False
      then show ?thesis
        using \<open>isspace c\<close>
          Cons[of "b @ cur @ (if ti < length fb then EncodeZeroWidthBits [fb ! ti] False else []) @ [c]"
            "[]" "ti + 1"]
        by (simp add: embed_step_def EncodeZeroWidthBits_single)
    qed
  next
    case False
    then show ?thesis using Cons[of b "cur @ [c]" ti] by (simp add: embed_step_def)
  qed
qed

lemma Tokenize_fold:
  "length (case fold (\<lambda>c (tokens, current).
                   if isspace c
                   then (if current \<noteq> [] then (tokens @ [current], []) else (tokens, current))
                   else (tokens, current @ [c]))
                cs (toks, cur)
      of (tokens, current) \<Rightarrow> if current \<noteq> [] then tokens @ [current] else tokens)
   = length toks + ntok cs (cur \<noteq> [])"
proof (induction cs arbitrary: toks cur)
  case Nil
  show ?case by simp
next
  case (Cons c cs)
  show ?case
  proof (cases "isspace c")
    case True
    then show ?thesis
      using Cons[of "toks @ [cur]" "[]"] Cons[of toks cur] by (cases "cur = []") simp_all
  next
    case False
    then show ?thesis using Cons[of toks "cur @ [c]"] by simp
  qed
qed

lemma length_Tokenize: "length (Tokenize cs) = ntok cs False"
  unfolding Tokenize_def using Tokenize_fold[of cs "[]" "[]"] by simp

lemma text_bits_loop_props:
  "length (text_bits_loop mt_next tokens idx g) = length tokens
   \<and> (\<forall>b\<in>set (text_bits_loop mt_next tokens idx g). is_bit b)"
proof (induction tokens arbitrary: idx g)
  case Nil
  show ?case by simp
next
  case (Cons t ts)
  obtain r g' where d: "mt_next g = (r, g')" by (cases "mt_next g")
  have "is_bit (((ucast (StableHash (t @ to_string idx) AND 1) :: u8) XOR ucast (r AND 1)) AND 1)"
    by (rule is_bit_and_1)
  then show ?case using Cons[of "idx + 1" g'] d
    by (simp add: Let_def del: to_string.simps)
qed

lemma TextEmbed_text:
  "watermarked_text (TextEmbed mt_seed mt_next txt key seed)
     = EncodeMetadata (text_metadata (TextEmbed mt_seed mt_next txt key seed))
       @ ins (text_fingerprint_bits (TextEmbed mt_seed mt_next txt key seed))
           (StripZeroWidth txt) False 0"
  "text_metadata (TextEmbed mt_seed mt_next txt key seed)
     = \<lparr>version = 1, state_seed = seed, key_hash = StableHash key,
        fingerprint_length = of_nat (length (Tokenize (StripZeroWidth txt)))\<rparr>"
  "text_fingerprint_bits (TextEmbed mt_seed mt_next txt key seed)
     = TextComputeCombinedBits mt_seed mt_next (Tokenize (StripZeroWidth txt)) seed (StableHash key)"
proof -
  define fb where "fb = TextComputeCombinedBits mt_seed mt_next (Tokenize (StripZeroWidth txt)) seed
      (StableHash key)"
  define m where "m = \<lparr>version = 1, state_seed = seed, key_hash = StableHash key,
        fingerprint_length = of_nat (length (Tokenize (StripZeroWidth txt)))\<rparr>"
  obtain b cur ti where f: "fold (embed_step fb) (StripZeroWidth txt) (EncodeMetadata m, [], 0) = (b, cur, ti)"
    by (cases "fold (embed_step fb) (StripZeroWidth txt) (EncodeMetadata m, [], 0)")
  have e: "(if cur \<noteq> [] then b @ cur @ (if ti < length fb then EncodeZeroWidthBits [fb ! ti] False else [])
        else b) = EncodeMetadata m @ ins fb (StripZeroWidth txt) False 0"
    using embed_fold[of fb "StripZeroWidth txt" "EncodeMetadata m" "[]" 0] f by simp
  have kh: "key_hash m = StableHash key" by (simp add: m_def)
  have t: "TextEmbed mt_seed mt_next txt key seed
      = \<lparr>watermarked_text = EncodeMetadata m @ ins fb (StripZeroWidth txt) False 0,
         text_metadata = m, text_fingerprint_bits = fb\<rparr>"
    unfolding TextEmbed_def Let_def m_def[symmetric] kh fb_def[symmetric] f prod.case e ..
  show "watermarked_text (TextEmbed mt_seed mt_next txt key seed)
     = EncodeMetadata (text_metadata (TextEmbed mt_seed mt_next txt key seed))
       @ ins (text_fingerprint_bits (TextEmbed mt_seed mt_next txt key seed))
           (StripZeroWidth txt) False 0"
    unfolding t by simp
  show "text_metadata (TextEmbed mt_seed mt_next txt key seed)
     = \<lparr>version = 1, state_seed = seed, key_hash = StableHash key,
        fingerprint_length = of_nat (length (Tokenize (StripZeroWidth txt)))\<rparr>"
    unfolding t by (simp add: m_def)
  show "text_fingerprint_bits (TextEmbed mt_seed mt_next txt key seed)
     = TextComputeCombinedBits mt_seed mt_next (Tokenize (StripZeroWidth txt)) seed (StableHash key)"
    unfolding t by (simp add: fb_def)
qed

lemma isspace_ascii: "isspace c \<Longrightarrow> c < 0x80"
  unfolding isspace_def by (auto simp: word_le_nat_alt word_less_nat_alt)

lemma zw_bit13: "is_zw cp \<Longrightarrow> bit cp 13"
  unfolding is_zw_def kZeroWidthZero_def kZeroWidthOne_def kZeroWidthMetaStart_def
    kZeroWidthMetaEnd_def
  by (auto simp: bit_iff_odd_drop_bit drop_bit_eq_div)

lemma byte_not_zw: "\<not> is_zw (ucast (b :: u8))"
proof
  assume "is_zw (ucast b :: u32)"
  then have "bit (ucast b :: u32) 13" by (rule zw_bit13)
  then have "bit b 13" by (simp add: bit_ucast_iff)
  then show False using bit_imp_le_length[of b 13] by simp
qed

lemma two_byte_not_zw:
  fixes first b :: u8
  shows "\<not> is_zw (push_bit 6 (ucast (first AND 0x1F)) OR ucast (b AND 0x3F))"
proof
  assume "is_zw (push_bit 6 (ucast (first AND 0x1F)) OR ucast (b AND 0x3F))"
  then have b: "bit (push_bit 6 (ucast (first AND 0x1F)) OR ucast (b AND 0x3F) :: u32) 13"
    by (rule zw_bit13)
  have m5: "(0x1F::u8) = mask 5" by (simp add: mask_eq_exp_minus_1)
  have m6: "(0x3F::u8) = mask 6" by (simp add: mask_eq_exp_minus_1)
  have "\<not> bit (push_bit 6 (ucast (first AND mask 5)) OR ucast (b AND mask 6) :: u32) 13"
    by (simp add: bit_or_iff bit_push_bit_iff bit_ucast_iff bit_and_iff bit_mask_iff)
  then show False using b unfolding m5 m6 by simp
qed

text \<open>The four ways in which the decoder reads the head of a non-empty string.\<close>

lemma decode_cp_cases:
  obtains (ascii) "first < 0x80" "decode_cp (first # rest) = Some (ucast first, 1)"
  | (two) r0 rs where "\<not> first < 0x80" "rest = r0 # rs"
      "\<And>ys. decode_cp (first # r0 # ys)
         = Some (push_bit 6 (ucast (first AND 0x1F)) OR ucast (r0 AND 0x3F), 2)"
  | (three) r0 r1 rs where "\<not> first < 0x80" "rest = r0 # r1 # rs"
      "\<And>ys. decode_cp (first # r0 # r1 # ys)
         = Some (push_bit 12 (ucast (first AND 0x0F)) OR push_bit 6 (ucast (r0 AND 0x3F))
                   OR ucast (r1 AND 0x3F), 3)"
  | (none) "\<not> first < 0x80" "decode_cp (first # rest) = None"
proof (cases "first < 0x80")
  case True
  then show ?thesis using ascii by simp
next
  case nf: False
  show ?thesis
  proof (cases "first AND 0xE0 = 0xC0 \<and> 1 \<le> length rest")
    case True
    then obtain r0 rs where "rest = r0 # rs" by (cases rest) auto
    then show ?thesis using two[of r0 rs] nf True by simp
  next
    case n2: False
    show ?thesis
    proof (cases "first AND 0xF0 = 0xE0 \<and> 2 \<le> length rest")
      case True
      then obtain r0 r1 rs where r: "rest = r0 # r1 # rs"
        by (cases rest; cases "tl rest") auto
      have "first AND 0xE0 \<noteq> 0xC0" using not_both[of first] True by simp
      then show ?thesis using three[of r0 r1 rs] nf True r by simp
    next
      case False
      then show ?thesis using none nf n2 by simp
    qed
  qed
qed

lemma decode_cp_nonlead:
  assumes "\<not> first < 0x80" "first AND 0xE0 \<noteq> 0xC0" "first AND 0xF0 \<noteq> 0xE0"
  shows "decode_cp (first # ys) = None"
  using assms by simp

lemma strip_keep:
  assumes "decode_cp (f # r) = Some (cp, n)" "\<not> is_zw cp"
  shows "StripZeroWidth (f # r) = take n (f # r) @ StripZeroWidth (drop n (f # r))"
  using assms by (simp add: is_zw_def del: decode_cp.simps)

lemma strip_drop:
  assumes "decode_cp (f # r) = Some (cp, n)" "is_zw cp"
  shows "StripZeroWidth (f # r) = StripZeroWidth (drop n (f # r))"
  using assms by (auto simp: is_zw_def simp del: decode_cp.simps)

lemma strip_none:
  assumes "decode_cp (f # r) = None"
  shows "StripZeroWidth (f # r) = f # StripZeroWidth r"
  using assms byte_not_zw[of f] by (simp add: is_zw_def del: decode_cp.simps)

lemma strip_zw_bit: "StripZeroWidth (zw_bit b @ ys) = StripZeroWidth ys"
proof -
  have "zw_bit b @ ys = 0xE2 # (0x80 # (if b \<noteq> 0 then 0x8C else 0x8B) # ys)"
    by (simp add: zw_bit_def)
  moreover have "decode_cp (0xE2 # (0x80 # (if b \<noteq> 0 then 0x8C else 0x8B) # ys))
      = Some (if b \<noteq> 0 then kZeroWidthOne else kZeroWidthZero, 3)"
    using decode_cp_zw_bit[of b ys] by (simp add: zw_bit_def del: decode_cp.simps)
  moreover have "is_zw (if b \<noteq> 0 then kZeroWidthOne else kZeroWidthZero)"
    by (simp add: is_zw_def)
  ultimately show ?thesis using strip_drop by (simp del: decode_cp.simps StripZeroWidth.simps)
qed

lemma detect_space:
  assumes "isspace f"
  shows "detect_scan N (f # r) ex ti cur = detect_scan N r ex ti []"
  using assms isspace_ascii[OF assms] by simp

lemma detect_zw_bit:
  assumes "ti < N" "is_bit b"
  shows "detect_scan N (zw_bit b @ ys) ex ti cur = detect_scan N ys (ex @ [b]) (ti + 1) cur"
proof -
  have e: "zw_bit b @ ys = 0xE2 # (0x80 # (if b \<noteq> 0 then 0x8C else 0x8B) # ys)"
    by (simp add: zw_bit_def)
  have d: "decode_cp (0xE2 # (0x80 # (if b \<noteq> 0 then 0x8C else 0x8B) # ys))
      = Some (if b \<noteq> 0 then kZeroWidthOne else kZeroWidthZero, 3)"
    using decode_cp_zw_bit[of b ys] by (simp add: zw_bit_def del: decode_cp.simps)
  have ns: "\<not> isspace (0xE2 :: u8)" by (simp add: isspace_def)
  have b: "b = 0 \<or> b = 1" using assms(2) is_bit_cases[of b] by simp
  show ?thesis
    unfolding e using b assms(1)
    by (subst detect_scan.simps) (auto simp: d ns kZeroWidth_distinct simp del: decode_cp.simps)
qed

lemma detect_other:
  assumes "decode_cp (f # r) = Some (cp, n)" "\<not> is_zw cp" "\<not> isspace f"
  shows "\<exists>cur'. detect_scan N (f # r) ex ti cur = detect_scan N (drop n (f # r)) ex ti cur'"
  using assms by (subst detect_scan.simps) (auto simp: is_zw_def simp del: decode_cp.simps)

lemma detect_none:
  assumes "decode_cp (f # r) = None" "\<not> isspace f"
  shows "\<exists>cur'. detect_scan N (f # r) ex ti cur = detect_scan N r ex ti cur'"
  using assms byte_not_zw[of f]
  by (subst detect_scan.simps) (auto simp: is_zw_def simp del: decode_cp.simps)

lemma clean_StripZeroWidth: "aligned tx \<Longrightarrow> clean (StripZeroWidth tx)"
proof (induction tx rule: aligned.induct)
  case 1
  show ?case by simp
next
  case (2 first rest)
  show ?case
  proof (cases rule: decode_cp_cases[of first rest])
    case ascii
    have al: "aligned rest" using "2.prems" ascii by (simp del: decode_cp.simps)
    have ih: "clean (StripZeroWidth rest)" using "2.IH"(2)[OF ascii(2) refl] al by simp
    have s: "StripZeroWidth (first # rest) = first # StripZeroWidth rest"
      using strip_keep[OF ascii(2) byte_not_zw] by simp
    have "decode_cp (first # StripZeroWidth rest) = Some (ucast first, 1)"
      using ascii(1) by simp
    then show ?thesis unfolding s using ih byte_not_zw[of first] by (simp del: decode_cp.simps)
  next
    case (two r0 rs)
    define cp :: u32 where "cp = push_bit 6 (ucast (first AND 0x1F)) OR ucast (r0 AND 0x3F)"
    have d: "decode_cp (first # r0 # ys) = Some (cp, 2)" for ys using two(3) by (simp add: cp_def)
    have nz: "\<not> is_zw cp" unfolding cp_def by (rule two_byte_not_zw)
    have al: "\<not> isspace r0" "aligned rs"
      using "2.prems" d[of rs] unfolding two(2) by (simp_all del: decode_cp.simps)
    have ih: "clean (StripZeroWidth rs)"
      using "2.IH"(2)[OF d[of rs, folded two(2)] refl] al(2) by (simp add: two(2))
    have s: "StripZeroWidth (first # rest) = first # r0 # StripZeroWidth rs"
      unfolding two(2) using strip_keep[OF d[of rs] nz] by simp
    show ?thesis unfolding s using d[of "StripZeroWidth rs"] nz al(1) ih
      by (simp del: decode_cp.simps)
  next
    case (three r0 r1 rs)
    define cp :: u32 where "cp = push_bit 12 (ucast (first AND 0x0F)) OR push_bit 6 (ucast (r0 AND 0x3F))
                   OR ucast (r1 AND 0x3F)"
    have d: "decode_cp (first # r0 # r1 # ys) = Some (cp, 3)" for ys
      using three(3) by (simp add: cp_def)
    have al: "\<not> isspace r0" "\<not> isspace r1" "aligned rs"
      using "2.prems" d[of rs] unfolding three(2) by (simp_all del: decode_cp.simps)
    have ih: "clean (StripZeroWidth rs)"
      using "2.IH"(2)[OF d[of rs, folded three(2)] refl] al(3) by (simp add: three(2))
    show ?thesis
    proof (cases "is_zw cp")
      case True
      then have "StripZeroWidth (first # rest) = StripZeroWidth rs"
        unfolding three(2) using strip_drop[OF d[of rs]] by simp
      then show ?thesis using ih by simp
    next
      case False
      then have s: "StripZeroWidth (first # rest) = first # r0 # r1 # StripZeroWidth rs"
        unfolding three(2) using strip_keep[OF d[of rs]] by simp
      show ?thesis unfolding s using d[of "StripZeroWidth rs"] False al(1,2) ih
        by (simp del: decode_cp.simps)
    qed
  next
    case none
    have al: "first AND 0xE0 \<noteq> 0xC0" "first AND 0xF0 \<noteq> 0xE0" "aligned rest"
      using "2.prems" none(2) by (simp_all del: decode_cp.simps)
    have ih: "clean (StripZeroWidth rest)" using "2.IH"(1)[OF none(2)] al(3) by simp
    have s: "StripZeroWidth (first # rest) = first # StripZeroWidth rest"
      by (rule strip_none[OF none(2)])
    have "decode_cp (first # StripZeroWidth rest) = None"
      by (rule decode_cp_nonlead[OF none(1) al(1,2)])
    then show ?thesis unfolding s using al(1,2) ih by (simp del: decode_cp.simps)
  qed
qed

lemma ins_nonspace: "\<not> isspace c \<Longrightarrow> ins fb (c # cs) intok ti = c # ins fb cs True ti"
  by simp

lemma ntok_nonspace: "\<not> isspace c \<Longrightarrow> ntok (c # cs) intok = ntok cs True"
  by simp

lemma not_ascii_not_space: "\<not> c < 0x80 \<Longrightarrow> \<not> isspace c"
  using isspace_ascii by blast

text \<open>Stripping the marked text gives the cleaned text back.\<close>

lemma StripZeroWidth_ins: "clean cs \<Longrightarrow> StripZeroWidth (ins fb cs intok ti) = cs"
proof (induction cs arbitrary: intok ti rule: clean.induct)
  case 1
  show ?case using strip_zw_bit[of "fb ! ti" "[]"] by simp
next
  case (2 first rest)
  show ?case
  proof (cases rule: decode_cp_cases[of first rest])
    case ascii
    have cl: "clean rest" using "2.prems" ascii by (simp del: decode_cp.simps)
    have ih: "StripZeroWidth (ins fb rest k j) = rest" for k j
      using "2.IH"(2)[OF ascii(2) refl] cl by simp
    have keep: "StripZeroWidth (first # ys) = first # StripZeroWidth ys" for ys
    proof -
      have "decode_cp (first # ys) = Some (ucast first, 1)" using ascii(1) by simp
      then show ?thesis using strip_keep[OF _ byte_not_zw] by simp
    qed
    show ?thesis
    proof (cases "isspace first")
      case True
      then show ?thesis using keep ih strip_zw_bit
        by (simp del: StripZeroWidth.simps)
    next
      case False
      then show ?thesis using keep ih by (simp del: StripZeroWidth.simps)
    qed
  next
    case (two r0 rs)
    define cp :: u32 where "cp = push_bit 6 (ucast (first AND 0x1F)) OR ucast (r0 AND 0x3F)"
    have d: "decode_cp (first # r0 # ys) = Some (cp, 2)" for ys using two(3) by (simp add: cp_def)
    have cl: "\<not> is_zw cp" "\<not> isspace r0" "clean rs"
      using "2.prems" d[of rs] unfolding two(2) by (simp_all del: decode_cp.simps)
    have ih: "StripZeroWidth (ins fb rs k j) = rs" for k j
      using "2.IH"(2)[OF d[of rs, folded two(2)] refl] cl(3) by (simp add: two(2))
    have i: "ins fb (first # rest) intok ti = first # r0 # ins fb rs True ti"
      unfolding two(2) using not_ascii_not_space[OF two(1)] cl(2) by simp
    show ?thesis unfolding i using strip_keep[OF d cl(1)] ih
      by (simp add: two(2) del: StripZeroWidth.simps)
  next
    case (three r0 r1 rs)
    define cp :: u32 where "cp = push_bit 12 (ucast (first AND 0x0F)) OR push_bit 6 (ucast (r0 AND 0x3F))
                   OR ucast (r1 AND 0x3F)"
    have d: "decode_cp (first # r0 # r1 # ys) = Some (cp, 3)" for ys
      using three(3) by (simp add: cp_def)
    have cl: "\<not> is_zw cp" "\<not> isspace r0" "\<not> isspace r1" "clean rs"
      using "2.prems" d[of rs] unfolding three(2) by (simp_all del: decode_cp.simps)
    have ih: "StripZeroWidth (ins fb rs k j) = rs" for k j
      using "2.IH"(2)[OF d[of rs, folded three(2)] refl] cl(4) by (simp add: three(2))
    have i: "ins fb (first # rest) intok ti = first # r0 # r1 # ins fb rs True ti"
      unfolding three(2) using not_ascii_not_space[OF three(1)] cl(2,3) by simp
    show ?thesis unfolding i using strip_keep[OF d cl(1)] ih
      by (simp add: three(2) del: StripZeroWidth.simps)
  next
    case none
    have cl: "first AND 0xE0 \<noteq> 0xC0" "first AND 0xF0 \<noteq> 0xE0" "clean rest"
      using "2.prems" none(2) by (simp_all del: decode_cp.simps)
    have ih: "StripZeroWidth (ins fb rest k j) = rest" for k j
      using "2.IH"(1)[OF none(2)] cl(3) by simp
    have i: "ins fb (first # rest) intok ti = first # ins fb rest True ti"
      using not_ascii_not_space[OF none(1)] by simp
    have "decode_cp (first # ys) = None" for ys
      by (rule decode_cp_nonlead[OF none(1) cl(1,2)])
    then show ?thesis unfolding i using strip_none ih by (simp del: StripZeroWidth.simps)
  qed
qed

lemma take_Suc_drop:
  assumes "ti < length fb"
  shows "take (Suc k) (drop ti fb) = fb ! ti # take k (drop (Suc ti) fb)"
  using assms by (simp add: Cons_nth_drop_Suc[symmetric])

text \<open>The scanning loop of \<open>Detect\<close> reads the marked text's bits back in order.\<close>

lemma detect_scan_ins:
  assumes "clean cs" "ti + ntok cs intok \<le> length fb" "\<forall>b\<in>set fb. is_bit b"
  shows "detect_scan (length fb) (ins fb cs intok ti) ex ti cur
       = ex @ take (ntok cs intok) (drop ti fb)"
  using assms
proof (induction cs arbitrary: intok ti ex cur rule: clean.induct)
  case 1
  show ?case
  proof (cases intok)
    case True
    then have lt: "ti < length fb" using "1.prems"(2) by simp
    then have b: "is_bit (fb ! ti)" using "1.prems"(3) by simp
    show ?thesis
      using True lt detect_zw_bit[OF lt b, of "[]" ex cur] take_Suc_drop[OF lt, of 0]
      by (simp del: detect_scan.simps(2))
  next
    case False
    then show ?thesis by simp
  qed
next
  case (2 first rest)
  note bits = "2.prems"(3)
  show ?case
  proof (cases rule: decode_cp_cases[of first rest])
    case ascii
    have cl: "clean rest" using "2.prems"(1) ascii by (simp del: decode_cp.simps)
    have ih: "detect_scan (length fb) (ins fb rest k j) e j c = e @ take (ntok rest k) (drop j fb)"
      if "j + ntok rest k \<le> length fb" for k j e c
      using "2.IH"(2)[OF ascii(2) refl _ _ bits, of j k e c] cl that by simp
    show ?thesis
    proof (cases "isspace first")
      case sp: True
      show ?thesis
      proof (cases intok)
        case True
        then have n: "ntok (first # rest) intok = Suc (ntok rest False)" using sp by simp
        then have lt: "ti < length fb" and le: "Suc ti + ntok rest False \<le> length fb"
          using "2.prems"(2) by simp_all
        have b: "is_bit (fb ! ti)" using bits lt by simp
        have i: "ins fb (first # rest) intok ti
            = zw_bit (fb ! ti) @ first # ins fb rest False (Suc ti)"
          using True sp lt by simp
        have "detect_scan (length fb) (ins fb (first # rest) intok ti) ex ti cur
            = detect_scan (length fb) (first # ins fb rest False (Suc ti)) (ex @ [fb ! ti]) (Suc ti) cur"
          unfolding i using detect_zw_bit[OF lt b] by (simp del: detect_scan.simps)
        also have "\<dots> = detect_scan (length fb) (ins fb rest False (Suc ti)) (ex @ [fb ! ti]) (Suc ti) []"
          by (rule detect_space[OF sp])
        also have "\<dots> = (ex @ [fb ! ti]) @ take (ntok rest False) (drop (Suc ti) fb)"
          by (rule ih[OF le])
        finally show ?thesis unfolding n take_Suc_drop[OF lt] by (simp del: detect_scan.simps)
      next
        case False
        then have n: "ntok (first # rest) intok = ntok rest False" using sp by simp
        have i: "ins fb (first # rest) intok ti = first # ins fb rest False ti"
          using False sp by simp
        show ?thesis unfolding i n using detect_space[OF sp] ih "2.prems"(2) n
          by (simp del: detect_scan.simps)
      qed
    next
      case False
      have n: "ntok (first # rest) intok = ntok rest True" using False by simp
      have i: "ins fb (first # rest) intok ti = first # ins fb rest True ti" using False by simp
      have d: "decode_cp (first # ins fb rest True ti) = Some (ucast first, 1)"
        using ascii(1) by simp
      obtain c' where "detect_scan (length fb) (first # ins fb rest True ti) ex ti cur
          = detect_scan (length fb) (ins fb rest True ti) ex ti c'"
        using detect_other[OF d byte_not_zw False, of "length fb" ex ti cur]
        by (auto simp del: detect_scan.simps decode_cp.simps)
      then show ?thesis unfolding i n using ih "2.prems"(2) n
      by (simp del: detect_scan.simps decode_cp.simps)
    qed
  next
    case (two r0 rs)
    define cp :: u32 where "cp = push_bit 6 (ucast (first AND 0x1F)) OR ucast (r0 AND 0x3F)"
    have d: "decode_cp (first # r0 # ys) = Some (cp, 2)" for ys using two(3) by (simp add: cp_def)
    have cl: "\<not> is_zw cp" "\<not> isspace r0" "clean rs"
      using "2.prems"(1) d[of rs] unfolding two(2) by (simp_all del: decode_cp.simps)
    have ns: "\<not> isspace first" by (rule not_ascii_not_space[OF two(1)])
    have ih: "detect_scan (length fb) (ins fb rs k j) e j c = e @ take (ntok rs k) (drop j fb)"
      if "j + ntok rs k \<le> length fb" for k j e c
      using "2.IH"(2)[OF d[of rs, folded two(2)] refl _ _ bits, of j k e c] cl(3) that
      by (simp add: two(2))
    have n: "ntok (first # rest) intok = ntok rs True" unfolding two(2) using ns cl(2) by simp
    have i: "ins fb (first # rest) intok ti = first # r0 # ins fb rs True ti"
      unfolding two(2) using ns cl(2) by simp
    obtain c' where "detect_scan (length fb) (first # r0 # ins fb rs True ti) ex ti cur
          = detect_scan (length fb) (ins fb rs True ti) ex ti c'"
      using detect_other[OF d[of "ins fb rs True ti"] cl(1) ns, of "length fb" ex ti cur]
        by (auto simp del: detect_scan.simps decode_cp.simps)
    then show ?thesis unfolding i n using ih "2.prems"(2) n
      by (simp del: detect_scan.simps decode_cp.simps)
  next
    case (three r0 r1 rs)
    define cp :: u32 where "cp = push_bit 12 (ucast (first AND 0x0F)) OR push_bit 6 (ucast (r0 AND 0x3F))
                   OR ucast (r1 AND 0x3F)"
    have d: "decode_cp (first # r0 # r1 # ys) = Some (cp, 3)" for ys
      using three(3) by (simp add: cp_def)
    have cl: "\<not> is_zw cp" "\<not> isspace r0" "\<not> isspace r1" "clean rs"
      using "2.prems"(1) d[of rs] unfolding three(2) by (simp_all del: decode_cp.simps)
    have ns: "\<not> isspace first" by (rule not_ascii_not_space[OF three(1)])
    have ih: "detect_scan (length fb) (ins fb rs k j) e j c = e @ take (ntok rs k) (drop j fb)"
      if "j + ntok rs k \<le> length fb" for k j e c
      using "2.IH"(2)[OF d[of rs, folded three(2)] refl _ _ bits, of j k e c] cl(4) that
      by (simp add: three(2))
    have n: "ntok (first # rest) intok = ntok rs True" unfolding three(2) using ns cl(2,3) by simp
    have i: "ins fb (first # rest) intok ti = first # r0 # r1 # ins fb rs True ti"
      unfolding three(2) using ns cl(2,3) by simp
    obtain c' where "detect_scan (length fb) (first # r0 # r1 # ins fb rs True ti) ex ti cur
          = detect_scan (length fb) (ins fb rs True ti) ex ti c'"
      using detect_other[OF d[of "ins fb rs True ti"] cl(1) ns, of "length fb" ex ti cur]
        by (auto simp del: detect_scan.simps decode_cp.simps)
    then show ?thesis unfolding i n using ih "2.prems"(2) n
      by (simp del: detect_scan.simps decode_cp.simps)
  next
    case none
    have cl: "first AND 0xE0 \<noteq> 0xC0" "first AND 0xF0 \<noteq> 0xE0" "clean rest"
      using "2.prems"(1) none(2) by (simp_all del: decode_cp.simps)
    have ns: "\<not> isspace first" by (rule not_ascii_not_space[OF none(1)])
    have ih: "detect_scan (length fb) (ins fb rest k j) e j c = e @ take (ntok rest k) (drop j fb)"
      if "j + ntok rest k \<le> length fb" for k j e c
      using "2.IH"(1)[OF none(2) _ _ bits, of j k e c] cl(3) that by simp
    have n: "ntok (first # rest) intok = ntok rest True" using ns by simp
    have i: "ins fb (first # rest) intok ti = first # ins fb rest True ti" using ns by simp
    have d: "decode_cp (first # ins fb rest True ti) = None"
      by (rule decode_cp_nonlead[OF none(1) cl(1,2)])
    obtain c' where "detect_scan (length fb) (first # ins fb rest True ti) ex ti cur
          = detect_scan (length fb) (ins fb rest True ti) ex ti c'"
      using detect_none[OF d ns, of "length fb" ex ti cur]
        by (auto simp del: detect_scan.simps decode_cp.simps)
    then show ?thesis unfolding i n using ih "2.prems"(2) n
      by (simp del: detect_scan.simps decode_cp.simps)
  qed
qed

lemma score_bits_same:
  "score_bits fb fb =
     \<lparr>score = (if length fb = 0 then DConst 0
               else DDiv (DOfInt (int (length fb))) (DOfInt (int (length fb)))),
      false_positive_rate =
        (if length fb = 0 then DConst 1
         else DMul (DConst (1/2)) (DErfc (DDiv
           (DDiv (DSub (DOfInt (int (length fb))) (DMul (DConst (1/2)) (DOfInt (int (length fb)))))
                 (DSqrt (DAdd (DMul (DConst (1/4)) (DOfInt (int (length fb)))) (DConst (1 / 10 ^ 9)))))
           (DSqrt (DConst 2))))),
      total_bits = length fb, matching_bits = length fb, metadata_valid = True\<rparr>"
  by (simp add: score_bits_def Let_def)

lemma TextDetect_TextEmbed:
  assumes al: "aligned tx"
  shows "TextDetect mt_seed mt_next (watermarked_text (TextEmbed mt_seed mt_next tx key seed))
       = score_bits (text_fingerprint_bits (TextEmbed mt_seed mt_next tx key seed))
           (text_fingerprint_bits (TextEmbed mt_seed mt_next tx key seed))"
    and "length (text_fingerprint_bits (TextEmbed mt_seed mt_next tx key seed))
       = length (Tokenize (StripZeroWidth tx))"
proof -
  define cleaned where "cleaned = StripZeroWidth tx"
  define tokens where "tokens = Tokenize cleaned"
  define m where "m = \<lparr>version = 1, state_seed = seed, key_hash = StableHash key,
        fingerprint_length = of_nat (length tokens)\<rparr>"
  define fb where "fb = TextComputeCombinedBits mt_seed mt_next tokens seed (StableHash key)"
  define body where "body = ins fb cleaned False 0"
  have e: "watermarked_text (TextEmbed mt_seed mt_next tx key seed) = EncodeMetadata m @ body"
      "text_fingerprint_bits (TextEmbed mt_seed mt_next tx key seed) = fb"
    unfolding TextEmbed_text by (simp_all add: m_def fb_def body_def tokens_def cleaned_def)
  have cl: "clean cleaned" unfolding cleaned_def by (rule clean_StripZeroWidth[OF al])
  have fbp: "length fb = length tokens" "\<forall>b\<in>set fb. is_bit b"
    using text_bits_loop_props[of mt_next tokens 0 "mt_seed (seed XOR StableHash key)"]
    by (simp_all add: fb_def TextComputeCombinedBits_def)
  then show "length (text_fingerprint_bits (TextEmbed mt_seed mt_next tx key seed))
       = length (Tokenize (StripZeroWidth tx))"
    unfolding e by (simp add: tokens_def cleaned_def)
  have nt: "ntok cleaned False = length fb"
    using length_Tokenize[of cleaned] fbp(1) by (simp add: tokens_def)
  have dm: "DecodeMetadata (EncodeMetadata m @ body) = (m, length (EncodeMetadata m), True)"
    by (rule DecodeMetadata_EncodeMetadata)
  have st: "StripZeroWidth body = cleaned"
    unfolding body_def by (rule StripZeroWidth_ins[OF cl])
  have "detect_scan (length fb) body [] 0 [] = [] @ take (ntok cleaned False) (drop 0 fb)"
    unfolding body_def by (rule detect_scan_ins[OF cl _ fbp(2)]) (simp add: nt)
  then have ds: "detect_scan (length tokens) body [] 0 [] = fb"
    unfolding nt using fbp(1) by simp
  have mf: "version m = 1" "state_seed m = seed" "key_hash m = StableHash key"
    by (simp_all add: m_def)
  have "TextDetect mt_seed mt_next (EncodeMetadata m @ body) = score_bits fb fb"
    unfolding TextDetect_def dm prod.case Let_def
    by (simp add: mf st tokens_def[symmetric] fb_def[symmetric] ds
        del: StripZeroWidth.simps detect_scan.simps)
  then show "TextDetect mt_seed mt_next (watermarked_text (TextEmbed mt_seed mt_next tx key seed))
       = score_bits (text_fingerprint_bits (TextEmbed mt_seed mt_next tx key seed))
           (text_fingerprint_bits (TextEmbed mt_seed mt_next tx key seed))"
    unfolding e .
qed

lemma aligned_ascii: "\<forall>b\<in>set tx. b < 0x80 \<Longrightarrow> aligned tx"
  by (induction tx) simp_all

text \<open>
  Claim C5, as amended. For every text payload that is read in complete characters
  (\<open>aligned\<close>: in particular every ASCII and every well-formed UTF-8 text), every key and
  state seed: \<open>Detect\<close> on the string returned by \<open>Embed\<close> reports \<open>metadata_valid = true\<close>,
  \<open>total_bits\<close> equal to the number of whitespace-delimited tokens of the stripped
  payload, \<open>matching_bits = total_bits\<close>, and the score \<open>total_bits / total_bits\<close> (that
  is 1.0) whenever there is at least one token, and 0.0 otherwise.
\<close>

theorem text_roundtrip:
  assumes "aligned tx"
  shows "\<exists>d. TextDetect mt_seed mt_next (watermarked_text (TextEmbed mt_seed mt_next tx key seed)) = d
      \<and> d = score_bits (text_fingerprint_bits (TextEmbed mt_seed mt_next tx key seed))
                        (text_fingerprint_bits (TextEmbed mt_seed mt_next tx key seed))
      \<and> metadata_valid d
      \<and> total_bits d = length (Tokenize (StripZeroWidth tx))
      \<and> matching_bits d = total_bits d
      \<and> score d = (if total_bits d = 0 then DConst 0
                    else DDiv (DOfInt (int (total_bits d))) (DOfInt (int (total_bits d))))"
proof -
  define fb where "fb = text_fingerprint_bits (TextEmbed mt_seed mt_next tx key seed)"
  have d: "TextDetect mt_seed mt_next (watermarked_text (TextEmbed mt_seed mt_next tx key seed))
      = score_bits fb fb"
    unfolding fb_def by (rule TextDetect_TextEmbed(1)[OF assms])
  have l: "length fb = length (Tokenize (StripZeroWidth tx))"
    unfolding fb_def by (rule TextDetect_TextEmbed(2)[OF assms])
  have "metadata_valid (score_bits fb fb)" "total_bits (score_bits fb fb) = length fb"
    "matching_bits (score_bits fb fb) = length fb"
    "score (score_bits fb fb) = (if length fb = 0 then DConst 0
        else DDiv (DOfInt (int (length fb))) (DOfInt (int (length fb))))"
    unfolding score_bits_same by simp_all
  then show ?thesis unfolding d fb_def[symmetric] using l by simp
qed

lemma aligned_sample: "aligned [0x61, 0x62, 0x20, 0xC3, 0xA9, 0x20, 0xE2, 0x82, 0xAC]"
  by (simp add: isspace_def)

theorem text_roundtrip_witness:
  "aligned [0x61, 0x62, 0x20, 0xC3, 0xA9, 0x20, 0xE2, 0x82, 0xAC]
   \<and> (\<exists>d. TextDetect seed_id next_counter
              (watermarked_text (TextEmbed seed_id next_counter
                 [0x61, 0x62, 0x20, 0xC3, 0xA9, 0x20, 0xE2, 0x82, 0xAC] [0x6B] 7)) = d
      \<and> d = score_bits
              (text_fingerprint_bits (TextEmbed seed_id next_counter
                 [0x61, 0x62, 0x20, 0xC3, 0xA9, 0x20, 0xE2, 0x82, 0xAC] [0x6B] 7))
              (text_fingerprint_bits (TextEmbed seed_id next_counter
                 [0x61, 0x62, 0x20, 0xC3, 0xA9, 0x20, 0xE2, 0x82, 0xAC] [0x6B] 7))
      \<and> metadata_valid d
      \<and> total_bits d = length (Tokenize (StripZeroWidth
                 [0x61, 0x62, 0x20, 0xC3, 0xA9, 0x20, 0xE2, 0x82, 0xAC]))
      \<and> matching_bits d = total_bits d
      \<and> score d = (if total_bits d = 0 then DConst 0
                    else DDiv (DOfInt (int (total_bits d))) (DOfInt (int (total_bits d)))))"
  using text_roundtrip[OF aligned_sample, of seed_id next_counter "[0x6B]" 7] aligned_sample
  by blast

lemma TextDetect_truncated_lead:
  "TextDetect mt_seed mt_next (watermarked_text (TextEmbed mt_seed mt_next [0xC3] key seed))
     = score_bits
         (TextComputeCombinedBits mt_seed mt_next
            (Tokenize (StripZeroWidth (0xC3 # zw_bit
               (text_fingerprint_bits (TextEmbed mt_seed mt_next [0xC3] key seed) ! 0))))
            seed (StableHash key))
         []"
proof -
  define fb where "fb = text_fingerprint_bits (TextEmbed mt_seed mt_next [0xC3] key seed)"
  define m where "m = text_metadata (TextEmbed mt_seed mt_next [0xC3] key seed)"
  have s: "StripZeroWidth [0xC3] = [0xC3]"
    by (simp add: kZeroWidthZero_def kZeroWidthOne_def kZeroWidthMetaStart_def kZeroWidthMetaEnd_def)
  have t: "Tokenize [0xC3] = [[0xC3]]" by (simp add: Tokenize_def isspace_def)
  have lf: "length fb = 1"
    unfolding fb_def TextEmbed_text(3) s t TextComputeCombinedBits_def
    using text_bits_loop_props[of mt_next "[[0xC3]]" 0] by simp
  have body: "ins fb [0xC3] False 0 = 0xC3 # zw_bit (fb ! 0)"
    using lf by (simp add: isspace_def)
  have w: "watermarked_text (TextEmbed mt_seed mt_next [0xC3] key seed)
      = EncodeMetadata m @ 0xC3 # zw_bit (fb ! 0)"
    unfolding TextEmbed_text(1) s fb_def[symmetric] m_def[symmetric] body ..
  have mf: "version m = 1" "state_seed m = seed" "key_hash m = StableHash key"
    unfolding m_def TextEmbed_text(2) by simp_all
  have ds: "detect_scan N (0xC3 # zw_bit b) [] 0 [] = []" for N b
    by (simp add: zw_bit_def isspace_def kZeroWidthZero_def kZeroWidthOne_def)
  show ?thesis
    unfolding w TextDetect_def DecodeMetadata_EncodeMetadata prod.case Let_def fb_def[symmetric]
    by (simp add: mf ds del: StripZeroWidth.simps detect_scan.simps)
qed

text \<open>
  The claim as stated fails for a payload that ends a token with the first byte of a
  multi-byte form, such as the single byte \<open>0xC3\<close>: the decoder of \<open>Detect\<close> reads that byte
  together with the first byte of the bit character that \<open>Embed\<close> put after it, so no bit
  is extracted; there is one token and \<open>total_bits = 0\<close>.
\<close>

theorem text_roundtrip_counterexample:
  "metadata_valid (TextDetect seed_id next_counter
       (watermarked_text (TextEmbed seed_id next_counter [0xC3] [] 0)))
   \<and> total_bits (TextDetect seed_id next_counter
       (watermarked_text (TextEmbed seed_id next_counter [0xC3] [] 0))) = 0
   \<and> length (Tokenize (StripZeroWidth [0xC3])) = 1"
proof -
  have "length (Tokenize (StripZeroWidth [0xC3])) = 1"
    by (simp add: Tokenize_def isspace_def kZeroWidthZero_def kZeroWidthOne_def
        kZeroWidthMetaStart_def kZeroWidthMetaEnd_def)
  then show ?thesis
    unfolding TextDetect_truncated_lead by (simp add: score_bits_def Let_def)
qed

lemma and_and_u8: "(c AND a) AND b = c AND (a AND b)" for a b c :: u8
  by (simp add: and.assoc)

lemma cont_props:
  assumes "utf8_cont c"
  shows "\<not> c < 0x80" "c AND 0xE0 \<noteq> 0xC0" "c AND 0xF0 \<noteq> 0xE0" "\<not> isspace c"
proof -
  have c: "c AND 0xC0 = 0x80" using assms by (simp add: utf8_cont_def)
  have "c AND 0xC0 \<le> c" by (rule word_and_le2)
  then show nl: "\<not> c < 0x80" unfolding c by (simp add: not_less)
  show "c AND 0xE0 \<noteq> 0xC0"
  proof
    assume "c AND 0xE0 = 0xC0"
    then have "(c AND 0xE0) AND 0xC0 = 0xC0 AND 0xC0" by simp
    then show False unfolding and_and_u8 using c by simp
  qed
  show "c AND 0xF0 \<noteq> 0xE0"
  proof
    assume "c AND 0xF0 = 0xE0"
    then have "(c AND 0xF0) AND 0xC0 = 0xE0 AND 0xC0" by simp
    then show False unfolding and_and_u8 using c by simp
  qed
  show "\<not> isspace c" using nl isspace_ascii by blast
qed

lemma lead4_props:
  fixes b :: u8
  assumes "b AND 0xF8 = 0xF0"
  shows "\<not> b < 0x80" "b AND 0xE0 \<noteq> 0xC0" "b AND 0xF0 \<noteq> 0xE0"
proof -
  have "b AND 0xF8 \<le> b" by (rule word_and_le2)
  then show "\<not> b < 0x80" unfolding assms by (simp add: not_less word_le_nat_alt word_less_nat_alt)
  have "(b AND 0xF8) AND 0xE0 = 0xF0 AND 0xE0" using assms by simp
  then show "b AND 0xE0 \<noteq> 0xC0" unfolding and_and_u8 by simp
  have "(b AND 0xF8) AND 0xF0 = 0xF0 AND 0xF0" using assms by simp
  then show "b AND 0xF0 \<noteq> 0xE0" unfolding and_and_u8 by simp
qed

lemma aligned_cont: "utf8_cont c \<Longrightarrow> aligned (c # bs) = aligned bs"
  using cont_props[of c] by simp

lemma aligned_lead4: "b AND 0xF8 = 0xF0 \<Longrightarrow> aligned (b # bs) = aligned bs"
  using lead4_props[of b] by simp

lemma aligned_ascii_step: "b < 0x80 \<Longrightarrow> aligned (b # bs) = aligned bs"
  by simp

lemma aligned_two:
  "\<not> b < 0x80 \<Longrightarrow> b AND 0xE0 = 0xC0 \<Longrightarrow> utf8_cont c1 \<Longrightarrow> aligned (b # c1 # bs) = aligned bs"
  using cont_props[of c1] by simp

lemma aligned_three:
  "\<not> b < 0x80 \<Longrightarrow> b AND 0xE0 \<noteq> 0xC0 \<Longrightarrow> b AND 0xF0 = 0xE0 \<Longrightarrow> utf8_cont c1 \<Longrightarrow> utf8_cont c2
    \<Longrightarrow> aligned (b # c1 # c2 # bs) = aligned bs"
  using cont_props[of c1] cont_props[of c2] by simp

text \<open>Every well-formed UTF-8 text is aligned.\<close>

lemma utf8_aligned: "utf8 tx \<Longrightarrow> aligned tx"
proof (induction tx rule: utf8.induct)
  case 1
  show ?case by simp
next
  case (2 b)
  then show ?case by simp
next
  case (3 b c1)
  then show ?case
    by (cases "b < 0x80") (simp_all add: aligned_two del: aligned.simps(2), simp)
next
  case (4 b c1 c2)
  show ?case
  proof (cases "b < 0x80")
    case True
    then show ?thesis using 4 by (simp add: aligned_ascii_step del: aligned.simps(2))
  next
    case nb: False
    show ?thesis
    proof (cases "b AND 0xE0 = 0xC0")
      case True
      then show ?thesis using 4 nb by (simp add: aligned_two del: aligned.simps(2))
    next
      case False
      then show ?thesis using 4 nb by (simp add: aligned_three del: aligned.simps(2))
    qed
  qed
next
  case (5 b c1 c2 c3 bs)
  show ?case
  proof (cases "b < 0x80")
    case True
    then show ?thesis using 5 by (simp add: aligned_ascii_step del: aligned.simps(2))
  next
    case nb: False
    show ?thesis
    proof (cases "b AND 0xE0 = 0xC0")
      case True
      then show ?thesis using 5 nb by (simp add: aligned_two del: aligned.simps(2))
    next
      case n2: False
      show ?thesis
      proof (cases "b AND 0xF0 = 0xE0")
        case True
        then show ?thesis using 5 nb n2 by (simp add: aligned_three del: aligned.simps(2))
      next
        case False
        then show ?thesis using 5 nb n2
          by (simp add: aligned_lead4 aligned_cont del: aligned.simps(2))
      qed
    qed
  qed
qed

end
